(* ===== verification/Prelude.thy ===== *)
theory Prelude
  imports Main "HOL-Library.Word" "HOL-Library.Monad_Syntax"
begin

text \<open>
  Shared vocabulary of the development: the C integer types as words of their width, byte
  strings, the idiom \<open>if (!f(...)) return -1;\<close> as a function into \<open>option\<close>, and the generic
  facts on words and lists that the component theories use.
\<close>

unbundle bit_operations_syntax

section \<open>Types\<close>

type_synonym u8 = "8 word"
type_synonym u16 = "16 word"
type_synonym u32 = "32 word"
type_synonym u64 = "64 word"

text \<open>The device is a 32-bit ARM, so \<open>size_t\<close> has 32 bits.\<close>
type_synonym size_t = "32 word"

type_synonym bytes = "u8 list"

named_theorems buf_simps \<open>functional behaviour of the buffer operations on a well-formed buffer\<close>
named_theorems bytes_simps \<open>byte-level facts on reading and writing integers\<close>

text \<open>C character and string literals as bytes.\<close>

definition ch :: "char \<Rightarrow> u8" where
  "ch c = of_char c"

definition str :: "string \<Rightarrow> bytes" where
  "str s = map ch s"

text \<open>
  Many C functions return a success flag and write a result through a pointer, also on failure.
  \<open>chk\<close> is the caller's side \<open>if (!f(..., &v)) return -1;\<close>: it keeps the result only when the
  flag is true.
\<close>

definition chk :: "bool \<times> 'v \<times> 'b \<Rightarrow> ('v \<times> 'b) option" where
  "chk r = (case r of (ok, v, b) \<Rightarrow> if ok then Some (v, b) else None)"

lemma chk_simps [simp]:
  "chk (True, v, b) = Some (v, b)"
  "chk (False, v, b) = None"
  by (simp_all add: chk_def)

lemma chk_eq_Some [simp]: "chk r = Some (v, b) \<longleftrightarrow> r = (True, v, b)"
  by (cases r) (auto simp: chk_def)

text \<open>\<open>chkb\<close> is the same for a function that has no result but its success flag.\<close>

definition chkb :: "bool \<times> 'b \<Rightarrow> 'b option" where
  "chkb r = (if fst r then Some (snd r) else None)"

lemma chkb_simps [simp]:
  "chkb (True, b) = Some b"
  "chkb (False, b) = None"
  by (simp_all add: chkb_def)

lemma chkb_eq_Some [simp]: "chkb r = Some b \<longleftrightarrow> r = (True, b)"
  by (cases r) (auto simp: chkb_def)

text \<open>\<open>guard\<close> is \<open>if (!c) return -1;\<close>.\<close>

definition guard :: "bool \<Rightarrow> unit option" where
  "guard c = (if c then Some () else None)"

lemma guard_simps [simp]:
  "guard True = Some ()" "guard False = None"
  by (simp_all add: guard_def)

lemma guard_eq_Some [simp]: "guard c = Some u \<longleftrightarrow> c"
  by (simp add: guard_def)

lemma bind_guard [simp]: "guard c \<bind> f = (if c then f () else None)"
  by (simp add: guard_def)

section \<open>Words\<close>

lemma unat_size_t_less [simp]: "unat (x :: size_t) < 4294967296"
  using unsigned_less [of x, where ?'a = nat] by simp

lemma unat_sub_le: "(y :: 'a::len word) \<le> x \<Longrightarrow> unat (x - y) = unat x - unat y"
  by (simp add: unat_sub)

lemma unat_add_no_wrap:
  fixes x y :: size_t
  assumes "unat x + unat y < 4294967296"
  shows "unat (x + y) = unat x + unat y"
  using assms by (subst unat_add_lem [THEN iffD1]) simp_all

lemma unat_of_nat_size_t: "n < 4294967296 \<Longrightarrow> unat (of_nat n :: size_t) = n"
  by (simp add: unat_of_nat)

section \<open>Lists\<close>

lemma take_drop_Cons_nth:
  "i < length xs \<Longrightarrow> drop i xs = xs ! i # drop (Suc i) xs"
  by (rule Cons_nth_drop_Suc [symmetric])

lemma drop_take_hd:
  "i < n \<Longrightarrow> n \<le> length xs \<Longrightarrow> take (n - i) (drop i xs) = xs ! i # take (n - Suc i) (drop (Suc i) xs)"
  by (simp add: take_drop_Cons_nth take_Cons' Suc_diff_Suc [symmetric])

end
