(* ===== verification/Bytes.thy ===== *)
theory Bytes
  imports Prelude
begin

text \<open>
  Fixed-width integers and Bitcoin variable-length integers in byte arrays:
  \<open>src/common/read.c\<close>, \<open>src/common/write.c\<close> and \<open>src/common/varint.c\<close>. An array is a list of
  bytes and an index a natural number; the C functions do not check bounds, so the theorems carry
  the bound their callers establish.
\<close>

section \<open>read.c\<close>

definition read_u16_be :: "bytes \<Rightarrow> nat \<Rightarrow> u16" where
  "read_u16_be ptr offset =
     push_bit 8 (ucast (ptr ! (offset + 0))) OR
     push_bit 0 (ucast (ptr ! (offset + 1)))"

definition read_u32_be :: "bytes \<Rightarrow> nat \<Rightarrow> u32" where
  "read_u32_be ptr offset =
     push_bit 24 (ucast (ptr ! (offset + 0))) OR
     push_bit 16 (ucast (ptr ! (offset + 1))) OR
     push_bit 8 (ucast (ptr ! (offset + 2))) OR
     push_bit 0 (ucast (ptr ! (offset + 3)))"

definition read_u64_be :: "bytes \<Rightarrow> nat \<Rightarrow> u64" where
  "read_u64_be ptr offset =
     push_bit 56 (ucast (ptr ! (offset + 0))) OR
     push_bit 48 (ucast (ptr ! (offset + 1))) OR
     push_bit 40 (ucast (ptr ! (offset + 2))) OR
     push_bit 32 (ucast (ptr ! (offset + 3))) OR
     push_bit 24 (ucast (ptr ! (offset + 4))) OR
     push_bit 16 (ucast (ptr ! (offset + 5))) OR
     push_bit 8 (ucast (ptr ! (offset + 6))) OR
     push_bit 0 (ucast (ptr ! (offset + 7)))"

definition read_u16_le :: "bytes \<Rightarrow> nat \<Rightarrow> u16" where
  "read_u16_le ptr offset =
     push_bit 0 (ucast (ptr ! (offset + 0))) OR
     push_bit 8 (ucast (ptr ! (offset + 1)))"

definition read_u32_le :: "bytes \<Rightarrow> nat \<Rightarrow> u32" where
  "read_u32_le ptr offset =
     push_bit 0 (ucast (ptr ! (offset + 0))) OR
     push_bit 8 (ucast (ptr ! (offset + 1))) OR
     push_bit 16 (ucast (ptr ! (offset + 2))) OR
     push_bit 24 (ucast (ptr ! (offset + 3)))"

definition read_u64_le :: "bytes \<Rightarrow> nat \<Rightarrow> u64" where
  "read_u64_le ptr offset =
     push_bit 0 (ucast (ptr ! (offset + 0))) OR
     push_bit 8 (ucast (ptr ! (offset + 1))) OR
     push_bit 16 (ucast (ptr ! (offset + 2))) OR
     push_bit 24 (ucast (ptr ! (offset + 3))) OR
     push_bit 32 (ucast (ptr ! (offset + 4))) OR
     push_bit 40 (ucast (ptr ! (offset + 5))) OR
     push_bit 48 (ucast (ptr ! (offset + 6))) OR
     push_bit 56 (ucast (ptr ! (offset + 7)))"

section \<open>write.c\<close>

definition write_u16_be :: "bytes \<Rightarrow> nat \<Rightarrow> u16 \<Rightarrow> bytes" where
  "write_u16_be ptr offset v = ptr
     [offset + 0 := ucast (drop_bit 8 v),
      offset + 1 := ucast (drop_bit 0 v)]"

definition write_u32_be :: "bytes \<Rightarrow> nat \<Rightarrow> u32 \<Rightarrow> bytes" where
  "write_u32_be ptr offset v = ptr
     [offset + 0 := ucast (drop_bit 24 v),
      offset + 1 := ucast (drop_bit 16 v),
      offset + 2 := ucast (drop_bit 8 v),
      offset + 3 := ucast (drop_bit 0 v)]"

definition write_u64_be :: "bytes \<Rightarrow> nat \<Rightarrow> u64 \<Rightarrow> bytes" where
  "write_u64_be ptr offset v = ptr
     [offset + 0 := ucast (drop_bit 56 v),
      offset + 1 := ucast (drop_bit 48 v),
      offset + 2 := ucast (drop_bit 40 v),
      offset + 3 := ucast (drop_bit 32 v),
      offset + 4 := ucast (drop_bit 24 v),
      offset + 5 := ucast (drop_bit 16 v),
      offset + 6 := ucast (drop_bit 8 v),
      offset + 7 := ucast (drop_bit 0 v)]"

definition write_u16_le :: "bytes \<Rightarrow> nat \<Rightarrow> u16 \<Rightarrow> bytes" where
  "write_u16_le ptr offset v = ptr
     [offset + 0 := ucast (drop_bit 0 v),
      offset + 1 := ucast (drop_bit 8 v)]"

definition write_u32_le :: "bytes \<Rightarrow> nat \<Rightarrow> u32 \<Rightarrow> bytes" where
  "write_u32_le ptr offset v = ptr
     [offset + 0 := ucast (drop_bit 0 v),
      offset + 1 := ucast (drop_bit 8 v),
      offset + 2 := ucast (drop_bit 16 v),
      offset + 3 := ucast (drop_bit 24 v)]"

definition write_u64_le :: "bytes \<Rightarrow> nat \<Rightarrow> u64 \<Rightarrow> bytes" where
  "write_u64_le ptr offset v = ptr
     [offset + 0 := ucast (drop_bit 0 v),
      offset + 1 := ucast (drop_bit 8 v),
      offset + 2 := ucast (drop_bit 16 v),
      offset + 3 := ucast (drop_bit 24 v),
      offset + 4 := ucast (drop_bit 32 v),
      offset + 5 := ucast (drop_bit 40 v),
      offset + 6 := ucast (drop_bit 48 v),
      offset + 7 := ucast (drop_bit 56 v)]"

section \<open>varint.c\<close>

definition varint_size :: "u64 \<Rightarrow> nat" where
  "varint_size v =
     (if v \<le> 0xFC then 1
      else if v \<le> 0xFFFF then 3
      else if v \<le> 0xFFFFFFFF then 5
      else 9)"

text \<open>The result is the length and the decoded number; \<open>None\<close> is the return value -1.\<close>

definition varint_read :: "bytes \<Rightarrow> nat \<Rightarrow> (nat \<times> u64) option" where
  "varint_read inp in_len =
     (if in_len < 1 then None
      else let prefix = inp ! 0 in
        if prefix = 0xFD then
          (if in_len < 3 then None else Some (3, ucast (read_u16_le inp 1)))
        else if prefix = 0xFE then
          (if in_len < 5 then None else Some (5, ucast (read_u32_le inp 1)))
        else if prefix = 0xFF then
          (if in_len < 9 then None else Some (9, ucast (read_u64_le inp 1)))
        else Some (1, ucast prefix))"

text \<open>The result is the return value (-1 in the default branch of the switch) and the array.\<close>

definition varint_write :: "bytes \<Rightarrow> nat \<Rightarrow> u64 \<Rightarrow> int \<times> bytes" where
  "varint_write out offset v =
     (let varint_len = varint_size v in
      if varint_len = 1 then (int varint_len, out[offset := ucast v])
      else if varint_len = 3 then
        (int varint_len, write_u16_le (out[offset := 0xFD]) (offset + 1) (ucast v))
      else if varint_len = 5 then
        (int varint_len, write_u32_le (out[offset := 0xFE]) (offset + 1) (ucast v))
      else if varint_len = 9 then
        (int varint_len, write_u64_le (out[offset := 0xFF]) (offset + 1) v)
      else (-1, out))"

section \<open>The contract of an integer codec\<close>

text \<open>
  A codec writes the encoding \<open>enc v\<close> of a number over \<open>width\<close> bytes of an array and reads it
  back. Each pair of functions of \<open>read.c\<close> and \<open>write.c\<close> is an instance.
\<close>

locale int_codec =
  fixes width :: nat
    and enc :: "'v \<Rightarrow> bytes"
    and rd :: "bytes \<Rightarrow> nat \<Rightarrow> 'v"
    and wr :: "bytes \<Rightarrow> nat \<Rightarrow> 'v \<Rightarrow> bytes"
  assumes enc_length: "length (enc v) = width"
    and wr_splice: "off + width \<le> length p \<Longrightarrow> wr p off v = take off p @ enc v @ drop (off + width) p"
    and rd_enc: "rd (enc v @ rest) 0 = v"
    and rd_local: "off + width \<le> length p \<Longrightarrow> take width (drop off p) = take width q \<Longrightarrow> rd p off = rd q 0"
begin

lemma wr_length:
  assumes "off + width \<le> length p"
  shows "length (wr p off v) = length p"
  using assms by (simp add: wr_splice enc_length)

lemma rd_eq:
  assumes "off + width \<le> length p" and "i + width \<le> length q"
    and "take width (drop off p) = take width (drop i q)"
  shows "rd p off = rd q i"
  using rd_local [OF assms(1,3)] rd_local [OF assms(2) refl] by simp

lemma rd_wr:
  assumes "off + width \<le> length p"
  shows "rd (wr p off v) off = v"
proof -
  have "rd (wr p off v) off = rd (enc v @ []) 0"
    using assms by (intro rd_local) (auto simp: wr_splice enc_length)
  then show ?thesis by (simp only: rd_enc)
qed

lemma rd_wr_before:
  assumes "off + width \<le> length p" and "i + width \<le> off"
  shows "rd (wr p off v) i = rd p i"
proof (rule rd_eq)
  show "take width (drop i (wr p off v)) = take width (drop i p)"
    using assms by (intro nth_equalityI) (auto simp: wr_splice enc_length nth_append)
qed (use assms in \<open>simp_all add: wr_length\<close>)

lemma rd_wr_after:
  assumes "off + width \<le> i" and "i + width \<le> length p"
  shows "rd (wr p off v) i = rd p i"
proof (rule rd_eq)
  show "take width (drop i (wr p off v)) = take width (drop i p)"
    using assms by (intro nth_equalityI) (auto simp: wr_splice enc_length nth_append)
qed (use assms in \<open>simp_all add: wr_length\<close>)

end

text \<open>The encodings, as byte strings.\<close>

definition enc_u16_be :: "u16 \<Rightarrow> bytes" where
  "enc_u16_be v = [ucast (drop_bit 8 v), ucast v]"

definition enc_u32_be :: "u32 \<Rightarrow> bytes" where
  "enc_u32_be v = [ucast (drop_bit 24 v), ucast (drop_bit 16 v), ucast (drop_bit 8 v), ucast v]"

definition enc_u64_be :: "u64 \<Rightarrow> bytes" where
  "enc_u64_be v = [ucast (drop_bit 56 v), ucast (drop_bit 48 v), ucast (drop_bit 40 v),
     ucast (drop_bit 32 v), ucast (drop_bit 24 v), ucast (drop_bit 16 v), ucast (drop_bit 8 v), ucast v]"

definition enc_u16_le :: "u16 \<Rightarrow> bytes" where
  "enc_u16_le v = rev (enc_u16_be v)"

definition enc_u32_le :: "u32 \<Rightarrow> bytes" where
  "enc_u32_le v = rev (enc_u32_be v)"

definition enc_u64_le :: "u64 \<Rightarrow> bytes" where
  "enc_u64_le v = rev (enc_u64_be v)"

lemmas enc_defs = enc_u16_be_def enc_u32_be_def enc_u64_be_def
  enc_u16_le_def enc_u32_le_def enc_u64_le_def

lemmas read_defs = read_u16_be_def read_u32_be_def read_u64_be_def
  read_u16_le_def read_u32_le_def read_u64_le_def

lemmas write_defs = write_u16_be_def write_u32_be_def write_u64_be_def
  write_u16_le_def write_u32_le_def write_u64_le_def

text \<open>Writing consecutive bytes, one at a time, is a splice.\<close>

lemma updates_splice:
  assumes "off + length bs \<le> length p"
  shows "fold (\<lambda>(i, b) q. q[off + i := b]) (enumerate 0 bs) p
           = take off p @ bs @ drop (off + length bs) p"
  using assms
proof (induction bs rule: rev_induct)
  case Nil
  then show ?case by simp
next
  case (snoc b bs)
  then show ?case
    by (simp add: enumerate_append_eq list_update_append take_drop_Cons_nth [of "off + length bs" p])
qed



lemma bit_shifted_byte:
  fixes v :: "'a::len word"
  assumes "n < LENGTH('a)"
  shows "bit (push_bit k (ucast (ucast (drop_bit k v) :: u8)) :: 'a word) n \<longleftrightarrow> k \<le> n \<and> n < k + 8 \<and> bit v n"
  using assms by (auto simp: bit_simps)

lemma bit_low_byte:
  fixes v :: "'a::len word"
  assumes "n < LENGTH('a)"
  shows "bit (ucast (ucast v :: u8) :: 'a word) n \<longleftrightarrow> n < 8 \<and> bit v n"
  using assms by (auto simp: bit_simps)


lemma read_enc [bytes_simps]:
  "read_u16_be (enc_u16_be v16 @ rest) 0 = v16"
  "read_u16_le (enc_u16_le v16 @ rest) 0 = v16"
  "read_u32_be (enc_u32_be v32 @ rest) 0 = v32"
  "read_u32_le (enc_u32_le v32 @ rest) 0 = v32"
  "read_u64_be (enc_u64_be v64 @ rest) 0 = v64"
  "read_u64_le (enc_u64_le v64 @ rest) 0 = v64"
  by (rule bit_word_eqI,
      simp add: read_defs enc_defs bit_or_iff bit_shifted_byte bit_low_byte, arith)+

lemma write_eq_splice [bytes_simps]:
  "off + 2 \<le> length p \<Longrightarrow> write_u16_be p off v16 = take off p @ enc_u16_be v16 @ drop (off + 2) p"
  "off + 2 \<le> length p \<Longrightarrow> write_u16_le p off v16 = take off p @ enc_u16_le v16 @ drop (off + 2) p"
  "off + 4 \<le> length p \<Longrightarrow> write_u32_be p off v32 = take off p @ enc_u32_be v32 @ drop (off + 4) p"
  "off + 4 \<le> length p \<Longrightarrow> write_u32_le p off v32 = take off p @ enc_u32_le v32 @ drop (off + 4) p"
  "off + 8 \<le> length p \<Longrightarrow> write_u64_be p off v64 = take off p @ enc_u64_be v64 @ drop (off + 8) p"
  "off + 8 \<le> length p \<Longrightarrow> write_u64_le p off v64 = take off p @ enc_u64_le v64 @ drop (off + 8) p"
  using updates_splice [of off "enc_u16_be v16" p] updates_splice [of off "enc_u16_le v16" p]
    updates_splice [of off "enc_u32_be v32" p] updates_splice [of off "enc_u32_le v32" p]
    updates_splice [of off "enc_u64_be v64" p] updates_splice [of off "enc_u64_le v64" p]
  by (simp_all add: write_defs enc_defs eval_nat_numeral)

lemma enc_lengths [bytes_simps]:
  "length (enc_u16_be v16) = 2" "length (enc_u16_le v16) = 2"
  "length (enc_u32_be v32) = 4" "length (enc_u32_le v32) = 4"
  "length (enc_u64_be v64) = 8" "length (enc_u64_le v64) = 8"
  by (simp_all add: enc_defs)

text \<open>A read looks only at the bytes of its width.\<close>

lemma nth_from_take_drop:
  assumes "off + w \<le> length p" and "take w (drop off p) = take w q" and "i < w"
  shows "p ! (off + i) = q ! i"
  using assms by (metis add_leD1 nth_drop nth_take)

lemma read_local2:
  assumes "off + 2 \<le> length p" and "take 2 (drop off p) = take 2 q"
  shows "read_u16_be p off = read_u16_be q 0" and "read_u16_le p off = read_u16_le q 0"
  using nth_from_take_drop [OF assms, of 0]
    nth_from_take_drop [OF assms, of 1]
  by (simp_all add: read_defs numeral_2_eq_2)

lemma read_local4:
  assumes "off + 4 \<le> length p" and "take 4 (drop off p) = take 4 q"
  shows "read_u32_be p off = read_u32_be q 0" and "read_u32_le p off = read_u32_le q 0"
  using nth_from_take_drop [OF assms, of 0]
    nth_from_take_drop [OF assms, of 1]
    nth_from_take_drop [OF assms, of 2]
    nth_from_take_drop [OF assms, of 3]
  by (simp_all add: read_defs numeral_2_eq_2)

lemma read_local8:
  assumes "off + 8 \<le> length p" and "take 8 (drop off p) = take 8 q"
  shows "read_u64_be p off = read_u64_be q 0" and "read_u64_le p off = read_u64_le q 0"
  using nth_from_take_drop [OF assms, of 0]
    nth_from_take_drop [OF assms, of 1]
    nth_from_take_drop [OF assms, of 2]
    nth_from_take_drop [OF assms, of 3]
    nth_from_take_drop [OF assms, of 4]
    nth_from_take_drop [OF assms, of 5]
    nth_from_take_drop [OF assms, of 6]
    nth_from_take_drop [OF assms, of 7]
  by (simp_all add: read_defs numeral_2_eq_2)

interpretation u16be: int_codec 2 enc_u16_be read_u16_be write_u16_be
  by unfold_locales (simp_all add: bytes_simps read_local2 read_local4 read_local8)

interpretation u16le: int_codec 2 enc_u16_le read_u16_le write_u16_le
  by unfold_locales (simp_all add: bytes_simps read_local2 read_local4 read_local8)

interpretation u32be: int_codec 4 enc_u32_be read_u32_be write_u32_be
  by unfold_locales (simp_all add: bytes_simps read_local2 read_local4 read_local8)

interpretation u32le: int_codec 4 enc_u32_le read_u32_le write_u32_le
  by unfold_locales (simp_all add: bytes_simps read_local2 read_local4 read_local8)

interpretation u64be: int_codec 8 enc_u64_be read_u64_be write_u64_be
  by unfold_locales (simp_all add: bytes_simps read_local2 read_local4 read_local8)

interpretation u64le: int_codec 8 enc_u64_le read_u64_le write_u64_le
  by unfold_locales (simp_all add: bytes_simps read_local2 read_local4 read_local8)


section \<open>Variable-length integers\<close>

text \<open>The canonical encoding, as a byte string.\<close>

definition varint_enc :: "u64 \<Rightarrow> bytes" where
  "varint_enc v =
     (if v \<le> 0xFC then [ucast v]
      else if v \<le> 0xFFFF then 0xFD # enc_u16_le (ucast v)
      else if v \<le> 0xFFFFFFFF then 0xFE # enc_u32_le (ucast v)
      else 0xFF # enc_u64_le v)"

lemma varint_enc_length: "length (varint_enc v) = varint_size v"
  by (simp add: varint_enc_def varint_size_def bytes_simps)

lemma varint_write_splice:
  assumes "off + varint_size v \<le> length out"
  shows "varint_write out off v =
     (int (varint_size v), take off out @ varint_enc v @ drop (off + varint_size v) out)"
proof -
  have "off < length out" using assms by (auto simp: varint_size_def split: if_splits)
  then show ?thesis
    using assms
    by (auto simp: varint_write_def varint_enc_def varint_size_def bytes_simps
          upd_conv_take_nth_drop take_Suc_conv_app_nth add.commute numeral_3_eq_3 split: if_splits)
qed

lemma ucast_shrink:
  fixes v :: u64
  shows "v \<le> 0xFC \<Longrightarrow> ucast (ucast v :: u8) = v"
    and "v \<le> 0xFFFF \<Longrightarrow> ucast (ucast v :: u16) = v"
    and "v \<le> 0xFFFFFFFF \<Longrightarrow> ucast (ucast v :: u32) = v"
  by (simp_all add: word_le_nat_alt word_unat_eq_iff unsigned_ucast_eq unsigned_take_bit_eq take_bit_nat_eq_self)

lemma varint_read_enc:
  assumes "varint_size v \<le> n"
  shows "varint_read (varint_enc v @ rest) n = Some (varint_size v, v)"
proof -
  have "(0xFD :: u8) \<noteq> ucast v" "(0xFE :: u8) \<noteq> ucast v" "(0xFF :: u8) \<noteq> ucast v" if "v \<le> 0xFC"
    using that by (auto dest!: arg_cong [where f = "ucast :: u8 \<Rightarrow> u64"] simp: ucast_shrink)
  moreover have "read_u16_le (b # enc_u16_le x @ rest) 1 = x" for b x
    using u16le.rd_local [of 1 "b # enc_u16_le x @ rest" "enc_u16_le x @ rest"]
    by (simp add: bytes_simps)
  moreover have "read_u32_le (b # enc_u32_le x @ rest) 1 = x" for b x
    using u32le.rd_local [of 1 "b # enc_u32_le x @ rest" "enc_u32_le x @ rest"]
    by (simp add: bytes_simps)
  moreover have "read_u64_le (b # enc_u64_le x @ rest) 1 = x" for b x
    using u64le.rd_local [of 1 "b # enc_u64_le x @ rest" "enc_u64_le x @ rest"]
    by (simp add: bytes_simps)
  ultimately show ?thesis
    using assms
    by (auto simp: varint_read_def varint_enc_def varint_size_def Let_def ucast_shrink split: if_splits)
qed

text \<open>Writing a variable-length integer into an array that has room for it and reading the
  array back from the same offset gives the number and the length written; the bytes before the
  offset and after the encoding are unchanged.\<close>

theorem varint_write_read:
  assumes room: "off + varint_size v \<le> length out"
    and wr: "varint_write out off v = (r, out')"
  shows "r = int (varint_size v) \<and>
    varint_read (drop off out') (length out' - off) = Some (varint_size v, v) \<and>
    length out' = length out \<and> take off out' = take off out \<and>
    drop (off + varint_size v) out' = drop (off + varint_size v) out"
proof (intro conjI)
  have out': "r = int (varint_size v)"
    "out' = take off out @ varint_enc v @ drop (off + varint_size v) out"
    using wr varint_write_splice [OF room] by simp_all
  show "r = int (varint_size v)" by (rule out')
  show "length out' = length out" "take off out' = take off out"
    "drop (off + varint_size v) out' = drop (off + varint_size v) out"
    using room by (simp_all add: out' varint_enc_length)
  show "varint_read (drop off out') (length out' - off) = Some (varint_size v, v)"
    using room by (simp add: out' varint_enc_length varint_read_enc)
qed

theorem varint_write_read_witness:
  "varint_write [7, 7, 7, 7, 7] 1 0x1234 = (3, [7, 0xFD, 0x34, 0x12, 7]) \<and>
   varint_read (drop 1 [7, 0xFD, 0x34, 0x12, 7]) (length [7, 0xFD, 0x34, 0x12, 7 :: u8] - 1) =
     Some (varint_size 0x1234, 0x1234)"
proof -
  have r: "1 + varint_size 0x1234 \<le> length [7, 7, 7, 7, 7 :: u8]" by code_simp
  have h: "varint_write [7, 7, 7, 7, 7] 1 0x1234 = (3, [7, 0xFD, 0x34, 0x12, 7])" by code_simp
  show ?thesis using h varint_write_read [OF r h] by blast
qed

end
