(* ===== verification/Base58.thy ===== *)
theory Base58
  imports Bytes
begin

text \<open>
  The base-58 codec of \<open>common/base58.c\<close>. The two in-place radix conversions are modelled with
  the arrays and the index arithmetic of the source; the lemmas show that they compute the number
  the digits denote, that no index leaves its array, and that decoding inverts encoding.
\<close>

section \<open>Model\<close>

definition MAX_DEC_INPUT_SIZE :: nat where
  "MAX_DEC_INPUT_SIZE = 164"

definition MAX_ENC_INPUT_SIZE :: nat where
  "MAX_ENC_INPUT_SIZE = 120"

definition BASE58_TABLE_TRIMMED :: bytes where
  "BASE58_TABLE_TRIMMED =
    [0x00, 0x01, 0x02, 0x03, 0x04, 0x05, 0x06, 0x07, 0x08, 0xFF, 0xFF,
     0xFF, 0xFF, 0xFF, 0xFF, 0xFF, 0x09, 0x0A, 0x0B, 0x0C, 0x0D, 0x0E, 0x0F,
     0x10, 0xFF, 0x11, 0x12, 0x13, 0x14, 0x15, 0xFF, 0x16, 0x17, 0x18, 0x19,
     0x1A, 0x1B, 0x1C, 0x1D, 0x1E, 0x1F, 0x20, 0xFF, 0xFF, 0xFF, 0xFF, 0xFF,
     0xFF, 0x21, 0x22, 0x23, 0x24, 0x25, 0x26, 0x27, 0x28, 0x29, 0x2A, 0x2B,
     0xFF, 0x2C, 0x2D, 0x2E, 0x2F, 0x30, 0x31, 0x32, 0x33, 0x34, 0x35, 0x36,
     0x37, 0x38, 0x39]"

definition BASE58_ALPHABET :: bytes where
  "BASE58_ALPHABET = str ''123456789ABCDEFGHJKLMNPQRSTUVWXYZabcdefghijkmnopqrstuvwxyz''"

text \<open>The first loop of \<open>base58_decode\<close>: characters to digits.\<close>

primrec base58_digits :: "bytes \<Rightarrow> bytes option" where
  "base58_digits [] = Some []"
| "base58_digits (c # cs) = do {
     let pos_trimmed = uint c - 49;
     guard (\<not> (pos_trimmed < 0 \<or> pos_trimmed \<ge> int (length BASE58_TABLE_TRIMMED)));
     let d = BASE58_TABLE_TRIMMED ! nat pos_trimmed;
     guard (d \<noteq> 0xFF);
     ds \<leftarrow> base58_digits cs;
     Some (d # ds)
   }"

text \<open>
  One division by 256 of the digits from \<open>start_at\<close> on: the new digits and the remainder.
\<close>

primrec div_loop :: "bytes \<Rightarrow> u16 \<Rightarrow> bytes \<times> u16" where
  "div_loop [] remainder = ([], remainder)"
| "div_loop (d # ds) remainder =
     (let digit256 = (ucast (d AND 0xFF) :: u16);
          tmp_div = remainder * 58 + digit256;
          (tmp, r) = div_loop ds (tmp_div mod 256)
      in (ucast (tmp_div div 256) # tmp, r))"

text \<open>
  The loop that fills \<open>buffer\<close> from its end. The first argument is \<open>j\<close>, the second the digits
  from \<open>start_at\<close> on, the third what is written behind \<open>j\<close>. Writing in front of the array is
  undefined in C and \<open>None\<close> here; \<open>decode_loop_value\<close> shows that it does not happen.
\<close>

primrec decode_loop :: "nat \<Rightarrow> bytes \<Rightarrow> bytes \<Rightarrow> bytes option" where
  "decode_loop 0 tmp buf = (if tmp = [] then Some buf else None)"
| "decode_loop (Suc j) tmp buf =
     (if tmp = [] then Some buf
      else let (tmp, remainder) = div_loop tmp 0
           in decode_loop j (if hd tmp = 0 then tl tmp else tmp) (ucast remainder # buf))"

definition base58_decode :: "bytes \<Rightarrow> nat \<Rightarrow> bytes option" where
  "base58_decode inp out_len = do {
     let in_len = length inp;
     guard (\<not> (in_len > MAX_DEC_INPUT_SIZE \<or> in_len < 2));
     tmp \<leftarrow> base58_digits inp;
     let zero_count = length (takeWhile (\<lambda>d. d = 0) tmp);
     written \<leftarrow> decode_loop in_len (drop zero_count tmp) [];
     let buf = replicate (in_len - length written) 0 @ written;
     let j = in_len - length written + length (takeWhile (\<lambda>d. d = 0) written);
     let len = in_len - (j - zero_count);
     guard (\<not> out_len < len);
     Some (take len (drop (j - zero_count) buf))
   }"

text \<open>
  \<open>base58_encode\<close>: one byte is multiplied into \<open>buffer\<close>, from its last digit down. The first
  argument is \<open>j + 1\<close>; the results are \<open>buffer\<close> and the \<open>j\<close> at which the loop stops, which is
  \<open>SIZE_MAX\<close> when it runs off the front.
\<close>

primrec encode_inner :: "nat \<Rightarrow> bytes \<Rightarrow> u32 \<Rightarrow> size_t \<Rightarrow> bytes \<times> size_t" where
  "encode_inner 0 buf carry stop_at = (buf, - 1)"
| "encode_inner (Suc j) buf carry stop_at =
     (let carry = carry + 256 * ucast (buf ! j);
          buf = buf[j := ucast (carry mod 58)];
          carry = carry div 58
      in if (of_nat j :: size_t) \<le> stop_at - 1 \<and> carry = 0 then (buf, of_nat j)
         else encode_inner j buf carry stop_at)"

primrec encode_outer :: "bytes \<Rightarrow> nat \<Rightarrow> bytes \<Rightarrow> size_t \<Rightarrow> bytes" where
  "encode_outer [] output_size buf stop_at = buf"
| "encode_outer (b # bs) output_size buf stop_at =
     (let (buf, stop_at) = encode_inner output_size buf (ucast b) stop_at
      in encode_outer bs output_size buf stop_at)"

definition base58_encode :: "bytes \<Rightarrow> nat \<Rightarrow> bytes option" where
  "base58_encode inp out_len = do {
     let in_len = length inp;
     guard (\<not> in_len > MAX_ENC_INPUT_SIZE);
     let zero_count = length (takeWhile (\<lambda>d. d = 0) inp);
     let output_size = (in_len - zero_count) * 138 div 100 + 1;
     let buf = encode_outer (drop zero_count inp) output_size (replicate (MAX_ENC_INPUT_SIZE * 138 div 100 + 1) 0)
                 (of_nat (output_size - 1));
     let j = length (takeWhile (\<lambda>d. d = 0) (take output_size buf));
     guard (\<not> out_len < zero_count + output_size - j);
     Some (replicate zero_count (BASE58_ALPHABET ! 0) @
           map (\<lambda>d. BASE58_ALPHABET ! unat d) (drop j (take output_size buf)))
   }"

section \<open>Numbers and their digits\<close>

definition radix_value :: "nat \<Rightarrow> bytes \<Rightarrow> nat" where
  "radix_value b ds = foldl (\<lambda>v d. b * v + unat d) 0 ds"

definition base58_ok :: "bytes \<Rightarrow> bool" where
  "base58_ok ds \<longleftrightarrow> (\<forall>d\<in>set ds. unat d < 58)"

lemma radix_value_acc: "foldl (\<lambda>v d. b * v + unat d) a ds = a * b ^ length ds + radix_value b ds"
proof (induction ds arbitrary: a)
  case (Cons d ds)
  have "foldl (\<lambda>v d. b * v + unat d) a (d # ds) = (b * a + unat d) * b ^ length ds + radix_value b ds"
    by (simp add: Cons)
  moreover have "radix_value b (d # ds) = unat d * b ^ length ds + radix_value b ds"
    by (simp add: radix_value_def [of b "d # ds"] Cons)
  ultimately show ?case
    by (simp add: algebra_simps)
qed (simp add: radix_value_def)

lemma radix_value_Nil [simp]: "radix_value b [] = 0"
  by (simp add: radix_value_def)

lemma radix_value_append [simp]:
  "radix_value b (xs @ ys) = radix_value b xs * b ^ length ys + radix_value b ys"
  using radix_value_acc [of b "radix_value b xs" ys] by (simp add: radix_value_def)

lemma radix_value_Cons [simp]:
  "radix_value b (d # ds) = unat d * b ^ length ds + radix_value b ds"
  using radix_value_append [of b "[d]" ds] by (simp add: radix_value_def [of b "[d]"])

lemma radix_value_zeros [simp]: "radix_value b (replicate n 0) = 0"
  by (induction n) simp_all

lemma radix_value_less: "\<forall>d\<in>set ds. unat d < b \<Longrightarrow> radix_value b ds < b ^ length ds"
proof (induction ds)
  case (Cons d ds)
  then have "unat d * b ^ length ds + radix_value b ds < (unat d + 1) * b ^ length ds"
    by simp
  also have "\<dots> \<le> b * b ^ length ds"
    using Cons.prems by (intro mult_right_mono) simp_all
  finally show ?case by simp
qed simp

text \<open>Digit strings of one length, or without leading zeros, are determined by their value.\<close>

lemma quot_unique: "r < B \<Longrightarrow> s < B \<Longrightarrow> u * B + r = v * B + s \<Longrightarrow> u = (v :: nat)"
  by (metis add.right_neutral div_less div_mult_self3 less_nat_zero_code)

lemma radix_value_inject_length:
  assumes "length xs = length ys" "\<forall>d\<in>set xs. unat d < b" "\<forall>d\<in>set ys. unat d < b"
    and "radix_value b xs = radix_value b ys"
  shows "xs = ys"
  using assms
proof (induction xs ys rule: list_induct2)
  case (Cons x xs y ys)
  let ?B = "b ^ length ys"
  have "radix_value b xs < ?B" "radix_value b ys < ?B"
    using radix_value_less [of xs b] radix_value_less [of ys b] Cons by auto
  moreover have e: "unat x * ?B + radix_value b xs = unat y * ?B + radix_value b ys"
    using Cons by simp
  ultimately have "unat x = unat y"
    using quot_unique [of "radix_value b xs" ?B "radix_value b ys" "unat x" "unat y"] by simp
  then show ?case
    using Cons e by (simp add: word_unat_eq_iff)
qed simp

definition no_lead :: "bytes \<Rightarrow> bool" where
  "no_lead ds \<longleftrightarrow> (case ds of [] \<Rightarrow> True | d # _ \<Rightarrow> d \<noteq> 0)"

lemma radix_value_lead:
  assumes "no_lead ds" "ds \<noteq> []"
  shows "b ^ (length ds - 1) \<le> radix_value b ds"
proof -
  obtain d es where d: "ds = d # es" "unat d \<noteq> 0"
    using assms by (cases ds) (auto simp: no_lead_def unat_eq_0)
  then have "b ^ length es \<le> unat d * b ^ length es + radix_value b es"
    by (intro trans_le_add1) simp
  then show ?thesis using d by simp
qed

lemma radix_length_le:
  assumes "no_lead xs" "\<forall>d\<in>set ys. unat d < b" "1 < b" "radix_value b xs = radix_value b ys"
  shows "length xs \<le> length ys"
proof (cases "xs = []")
  case False
  have "b ^ (length xs - 1) < b ^ length ys"
    using radix_value_lead [OF assms(1) False, of b] radix_value_less [OF assms(2)] assms(4) by simp
  then have "length xs - 1 < length ys"
    using assms(3) by (simp add: power_strict_increasing_iff)
  then show ?thesis by simp
qed simp

lemma radix_value_inject:
  assumes "no_lead xs" "no_lead ys" "\<forall>d\<in>set xs. unat d < b" "\<forall>d\<in>set ys. unat d < b" "1 < b"
    and "radix_value b xs = radix_value b ys"
  shows "xs = ys"
  using assms radix_length_le [of xs ys b] radix_length_le [of ys xs b]
  by (intro radix_value_inject_length [of xs ys b]) simp_all

lemma strip_zeros:
  "ds = replicate (length (takeWhile (\<lambda>d. d = 0) ds)) 0 @ dropWhile (\<lambda>d. d = 0) ds"
  by (metis (mono_tags, lifting) replicate_length_same set_takeWhileD takeWhile_dropWhile_id)

lemma no_lead_dropWhile [simp]: "no_lead (dropWhile (\<lambda>d. d = 0) ds)"
  by (induction ds) (simp_all add: no_lead_def)

lemma radix_value_dropWhile [simp]: "radix_value b (dropWhile (\<lambda>d. d = 0) ds) = radix_value b ds"
  by (induction ds) simp_all

lemma bytes_less_256 [simp]: "unat (d :: u8) < 256"
  using unsigned_less [of d, where ?'a = nat] by simp

section \<open>Decoding computes the number\<close>

lemma base58_ok_simps [simp]:
  "base58_ok []" "base58_ok (d # ds) \<longleftrightarrow> unat d < 58 \<and> base58_ok ds"
  by (simp_all add: base58_ok_def)

lemma div_step:
  fixes r :: u16 and d :: u8
  assumes "unat d < 58" "unat r < 256"
  defines "t \<equiv> r * 58 + ucast (d AND 0xFF)"
  shows "unat t = unat r * 58 + unat d" "unat (t mod 256) = unat t mod 256"
    "unat (ucast (t div 256) :: u8) = unat t div 256" "unat t div 256 < 58"
proof -
  have "(0xFF :: u8) = - 1" by simp
  then have "d AND 0xFF = d" by (simp only: and.right_neutral)
  then show t: "unat t = unat r * 58 + unat d"
    using assms by (simp add: unat_word_ariths unsigned_ucast_eq take_bit_eq_mod)
  show "unat (t mod 256) = unat t mod 256"
    by (simp add: unat_mod)
  show s: "unat t div 256 < 58"
    using t assms by (simp add: less_mult_imp_div_less)
  then show "unat (ucast (t div 256) :: u8) = unat t div 256"
    by (simp add: unsigned_ucast_eq take_bit_eq_mod unat_div)
qed

lemma div_loop_value:
  assumes "base58_ok ds" "unat r < 256"
  shows "base58_ok (fst (div_loop ds r)) \<and> length (fst (div_loop ds r)) = length ds \<and> unat (snd (div_loop ds r)) < 256 \<and>
    unat r * 58 ^ length ds + radix_value 58 ds = 256 * radix_value 58 (fst (div_loop ds r)) + unat (snd (div_loop ds r))"
  using assms
proof (induction ds arbitrary: r)
  case (Cons d ds)
  define t where "t = r * 58 + ucast (d AND 0xFF)"
  have d: "unat d < 58" "base58_ok ds" using Cons.prems by simp_all
  note st = div_step [OF d(1) Cons.prems(2), folded t_def]
  obtain qs r' where q: "div_loop ds (t mod 256) = (qs, r')" by fastforce
  have ih: "base58_ok qs" "length qs = length ds" "unat r' < 256"
    "unat t mod 256 * 58 ^ length ds + radix_value 58 ds = 256 * radix_value 58 qs + unat r'"
    using Cons.IH [OF d(2), of "t mod 256"] q st(2) by simp_all
  have e: "div_loop (d # ds) r = (ucast (t div 256) # qs, r')"
    by (simp add: t_def [symmetric] q Let_def)
  have "unat r * 58 ^ length (d # ds) + radix_value 58 (d # ds) = unat t * 58 ^ length ds + radix_value 58 ds"
    by (simp add: st(1) algebra_simps)
  also have "unat t * 58 ^ length ds = 256 * (unat t div 256) * 58 ^ length ds + unat t mod 256 * 58 ^ length ds"
    by (metis distrib_right mult_div_mod_eq)
  finally show ?case
    unfolding e using ih st(3,4) by (simp add: algebra_simps)
qed simp

lemma decode_loop_value:
  assumes "base58_ok tmp" "length tmp \<le> j"
  shows "\<exists>w. decode_loop j tmp buf = Some (w @ buf) \<and> length w = length tmp \<and> radix_value 256 w = radix_value 58 tmp"
  using assms
proof (induction j arbitrary: tmp buf)
  case (Suc j)
  show ?case
  proof (cases tmp)
    case (Cons d ds)
    obtain q qs r where q: "div_loop tmp 0 = (q # qs, r)"
      using div_loop_value [OF Suc.prems(1), of 0] Cons by (cases "div_loop tmp 0"; cases "fst (div_loop tmp 0)") auto
    have v: "base58_ok qs" "length qs = length ds" "unat r < 256"
      "radix_value 58 tmp = 256 * radix_value 58 (q # qs) + unat r"
      using div_loop_value [OF Suc.prems(1), of 0] q Cons by simp_all
    have "unat q = 0"
      using div_step [of d 0] q Cons Suc.prems(1) by (auto simp: Let_def split: prod.splits)
    then have q0: "q = 0" by (simp add: unat_eq_0)
    obtain w where "decode_loop j qs (ucast r # buf) = Some (w @ ucast r # buf)" "length w = length qs"
      "radix_value 256 w = radix_value 58 qs"
      using Suc.IH [of qs "ucast r # buf"] v Suc.prems(2) Cons by auto
    moreover have "unat (ucast r :: u8) = unat r"
      using v(3) by (simp add: unsigned_ucast_eq take_bit_eq_mod)
    ultimately show ?thesis
      using v q q0 Cons by (intro exI [of _ "w @ [ucast r]"]) (simp add: Let_def)
  qed simp
qed simp

section \<open>Encoding computes the number\<close>

lemma carry_step:
  fixes c :: u32 and d :: u8
  assumes "unat c < 2 ^ 20" "unat d < 58"
  defines "t \<equiv> c + 256 * ucast d"
  shows "unat t = 256 * unat d + unat c" "unat (t div 58) = unat t div 58" "unat (t div 58) < 2 ^ 20"
    "unat (ucast (t mod 58) :: u8) = unat t mod 58"
proof -
  show t: "unat t = 256 * unat d + unat c"
    using assms by (simp add: unat_word_ariths unsigned_ucast_eq take_bit_eq_mod)
  show d: "unat (t div 58) = unat t div 58" by (simp add: unat_div)
  show "unat (t div 58) < 2 ^ 20"
    using t assms(1,2) by (simp add: d)
  have "unat t mod 58 < 256" by (rule less_trans [of _ 58]) simp_all
  then show "unat (ucast (t mod 58) :: u8) = unat t mod 58"
    by (simp add: unsigned_ucast_eq take_bit_eq_mod unat_mod)
qed

lemma take_Suc_value:
  "j < length L \<Longrightarrow> radix_value b (take (Suc j) L) = b * radix_value b (take j L) + unat (L ! j)"
  by (simp add: take_Suc_conv_app_nth)

lemma zeros_value: "j \<le> length L \<Longrightarrow> \<forall>i<j. L ! i = 0 \<Longrightarrow> radix_value b (take j L) = 0"
  by (induction j) (simp_all add: take_Suc_value)

lemma stop_test:
  fixes st :: size_t
  assumes "unat (of_nat j :: size_t) = j" "0 < unat st"
  shows "(of_nat j :: size_t) \<le> st - 1 \<longleftrightarrow> j < unat st"
proof -
  have "st \<noteq> 0" using assms(2) by auto
  then show ?thesis using assms by (auto simp: word_le_nat_alt unat_minus_one)
qed

lemma encode_inner_value:
  assumes "j \<le> length L" "length L < 1000" "base58_ok L" "unat c < 2 ^ 20" "0 < unat st"
    and "\<forall>i<unat st. i < j \<longrightarrow> L ! i = 0"
    and "256 * radix_value 58 (take j L) + unat c < 58 ^ (j - B)" "B < unat st" "B < j"
  shows "\<exists>L' st'. encode_inner j L c st = (L', st') \<and> length L' = length L \<and> base58_ok L' \<and> drop j L' = drop j L \<and>
    radix_value 58 (take j L') = 256 * radix_value 58 (take j L) + unat c \<and>
    B \<le> unat st' \<and> st' < st \<and> (\<forall>i<unat st'. L' ! i = 0)"
  using assms
proof (induction j arbitrary: L c)
  case (Suc j)
  define t where "t = c + 256 * ucast (L ! j)"
  define M where "M = L[j := ucast (t mod 58)]"
  have j: "j < length L" using Suc.prems by simp
  have d: "unat (L ! j) < 58"
    using Suc.prems(3) j by (simp add: base58_ok_def)
  note st = carry_step [OF Suc.prems(4) d, folded t_def]
  have M: "length M = length L" "base58_ok M" "take j M = take j L" "M ! j = ucast (t mod 58)" "drop (Suc j) M = drop (Suc j) L"
    using Suc.prems(3) j st(4) set_update_subset_insert [of L j "ucast (t mod 58)"] by (auto simp: M_def base58_ok_def)
  have uj: "unat (of_nat j :: size_t) = j"
    using Suc.prems(2) j by (simp add: unat_of_nat)
  then have le: "(of_nat j :: size_t) \<le> st - 1 \<longleftrightarrow> j < unat st"
    using Suc.prems(5) by (rule stop_test)
  let ?A = "256 * radix_value 58 (take j L)"
  have total: "256 * radix_value 58 (take (Suc j) L) + unat c = 58 * ?A + unat t"
    by (simp add: take_Suc_value j st(1))
  have bound: "58 * ?A + unat t < 58 * 58 ^ (j - B)"
    using Suc.prems(7,9) total by (simp add: Suc_diff_le less_Suc_eq_le)
  show ?case
  proof (cases "j < unat st \<and> t div 58 = 0")
    case True
    then have z: "?A = 0" "unat t < 58"
      using zeros_value [of j L 58] Suc.prems(6) j st(2) by (auto simp: div_eq_0_iff)
    have "radix_value 58 (take (Suc j) M) = unat t"
      using z j M st(4) by (simp add: take_Suc_value)
    moreover have "\<forall>i<j. M ! i = 0"
      using True Suc.prems(6) by (auto simp: M_def)
    moreover have "encode_inner (Suc j) L c st = (M, of_nat j)"
      using True le by (simp add: t_def [symmetric] M_def [symmetric] Let_def)
    ultimately show ?thesis
      using M total z Suc.prems(9) True uj by (auto simp: word_less_nat_alt)
  next
    case False
    have e: "encode_inner (Suc j) L c st = encode_inner j M (t div 58) st"
      using False le by (auto simp: t_def [symmetric] M_def [symmetric] Let_def)
    have lt: "?A + unat t div 58 < 58 ^ (j - B)"
    proof -
      have "58 * (unat t div 58) \<le> unat t" by simp
      then show ?thesis using bound by linarith
    qed
    have B: "B < j"
    proof (cases "j < unat st")
      case True
      then have "t div 58 \<noteq> 0" "?A = 0"
        using zeros_value [of j L 58] Suc.prems(6) j False by auto
      then have "?A = 0" "unat t div 58 \<noteq> 0"
        using unat_eq_zero [of "t div 58"] st(2) by linarith+
      then show ?thesis
        using lt Suc.prems(9) by (cases "B = j") auto
    qed (use Suc.prems(8) in simp)
    have z: "\<forall>i<unat st. i < j \<longrightarrow> M ! i = 0"
      using Suc.prems(6) by (auto simp: M_def)
    obtain L' st' where ih: "encode_inner j M (t div 58) st = (L', st')" "length L' = length M" "base58_ok L'"
      "drop j L' = drop j M" "radix_value 58 (take j L') = 256 * radix_value 58 (take j M) + unat (t div 58)"
      "B \<le> unat st'" "st' < st" "\<forall>i<unat st'. L' ! i = 0"
      using Suc.IH [of M "t div 58", OF _ _ M(2) st(3) Suc.prems(5) z _ Suc.prems(8) B] M j lt st(2) Suc.prems(2) by auto
    have nj: "L' ! j = M ! j" "drop (Suc j) L' = drop (Suc j) M"
      using ih(2,4) j M(1) by (simp_all add: Cons_nth_drop_Suc [symmetric])
    have "58 * (?A + unat t div 58) + unat t mod 58 = 58 * ?A + unat t"
      by (simp add: algebra_simps)
    then have "radix_value 58 (take (Suc j) L') = 256 * radix_value 58 (take (Suc j) L) + unat c"
      using ih(2,5) j M st nj(1) total by (simp add: take_Suc_value)
    then show ?thesis
      using e ih nj(2) M by auto
  qed
qed simp

lemma pow_256_58: "(256 :: nat) ^ k \<le> 58 ^ (k * 138 div 100 + 1)"
proof -
  have "((256 :: nat) ^ k) ^ 100 = (256 ^ 100) ^ k"
    by (simp only: power_mult [symmetric] mult.commute)
  also have "\<dots> \<le> (58 ^ 138) ^ k"
    by (intro power_mono) simp_all
  also have "\<dots> = 58 ^ (k * 138)"
    by (simp only: power_mult [symmetric] mult.commute)
  also have "\<dots> \<le> 58 ^ ((k * 138 div 100 + 1) * 100)"
    by (rule power_increasing) simp_all
  also have "\<dots> = (58 ^ (k * 138 div 100 + 1)) ^ 100"
    by (rule power_mult)
  finally show ?thesis
    by (subst (asm) power_mono_iff) simp_all
qed

text \<open>
  After \<open>k\<close> of \<open>n\<close> bytes the stop index is at least \<open>1.38 (n - k)\<close> away from the front, which
  keeps the subtraction \<open>stop_at - 1\<close> and the index \<open>j\<close> from wrapping around.
\<close>

lemma encode_outer_value:
  assumes "length L < 1000" "base58_ok L" "N = (k + length bs) * 138 div 100 + 1" "N \<le> length L"
    and "radix_value 58 (take N L) < 256 ^ k"
    and "N - 1 - k * 138 div 100 \<le> unat st" "\<forall>i<unat st. i < N \<longrightarrow> L ! i = 0"
  shows "length (encode_outer bs N L st) = length L \<and> base58_ok (encode_outer bs N L st) \<and>
    radix_value 58 (take N (encode_outer bs N L st)) = radix_value 58 (take N L) * 256 ^ length bs + radix_value 256 bs"
  using assms
proof (induction bs arbitrary: L st k)
  case (Cons b bs)
  let ?B = "N - 1 - Suc k * 138 div 100"
  have B: "Suc k * 138 div 100 \<le> N - 1" "?B < N - 1 - k * 138 div 100" "N - ?B = Suc k * 138 div 100 + 1" "?B < N"
    using Cons.prems(3) by auto
  have V: "256 * radix_value 58 (take N L) + unat b < 256 ^ Suc k"
    using Cons.prems(5) bytes_less_256 [of b] by (simp only: power_Suc)
  have b: "unat (ucast b :: u32) < 2 ^ 20" "unat (ucast b :: u32) = unat b"
    using bytes_less_256 [of b] by (auto simp: unsigned_ucast_eq take_bit_eq_mod simp del: bytes_less_256)
  have v: "256 * radix_value 58 (take N L) + unat (ucast b :: u32) < 58 ^ (N - ?B)"
    unfolding b(2) B(3) using V pow_256_58 [of "Suc k"] by (rule order.strict_trans2)
  have s: "0 < unat st" "?B < unat st" using B(2) Cons.prems(6) by linarith+
  obtain L' st' where i: "encode_inner N L (ucast b) st = (L', st')" "length L' = length L" "base58_ok L'"
    "radix_value 58 (take N L') = 256 * radix_value 58 (take N L) + unat b" "?B \<le> unat st'" "\<forall>i<unat st'. L' ! i = 0"
    using encode_inner_value [OF Cons.prems(4,1,2) b(1) s(1) Cons.prems(7) v s(2) B(4)] b(2) by auto
  from V show ?case
    using Cons.IH [of L' "Suc k" st'] i Cons.prems(1,3,4) by (simp add: algebra_simps)
qed simp

section \<open>The alphabet and the table\<close>

definition alphabet :: "u8 \<Rightarrow> u8" where
  "alphabet d = BASE58_ALPHABET ! unat d"

lemma alphabet_bytes:
  "BASE58_ALPHABET =
    [49, 50, 51, 52, 53, 54, 55, 56, 57, 65, 66, 67, 68, 69, 70, 71, 72, 74, 75, 76,
     77, 78, 80, 81, 82, 83, 84, 85, 86, 87, 88, 89, 90, 97, 98, 99, 100, 101, 102, 103,
     104, 105, 106, 107, 109, 110, 111, 112, 113, 114, 115, 116, 117, 118, 119, 120, 121, 122]"
  by (simp add: BASE58_ALPHABET_def str_def ch_def)

lemma alphabet_entries: "list_all2 (\<lambda>a d. 49 \<le> unat a \<and> unat a < 123 \<and> BASE58_TABLE_TRIMMED ! (unat a - 49) = of_nat d)
    BASE58_ALPHABET (0 # 1 # [2..<58])"
  by (simp add: alphabet_bytes BASE58_TABLE_TRIMMED_def)

lemma table_entries: "list_all2 (\<lambda>d n. d = 0xFF \<or> unat d < 58 \<and> unat (BASE58_ALPHABET ! unat d) = n)
    BASE58_TABLE_TRIMMED [49..<123]"
  by (simp add: alphabet_bytes BASE58_TABLE_TRIMMED_def)

lemma table_alphabet:
  assumes "unat d < 58"
  shows "49 \<le> unat (alphabet d) \<and> unat (alphabet d) < 123 \<and> BASE58_TABLE_TRIMMED ! (unat (alphabet d) - 49) = d"
proof -
  have "(0 # 1 # [2..<58]) ! unat d = unat d"
    using assms by (auto simp: nth_Cons nth_upt split: nat.splits simp del: upt_rec_numeral)
  then show ?thesis
    using list_all2_nthD [OF alphabet_entries, of "unat d"] assms by (simp add: alphabet_def alphabet_bytes)
qed

lemma alphabet_table:
  assumes "49 \<le> n" "n < 123" "BASE58_TABLE_TRIMMED ! (n - 49) \<noteq> 0xFF"
  shows "unat (BASE58_TABLE_TRIMMED ! (n - 49)) < 58 \<and> unat (alphabet (BASE58_TABLE_TRIMMED ! (n - 49))) = n"
  using list_all2_nthD [OF table_entries, of "n - 49"] assms list_all2_lengthD [OF table_entries]
  by (simp add: alphabet_def nth_upt del: upt_rec_numeral)

lemma table_length: "length BASE58_TABLE_TRIMMED = 74"
  by (simp add: BASE58_TABLE_TRIMMED_def)

lemma base58_digits_char:
  "uint c - 49 < 0 \<longleftrightarrow> unat (c :: u8) < 49"
  "int (length BASE58_TABLE_TRIMMED) \<le> uint c - 49 \<longleftrightarrow> 123 \<le> unat c"
  "nat (uint c - 49) = unat c - 49"
  unfolding table_length uint_nat by linarith+

lemma base58_digits_iff:
  "base58_digits cs = Some ds \<longleftrightarrow> base58_ok ds \<and> cs = map alphabet ds"
proof (induction cs arbitrary: ds)
  case (Cons c cs)
  let ?d = "BASE58_TABLE_TRIMMED ! (unat c - 49)"
  have "base58_digits (c # cs) = Some ds \<longleftrightarrow>
      (\<exists>es. ds = ?d # es \<and> base58_digits cs = Some es \<and> 49 \<le> unat c \<and> unat c < 123 \<and> ?d \<noteq> 0xFF)"
    unfolding base58_digits.simps Let_def base58_digits_char by (auto split: bind_splits if_splits)
  also have "\<dots> \<longleftrightarrow> (\<exists>es. ds = ?d # es \<and> base58_ok es \<and> cs = map alphabet es \<and> unat ?d < 58 \<and> c = alphabet ?d)"
    using Cons alphabet_table [of "unat c"] table_alphabet [of ?d] by (auto simp: word_unat_eq_iff)
  also have "\<dots> \<longleftrightarrow> base58_ok ds \<and> c # cs = map alphabet ds"
    using table_alphabet by (cases ds) auto
  finally show ?case .
qed auto

section \<open>The codec\<close>

lemma lead_zeros:
  assumes "no_lead ds"
  shows "length (takeWhile (\<lambda>d. d = 0) (replicate z 0 @ ds)) = z" "dropWhile (\<lambda>d. d = 0) (replicate z 0 @ ds) = ds"
proof -
  have "takeWhile (\<lambda>d. d = 0) ds = []" "dropWhile (\<lambda>d. d = 0) ds = ds"
    using assms by (cases ds; simp add: no_lead_def)+
  then show "length (takeWhile (\<lambda>d. d = 0) (replicate z 0 @ ds)) = z" "dropWhile (\<lambda>d. d = 0) (replicate z 0 @ ds) = ds"
    by (simp_all add: takeWhile_append dropWhile_append)
qed

lemma base58_decode_eq:
  assumes "base58_ok ds" "no_lead ds" "2 \<le> z + length ds" "z + length ds \<le> 164"
  shows "\<exists>bs. no_lead bs \<and> radix_value 256 bs = radix_value 58 ds \<and>
    base58_decode (map alphabet (replicate z 0 @ ds)) n = (if z + length bs \<le> n then Some (replicate z 0 @ bs) else None)"
proof -
  obtain w where w: "decode_loop (z + length ds) ds [] = Some w" "length w = length ds" "radix_value 256 w = radix_value 58 ds"
    using decode_loop_value [OF assms(1), of "z + length ds" "[]"] by auto
  define k where "k = length (takeWhile (\<lambda>d. d = 0) w)"
  define bs where "bs = dropWhile (\<lambda>d. d = 0) w"
  have kw: "w = replicate k 0 @ bs"
    unfolding k_def bs_def by (rule strip_zeros)
  have dig: "base58_digits (map alphabet (replicate z 0 @ ds)) = Some (replicate z 0 @ ds)"
    unfolding base58_digits_iff using assms(1) by (auto simp: base58_ok_def)
  have "replicate z 0 @ w = replicate k 0 @ replicate z 0 @ bs"
    unfolding kw append_assoc [symmetric] replicate_add [symmetric] by (simp add: add.commute)
  then have "drop k (replicate z 0 @ w) = replicate z 0 @ bs" "length w = k + length bs" "drop z (replicate z 0 @ ds) = ds"
    using arg_cong [OF kw, of length] by simp_all
  then have "base58_decode (map alphabet (replicate z 0 @ ds)) n = (if z + length bs \<le> n then Some (replicate z 0 @ bs) else None)"
    using w dig assms(3,4)
    by (simp add: base58_decode_def Let_def MAX_DEC_INPUT_SIZE_def lead_zeros [OF assms(2)] k_def [symmetric] del: drop_append)
  moreover have "no_lead bs" "radix_value 256 bs = radix_value 58 ds"
    using w(3) by (simp_all add: bs_def)
  ultimately show ?thesis by blast
qed

lemma base58_decode_Some:
  assumes "base58_decode e m = Some x"
  shows "\<exists>z ds. base58_ok ds \<and> no_lead ds \<and> e = map alphabet (replicate z 0 @ ds) \<and> 2 \<le> z + length ds \<and> z + length ds \<le> 164"
proof -
  obtain ds where ds: "base58_digits e = Some ds" "2 \<le> length e" "length e \<le> 164"
    using assms by (auto simp: base58_decode_def Let_def MAX_DEC_INPUT_SIZE_def split: bind_splits if_splits)
  define z where "z = length (takeWhile (\<lambda>d. d = 0) ds)"
  have s: "ds = replicate z 0 @ dropWhile (\<lambda>d. d = 0) ds"
    unfolding z_def by (rule strip_zeros)
  have "base58_ok (dropWhile (\<lambda>d. d = 0) ds)" "e = map alphabet ds"
    using ds(1) by (auto simp: base58_digits_iff base58_ok_def dest: set_dropWhileD)
  moreover have "length e = z + length (dropWhile (\<lambda>d. d = 0) ds)"
    using \<open>e = map alphabet ds\<close> arg_cong [OF s, of length] by simp
  ultimately show ?thesis
    using ds(2,3) s by (intro exI [of _ z] exI [of _ "dropWhile (\<lambda>d. d = 0) ds"]) simp
qed

lemma base58_encode_eq:
  assumes "no_lead bs" "z + length bs \<le> 120"
  shows "\<exists>ds. base58_ok ds \<and> no_lead ds \<and> radix_value 58 ds = radix_value 256 bs \<and>
    (\<forall>n. base58_encode (replicate z 0 @ bs) n = (if z + length ds \<le> n then Some (map alphabet (replicate z 0 @ ds)) else None))"
proof -
  define N where "N = length bs * 138 div 100 + 1"
  define L where "L = encode_outer bs N (replicate 166 0) (of_nat (N - 1))"
  have N: "N \<le> 166" "unat (of_nat (N - 1) :: size_t) = N - 1"
    using assms(2) by (auto simp: N_def unat_of_nat)
  have L: "length L = 166" "base58_ok L" "radix_value 58 (take N L) = radix_value 256 bs"
    using encode_outer_value [of "replicate 166 0" N 0 bs "of_nat (N - 1)"] N
    by (simp_all add: L_def base58_ok_def N_def)
  define ds where "ds = dropWhile (\<lambda>d. d = 0) (take N L)"
  have ds: "base58_ok ds" "no_lead ds" "radix_value 58 ds = radix_value 256 bs"
    using L by (auto simp: ds_def base58_ok_def dest!: set_dropWhileD in_set_takeD)
  have len: "length ds = N - length (takeWhile (\<lambda>d. d = 0) (take N L))"
    using L(1) N(1) by (simp add: ds_def dropWhile_eq_drop)
  have "length (takeWhile (\<lambda>d. d = 0) (take N L)) \<le> N"
    using length_takeWhile_le [of "\<lambda>d. d = 0" "take N L"] by simp
  moreover have "length (replicate z 0 @ bs) = z + length bs" "drop z (replicate z 0 @ bs) = bs"
    "(z + length bs - z) * 138 div 100 + 1 = N" "MAX_ENC_INPUT_SIZE * 138 div 100 + 1 = 166"
    by (simp_all add: N_def MAX_ENC_INPUT_SIZE_def)
  note e = this lead_zeros(1) [OF assms(1)]
  ultimately have "base58_encode (replicate z 0 @ bs) n = (if z + length ds \<le> n then Some (map alphabet (replicate z 0 @ ds)) else None)" for n
    unfolding base58_encode_def Let_def e L_def [symmetric] using assms(2) len
    by (simp add: MAX_ENC_INPUT_SIZE_def ds_def dropWhile_eq_drop alphabet_def)
  then show ?thesis using ds by blast
qed

lemma digits_fit:
  assumes "no_lead ds" "z + length bs \<le> 120" "radix_value 58 ds = radix_value 256 bs"
  shows "z + length ds \<le> 164"
proof (cases "ds = []")
  case False
  let ?k = "length bs"
  have "256 ^ ?k * 58 ^ (120 - ?k) \<le> (256 :: nat) ^ ?k * 256 ^ (120 - ?k)"
    by (intro mult_left_mono power_mono) simp_all
  also have "\<dots> = 256 ^ 120"
    using assms(2) by (simp only: power_add [symmetric]) simp
  also have "\<dots> \<le> 58 ^ (44 + ?k) * 58 ^ (120 - ?k)"
    using assms(2) by (simp only: power_add [symmetric]) simp
  finally have "(256 :: nat) ^ ?k \<le> 58 ^ (44 + ?k)"
    by simp
  moreover have "radix_value 256 bs < 256 ^ ?k"
    by (rule radix_value_less) simp
  ultimately have "(58 :: nat) ^ (length ds - 1) < 58 ^ (44 + ?k)"
    using radix_value_lead [OF assms(1) False, of 58] assms(3) by linarith
  then have "length ds - 1 < 44 + ?k"
    by (simp only: power_strict_increasing_iff)
  then show ?thesis using assms(2) by simp
qed (use assms in simp)

lemma base58_inverse:
  assumes "length x \<le> 120" "length x \<le> m" "2 \<le> length e" "length e \<le> n"
  shows "(\<exists>s. base58_encode x 164 = Some s) \<and> (base58_encode x n = Some e \<longleftrightarrow> base58_decode e m = Some x)"
proof -
  define z where "z = length (takeWhile (\<lambda>d. d = 0) x)"
  define bs where "bs = dropWhile (\<lambda>d. d = 0) x"
  have x1: "x = replicate z 0 @ bs"
    unfolding z_def bs_def by (rule strip_zeros)
  have "no_lead bs" "z + length bs \<le> 120"
    using assms(1) arg_cong [OF x1, of length] by (simp_all add: bs_def)
  note x = x1 this
  obtain ds where ds: "base58_ok ds" "no_lead ds" "radix_value 58 ds = radix_value 256 bs"
    and enc: "\<And>n. base58_encode x n = (if z + length ds \<le> n then Some (map alphabet (replicate z 0 @ ds)) else None)"
    using base58_encode_eq [OF x(2,3)] x(1) by auto
  note fit = digits_fit [OF ds(2) x(3) ds(3)]
  have "base58_decode e m = Some x" if "base58_encode x n = Some e"
  proof -
    have e: "e = map alphabet (replicate z 0 @ ds)"
      using that enc [of n] by (simp split: if_splits)
    obtain cs where "no_lead cs" "radix_value 256 cs = radix_value 58 ds"
      "base58_decode e m = (if z + length cs \<le> m then Some (replicate z 0 @ cs) else None)"
      using base58_decode_eq [OF ds(1,2) _ fit, of m] assms(3) e by auto
    moreover have "cs = bs"
      using calculation x(2) ds(3) by (intro radix_value_inject [of _ _ 256]) simp_all
    ultimately show ?thesis using x(1) assms(2) by simp
  qed
  moreover have "base58_encode x n = Some e" if d: "base58_decode e m = Some x"
  proof -
    obtain y es where e: "base58_ok es" "no_lead es" "e = map alphabet (replicate y 0 @ es)" "2 \<le> y + length es" "y + length es \<le> 164"
      using base58_decode_Some [OF d] by blast
    obtain cs where c: "no_lead cs" "radix_value 256 cs = radix_value 58 es" "x = replicate y 0 @ cs"
      using base58_decode_eq [OF e(1,2,4,5), of m] d e(3) by (auto split: if_splits)
    then have "y = z" "cs = bs"
      unfolding z_def bs_def by (simp_all add: lead_zeros)
    then have "es = ds"
      using c(2) e ds by (intro radix_value_inject [of _ _ 58]) (simp_all add: base58_ok_def)
    then show ?thesis using e(3) enc [of n] \<open>y = z\<close> assms(4) by simp
  qed
  ultimately show ?thesis using enc fit by auto
qed

text \<open>C16: Encoding a byte string of at most 120 bytes always succeeds when 164 characters of room are given,
  and decoding and encoding are inverse to each other: the encoder turns the bytes \<open>x\<close> into the string \<open>e\<close>
  exactly when the decoder turns \<open>e\<close> back into \<open>x\<close>, for every \<open>e\<close> of at least two characters, which is the
  least the decoder accepts.\<close>
theorem base58_encode_decode:
  assumes "length x \<le> 120" "length x \<le> m" "2 \<le> length e" "length e \<le> n"
  shows "(\<exists>s. base58_encode x 164 = Some s) \<and> (base58_encode x n = Some e \<longleftrightarrow> base58_decode e m = Some x)"
  using assms by (rule base58_inverse)

theorem base58_encode_decode_witness:
  "base58_encode [0, 1, 2] 10 = Some [49, 53, 84] \<and> base58_decode [49, 53, 84] 10 = Some [0, 1, 2]"
proof -
  have digits: "base58_digits [49, 53, 84] = Some [0, 4, 26]"
    by (simp add: BASE58_TABLE_TRIMMED_def)
  have loop: "decode_loop 3 [4, 26] [] = Some [1, 2]"
    by (simp add: numeral_3_eq_3 Let_def)
  have h: "base58_decode [49, 53, 84] 10 = Some [0, 1, 2]"
    by (simp add: base58_decode_def MAX_DEC_INPUT_SIZE_def Let_def digits loop [unfolded numeral_3_eq_3] del: base58_digits.simps decode_loop.simps)
  show ?thesis
    using base58_encode_decode [of "[0, 1, 2]" 10 "[49, 53, 84]" 10] h by simp
qed

end
