(* ===== verification/Buffer.thy ===== *)
theory Buffer
  imports Bytes "HOL-Library.Sublist"
begin

text \<open>
  The cursor over a byte array that every parser of the application reads from
  (\<open>src/common/buffer.c\<close>, \<open>src/common/buffer.h\<close>). \<open>size\<close> and \<open>offset\<close> keep their 32-bit width,
  since the code guards against their wrap-around. The pointer is the address of the array and
  the memory that starts there, which may be longer than \<open>size\<close>.
\<close>

section \<open>State and operations\<close>

datatype endianness_t = BE | LE

record buffer_t =
  buf_addr :: u32
  buf_ptr :: bytes
  buf_size :: size_t
  buf_offset :: size_t

definition buffer_create :: "u32 \<Rightarrow> bytes \<Rightarrow> size_t \<Rightarrow> buffer_t" where
  "buffer_create addr ptr sz =
     \<lparr>buf_addr = addr, buf_ptr = ptr, buf_size = sz, buf_offset = 0\<rparr>"

definition buffer_can_read :: "buffer_t \<Rightarrow> size_t \<Rightarrow> bool" where
  "buffer_can_read buffer n \<longleftrightarrow> buf_size buffer - buf_offset buffer \<ge> n"

definition buffer_seek_set :: "buffer_t \<Rightarrow> size_t \<Rightarrow> bool \<times> buffer_t" where
  "buffer_seek_set buffer offset =
     (if offset > buf_size buffer then (False, buffer)
      else (True, buffer\<lparr>buf_offset := offset\<rparr>))"

definition buffer_seek_cur :: "buffer_t \<Rightarrow> size_t \<Rightarrow> bool \<times> buffer_t" where
  "buffer_seek_cur buffer offset =
     (if buf_offset buffer + offset < buf_offset buffer \<or>
         buf_offset buffer + offset > buf_size buffer
      then (False, buffer)
      else (True, buffer\<lparr>buf_offset := buf_offset buffer + offset\<rparr>))"

definition buffer_seek_end :: "buffer_t \<Rightarrow> size_t \<Rightarrow> bool \<times> buffer_t" where
  "buffer_seek_end buffer offset =
     (if offset > buf_size buffer then (False, buffer)
      else (True, buffer\<lparr>buf_offset := buf_size buffer - offset\<rparr>))"

definition buffer_read_u8 :: "buffer_t \<Rightarrow> bool \<times> u8 \<times> buffer_t" where
  "buffer_read_u8 buffer =
     (if \<not> buffer_can_read buffer 1 then (False, 0, buffer)
      else (True, buf_ptr buffer ! unat (buf_offset buffer), snd (buffer_seek_cur buffer 1)))"

text \<open>\<open>None\<close> is the return value false, which leaves the output untouched.\<close>

definition buffer_peek_n :: "buffer_t \<Rightarrow> size_t \<Rightarrow> u8 option" where
  "buffer_peek_n buffer n =
     (if \<not> buffer_can_read buffer (n + 1) then None
      else Some (buf_ptr buffer ! unat (buf_offset buffer + n)))"

definition buffer_peek :: "buffer_t \<Rightarrow> u8 option" where
  "buffer_peek buffer = buffer_peek_n buffer 0"

definition buffer_read_u16 :: "buffer_t \<Rightarrow> endianness_t \<Rightarrow> bool \<times> u16 \<times> buffer_t" where
  "buffer_read_u16 buffer endianness =
     (if \<not> buffer_can_read buffer 2 then (False, 0, buffer)
      else (True,
            (if endianness = BE then read_u16_be (buf_ptr buffer) (unat (buf_offset buffer))
             else read_u16_le (buf_ptr buffer) (unat (buf_offset buffer))),
            snd (buffer_seek_cur buffer 2)))"

definition buffer_read_u32 :: "buffer_t \<Rightarrow> endianness_t \<Rightarrow> bool \<times> u32 \<times> buffer_t" where
  "buffer_read_u32 buffer endianness =
     (if \<not> buffer_can_read buffer 4 then (False, 0, buffer)
      else (True,
            (if endianness = BE then read_u32_be (buf_ptr buffer) (unat (buf_offset buffer))
             else read_u32_le (buf_ptr buffer) (unat (buf_offset buffer))),
            snd (buffer_seek_cur buffer 4)))"

definition buffer_read_u64 :: "buffer_t \<Rightarrow> endianness_t \<Rightarrow> bool \<times> u64 \<times> buffer_t" where
  "buffer_read_u64 buffer endianness =
     (if \<not> buffer_can_read buffer 8 then (False, 0, buffer)
      else (True,
            (if endianness = BE then read_u64_be (buf_ptr buffer) (unat (buf_offset buffer))
             else read_u64_le (buf_ptr buffer) (unat (buf_offset buffer))),
            snd (buffer_seek_cur buffer 8)))"

definition buffer_read_varint :: "buffer_t \<Rightarrow> bool \<times> u64 \<times> buffer_t" where
  "buffer_read_varint buffer =
     (case varint_read (drop (unat (buf_offset buffer)) (buf_ptr buffer))
             (unat (buf_size buffer - buf_offset buffer)) of
        None \<Rightarrow> (False, 0, buffer)
      | Some (len, v) \<Rightarrow> (True, v, snd (buffer_seek_cur buffer (of_nat len))))"

definition buffer_read_bytes :: "buffer_t \<Rightarrow> size_t \<Rightarrow> (bytes \<times> buffer_t) option" where
  "buffer_read_bytes buffer n =
     (if buf_size buffer - buf_offset buffer < n then None
      else Some (take (unat n) (drop (unat (buf_offset buffer)) (buf_ptr buffer)),
                 snd (buffer_seek_cur buffer n)))"

definition buffer_write_u8 :: "buffer_t \<Rightarrow> u8 \<Rightarrow> bool \<times> buffer_t" where
  "buffer_write_u8 buffer v =
     (if \<not> buffer_can_read buffer 1 then (False, buffer)
      else (True, snd (buffer_seek_cur
             (buffer\<lparr>buf_ptr := (buf_ptr buffer)[unat (buf_offset buffer) := v]\<rparr>) 1)))"

definition buffer_write_u16 :: "buffer_t \<Rightarrow> u16 \<Rightarrow> endianness_t \<Rightarrow> bool \<times> buffer_t" where
  "buffer_write_u16 buffer v endianness =
     (if \<not> buffer_can_read buffer 2 then (False, buffer)
      else (True, snd (buffer_seek_cur (buffer\<lparr>buf_ptr :=
             (if endianness = BE then write_u16_be (buf_ptr buffer) (unat (buf_offset buffer)) v
              else write_u16_le (buf_ptr buffer) (unat (buf_offset buffer)) v)\<rparr>) 2)))"

definition buffer_write_u32 :: "buffer_t \<Rightarrow> u32 \<Rightarrow> endianness_t \<Rightarrow> bool \<times> buffer_t" where
  "buffer_write_u32 buffer v endianness =
     (if \<not> buffer_can_read buffer 4 then (False, buffer)
      else (True, snd (buffer_seek_cur (buffer\<lparr>buf_ptr :=
             (if endianness = BE then write_u32_be (buf_ptr buffer) (unat (buf_offset buffer)) v
              else write_u32_le (buf_ptr buffer) (unat (buf_offset buffer)) v)\<rparr>) 4)))"

definition buffer_write_u64 :: "buffer_t \<Rightarrow> u64 \<Rightarrow> endianness_t \<Rightarrow> bool \<times> buffer_t" where
  "buffer_write_u64 buffer v endianness =
     (if \<not> buffer_can_read buffer 8 then (False, buffer)
      else (True, snd (buffer_seek_cur (buffer\<lparr>buf_ptr :=
             (if endianness = BE then write_u64_be (buf_ptr buffer) (unat (buf_offset buffer)) v
              else write_u64_le (buf_ptr buffer) (unat (buf_offset buffer)) v)\<rparr>) 8)))"

text \<open>\<open>memmove\<close> into an array: the bytes \<open>data\<close> over the ones at \<open>at\<close>.\<close>

definition splice :: "bytes \<Rightarrow> nat \<Rightarrow> bytes \<Rightarrow> bytes" where
  "splice p at data = take at p @ data @ drop (at + length data) p"

definition buffer_write_bytes :: "buffer_t \<Rightarrow> bytes \<Rightarrow> size_t \<Rightarrow> bool \<times> buffer_t" where
  "buffer_write_bytes buffer data n =
     (if \<not> buffer_can_read buffer n then (False, buffer)
      else (True, snd (buffer_seek_cur (buffer\<lparr>buf_ptr :=
             splice (buf_ptr buffer) (unat (buf_offset buffer)) (take (unat n) data)\<rparr>) n)))"

text \<open>The result is the offset of the allocated memory from \<open>ptr\<close>; \<open>None\<close> is NULL.\<close>

definition buffer_alloc :: "buffer_t \<Rightarrow> size_t \<Rightarrow> bool \<Rightarrow> size_t option \<times> buffer_t" where
  "buffer_alloc buffer sz aligned =
     (let d = (buf_addr buffer + buf_offset buffer) mod 4;
          padding_size = (if aligned \<and> d \<noteq> 0 then 4 - d else 0)
      in if \<not> buffer_can_read buffer (padding_size + sz) then (None, buffer)
         else (Some (buf_offset buffer + padding_size),
               snd (buffer_seek_cur buffer (padding_size + sz))))"

definition buffer_is_cur_aligned :: "buffer_t \<Rightarrow> bool" where
  "buffer_is_cur_aligned buffer \<longleftrightarrow> (buf_addr buffer + buf_offset buffer) mod 4 = 0"

definition buffer_snapshot :: "buffer_t \<Rightarrow> size_t" where
  "buffer_snapshot buffer = buf_offset buffer"

definition buffer_restore :: "buffer_t \<Rightarrow> size_t \<Rightarrow> buffer_t" where
  "buffer_restore buffer snapshot = buffer\<lparr>buf_offset := snapshot\<rparr>"

section \<open>Invariant and abstraction\<close>

text \<open>
  A well-formed buffer: the cursor lies within the size and the size within the memory. Its
  abstract value is the list of bytes still to be read.
\<close>

definition buf_ok :: "buffer_t \<Rightarrow> bool" where
  "buf_ok b \<longleftrightarrow> buf_offset b \<le> buf_size b \<and> unat (buf_size b) \<le> length (buf_ptr b)"

definition buf_rest :: "buffer_t \<Rightarrow> bytes" where
  "buf_rest b = take (unat (buf_size b) - unat (buf_offset b)) (drop (unat (buf_offset b)) (buf_ptr b))"

section \<open>Behaviour on a well-formed buffer\<close>

lemma buf_rest_length:
  "buf_ok b \<Longrightarrow> length (buf_rest b) = unat (buf_size b) - unat (buf_offset b)"
  by (auto simp: buf_ok_def buf_rest_def word_le_nat_alt)

lemma buf_left [simp]:
  "buf_ok b \<Longrightarrow> unat (buf_size b - buf_offset b) = length (buf_rest b)"
  by (simp add: buf_rest_length) (simp add: buf_ok_def unat_sub_le)

lemma buffer_can_read_iff [buf_simps]:
  "buf_ok b \<Longrightarrow> buffer_can_read b n \<longleftrightarrow> unat n \<le> length (buf_rest b)"
  by (simp add: buffer_can_read_def word_le_nat_alt)

lemma buf_rest_nth:
  "buf_ok b \<Longrightarrow> i < length (buf_rest b) \<Longrightarrow> buf_ptr b ! (unat (buf_offset b) + i) = buf_rest b ! i"
  by (simp add: buf_rest_def buf_ok_def word_le_nat_alt)

text \<open>Moving the cursor forward.\<close>

definition buf_adv :: "buffer_t \<Rightarrow> size_t \<Rightarrow> buffer_t" where
  "buf_adv b n = b\<lparr>buf_offset := buf_offset b + n\<rparr>"

lemma buf_adv_fields [simp]:
  "buf_ptr (buf_adv b n) = buf_ptr b" "buf_size (buf_adv b n) = buf_size b"
  "buf_addr (buf_adv b n) = buf_addr b" "buf_offset (buf_adv b n) = buf_offset b + n"
  by (simp_all add: buf_adv_def)

lemma buf_adv_offset:
  assumes "buf_ok b" and "unat n \<le> length (buf_rest b)"
  shows "unat (buf_offset b + n) = unat (buf_offset b) + unat n"
proof (rule unat_add_no_wrap)
  have "unat (buf_offset b) + unat n \<le> unat (buf_size b)"
    using assms by (auto simp: buf_rest_length buf_ok_def word_le_nat_alt)
  then show "unat (buf_offset b) + unat n < 4294967296"
    using unat_size_t_less [of "buf_size b"] by linarith
qed

lemma buf_adv_ok [simp]:
  "buf_ok b \<Longrightarrow> unat n \<le> length (buf_rest b) \<Longrightarrow> buf_ok (buf_adv b n)"
  using buf_adv_offset [of b n] buf_rest_length [of b] by (auto simp: buf_ok_def word_le_nat_alt)

lemma buf_adv_rest [simp]:
  "buf_ok b \<Longrightarrow> unat n \<le> length (buf_rest b) \<Longrightarrow> buf_rest (buf_adv b n) = drop (unat n) (buf_rest b)"
  using buf_adv_offset [of b n] by (simp add: buf_rest_def drop_take add.commute)

lemma buffer_seek_cur_eq [buf_simps]:
  assumes "buf_ok b"
  shows "buffer_seek_cur b n = (if unat n \<le> length (buf_rest b) then (True, buf_adv b n) else (False, b))"
proof (cases "unat n \<le> length (buf_rest b)")
  case True
  then have "\<not> buf_offset b + n < buf_offset b" "\<not> buf_offset b + n > buf_size b"
    using assms buf_adv_offset [OF assms True] buf_rest_length [OF assms]
    by (auto simp: word_less_nat_alt buf_ok_def word_le_nat_alt)
  with True show ?thesis by (simp add: buffer_seek_cur_def buf_adv_def)
next
  case False
  then have "buf_offset b + n < buf_offset b \<or> buf_offset b + n > buf_size b"
    using assms unat_plus_if_size [of "buf_offset b" n] unat_size_t_less [of n]
      unat_size_t_less [of "buf_offset b"] buf_rest_length [OF assms]
    unfolding word_less_nat_alt buf_ok_def word_le_nat_alt
    by (simp add: word_size split: if_splits; linarith)
  with False show ?thesis by (auto simp: buffer_seek_cur_def)
qed

lemma buffer_read_u8_eq [buf_simps]:
  assumes "buf_ok b"
  shows "buffer_read_u8 b = (case buf_rest b of [] \<Rightarrow> (False, 0, b) | c # _ \<Rightarrow> (True, c, buf_adv b 1))"
  using assms buf_rest_nth [of b 0]
  by (cases "buf_rest b") (simp_all add: buffer_read_u8_def buf_simps)

lemma buffer_peek_n_eq [buf_simps]:
  assumes "buf_ok b" and "unat n + 1 < 4294967296"
  shows "buffer_peek_n b n = (if unat n < length (buf_rest b) then Some (buf_rest b ! unat n) else None)"
proof -
  have n1: "unat (n + 1) = unat n + 1"
    using assms(2) by (simp add: unat_add_no_wrap)
  show ?thesis
    using assms(1) buf_rest_nth [OF assms(1), of "unat n"] buf_adv_offset [OF assms(1), of n]
    by (auto simp: buffer_peek_n_def buf_simps n1)
qed

lemma buffer_peek_eq [buf_simps]:
  "buf_ok b \<Longrightarrow> buffer_peek b = (case buf_rest b of [] \<Rightarrow> None | c # _ \<Rightarrow> Some c)"
  by (auto simp: buffer_peek_def buf_simps split: list.splits)

lemma buffer_read_bytes_eq [buf_simps]:
  assumes "buf_ok b"
  shows "buffer_read_bytes b n =
     (if unat n \<le> length (buf_rest b) then Some (take (unat n) (buf_rest b), buf_adv b n) else None)"
proof -
  have "take (unat n) (drop (unat (buf_offset b)) (buf_ptr b)) = take (unat n) (buf_rest b)"
    if "unat n \<le> length (buf_rest b)"
    using that by (simp add: buf_rest_def)
  then show ?thesis
    using assms by (auto simp: buffer_read_bytes_def buf_simps word_less_nat_alt)
qed


lemma buffer_read_u16_eq [buf_simps]:
  assumes "buf_ok b"
  shows "buffer_read_u16 b e =
     (if 2 \<le> length (buf_rest b)
      then (True, (if e = BE then read_u16_be (buf_rest b) 0 else read_u16_le (buf_rest b) 0), buf_adv b 2)
      else (False, 0, b))"
proof -
  have "read_u16_be (buf_ptr b) (unat (buf_offset b)) = read_u16_be (buf_rest b) 0"
    "read_u16_le (buf_ptr b) (unat (buf_offset b)) = read_u16_le (buf_rest b) 0" if "2 \<le> length (buf_rest b)"
    using that assms by (auto intro!: read_local2 simp: buf_rest_def buf_ok_def word_le_nat_alt)
  then show ?thesis
    using assms by (auto simp: buffer_read_u16_def buf_simps)
qed

lemma buffer_read_u32_eq [buf_simps]:
  assumes "buf_ok b"
  shows "buffer_read_u32 b e =
     (if 4 \<le> length (buf_rest b)
      then (True, (if e = BE then read_u32_be (buf_rest b) 0 else read_u32_le (buf_rest b) 0), buf_adv b 4)
      else (False, 0, b))"
proof -
  have "read_u32_be (buf_ptr b) (unat (buf_offset b)) = read_u32_be (buf_rest b) 0"
    "read_u32_le (buf_ptr b) (unat (buf_offset b)) = read_u32_le (buf_rest b) 0" if "4 \<le> length (buf_rest b)"
    using that assms by (auto intro!: read_local4 simp: buf_rest_def buf_ok_def word_le_nat_alt)
  then show ?thesis
    using assms by (auto simp: buffer_read_u32_def buf_simps)
qed

lemma buffer_read_u64_eq [buf_simps]:
  assumes "buf_ok b"
  shows "buffer_read_u64 b e =
     (if 8 \<le> length (buf_rest b)
      then (True, (if e = BE then read_u64_be (buf_rest b) 0 else read_u64_le (buf_rest b) 0), buf_adv b 8)
      else (False, 0, b))"
proof -
  have "read_u64_be (buf_ptr b) (unat (buf_offset b)) = read_u64_be (buf_rest b) 0"
    "read_u64_le (buf_ptr b) (unat (buf_offset b)) = read_u64_le (buf_rest b) 0" if "8 \<le> length (buf_rest b)"
    using that assms by (auto intro!: read_local8 simp: buf_rest_def buf_ok_def word_le_nat_alt)
  then show ?thesis
    using assms by (auto simp: buffer_read_u64_def buf_simps)
qed

lemma varint_read_cong:
  assumes "n \<le> length p" and "n \<le> length q" and "take n p = take n q"
  shows "varint_read p n = varint_read q n"
proof -
  have eq: "take w (drop 1 p) = take w (drop 1 q)" if "w + 1 \<le> n" for w
  proof -
    have "take (w + 1) (take n p) = take (w + 1) (take n q)" using assms(3) by simp
    with that show ?thesis by (simp add: take_drop)
  qed
  have r16: "read_u16_le p 1 = read_u16_le q 1" if "\<not> n < 3"
    using that assms(1,2) eq [of 2] by (intro u16le.rd_eq) simp_all
  have r32: "read_u32_le p 1 = read_u32_le q 1" if "\<not> n < 5"
    using that assms(1,2) eq [of 4] by (intro u32le.rd_eq) simp_all
  have r64: "read_u64_le p 1 = read_u64_le q 1" if "\<not> n < 9"
    using that assms(1,2) eq [of 8] by (intro u64le.rd_eq) simp_all
  show ?thesis
  proof (cases "n < 1")
    case True
    then show ?thesis by (simp add: varint_read_def)
  next
    case False
    then have "p ! 0 = q ! 0" using assms(3) by (metis not_less_eq nth_take One_nat_def less_Suc0)
    then show ?thesis by (simp add: varint_read_def Let_def r16 [simplified] r32 [simplified] r64 [simplified])
  qed
qed

lemma varint_read_bound:
  assumes "varint_read p n = Some (len, v)"
  shows "1 \<le> len" and "len \<le> n" and "len \<le> 9"
  using assms by (auto simp: varint_read_def Let_def split: if_splits)

lemma buffer_read_varint_eq [buf_simps]:
  assumes "buf_ok b"
  shows "buffer_read_varint b =
     (case varint_read (buf_rest b) (length (buf_rest b)) of
        None \<Rightarrow> (False, 0, b)
      | Some (len, v) \<Rightarrow> (True, v, buf_adv b (of_nat len)))"
proof -
  have same: "varint_read (drop (unat (buf_offset b)) (buf_ptr b)) (length (buf_rest b)) =
        varint_read (buf_rest b) (length (buf_rest b))"
    by (rule varint_read_cong) (auto simp: buf_rest_def)
  have "unat (of_nat len :: size_t) = len \<and> len \<le> length (buf_rest b)"
    if "varint_read (buf_rest b) (length (buf_rest b)) = Some (len, v)" for len v
    using varint_read_bound [OF that] by (simp add: unat_of_nat_size_t)
  then show ?thesis
    using assms by (auto simp: buffer_read_varint_def buf_simps same split: option.splits)
qed

text \<open>Writing: the cursor moves past the bytes written, the memory changes only there.\<close>

definition buf_put :: "buffer_t \<Rightarrow> bytes \<Rightarrow> buffer_t" where
  "buf_put b d = buf_adv (b\<lparr>buf_ptr := splice (buf_ptr b) (unat (buf_offset b)) d\<rparr>) (of_nat (length d))"

lemma splice_length: "at + length d \<le> length p \<Longrightarrow> length (splice p at d) = length p"
  by (simp add: splice_def)

lemma buf_room:
  "buf_ok b \<Longrightarrow> n \<le> length (buf_rest b) \<Longrightarrow> unat (buf_offset b) + n \<le> length (buf_ptr b)"
  by (auto simp: buf_rest_length buf_ok_def word_le_nat_alt)

lemma buf_rest_size_t: "buf_ok b \<Longrightarrow> length (buf_rest b) < 4294967296"
  using unat_size_t_less [of "buf_size b"] by (simp add: buf_rest_length less_imp_diff_less)

lemma buf_memory_ok:
  assumes "buf_ok b" and "length p = length (buf_ptr b)"
  shows "buf_ok (b\<lparr>buf_ptr := p\<rparr>)" and "length (buf_rest (b\<lparr>buf_ptr := p\<rparr>)) = length (buf_rest b)"
  using assms by (simp_all add: buf_ok_def buf_rest_def)

lemma buf_put_ok:
  assumes "buf_ok b" and "length d \<le> length (buf_rest b)"
  shows "buf_ok (buf_put b d)"
    and "snd (buffer_seek_cur (b\<lparr>buf_ptr := splice (buf_ptr b) (unat (buf_offset b)) d\<rparr>) (of_nat (length d))) = buf_put b d"
proof -
  have "length (splice (buf_ptr b) (unat (buf_offset b)) d) = length (buf_ptr b)"
    using assms by (simp add: splice_length buf_room)
  note mem = buf_memory_ok [OF assms(1) this]
  moreover have "unat (of_nat (length d) :: size_t) = length d"
    using assms buf_rest_size_t [of b] by (simp add: unat_of_nat_size_t)
  ultimately show "buf_ok (buf_put b d)"
    and "snd (buffer_seek_cur (b\<lparr>buf_ptr := splice (buf_ptr b) (unat (buf_offset b)) d\<rparr>) (of_nat (length d))) = buf_put b d"
    using assms by (simp_all add: buf_put_def buf_simps)
qed

lemma buf_put_restore:
  assumes "buf_ok b" and "length d \<le> length (buf_rest b)"
  shows "buf_ok (buffer_restore (buf_put b d) (buffer_snapshot b))"
    and "buf_rest (buffer_restore (buf_put b d) (buffer_snapshot b)) = d @ drop (length d) (buf_rest b)"
proof -
  have len: "length (splice (buf_ptr b) (unat (buf_offset b)) d) = length (buf_ptr b)"
    using assms by (simp add: splice_length buf_room)
  show "buf_ok (buffer_restore (buf_put b d) (buffer_snapshot b))"
    using assms len by (simp add: buf_put_def buf_adv_def buffer_restore_def buffer_snapshot_def buf_ok_def)
  show "buf_rest (buffer_restore (buf_put b d) (buffer_snapshot b)) = d @ drop (length d) (buf_rest b)"
    using assms buf_room [OF assms(1) order.refl] buf_room [OF assms]
    by (simp add: buf_put_def buf_adv_def buffer_restore_def buffer_snapshot_def buf_rest_def splice_def
        drop_take add.commute)
qed

lemma buffer_write_bytes_eq [buf_simps]:
  assumes "buf_ok b" and "unat n = length d"
  shows "buffer_write_bytes b d n =
     (if length d \<le> length (buf_rest b) then (True, buf_put b d) else (False, b))"
proof -
  have "n = of_nat (length d)" using assms(2) unat_size_t_less [of n] by (simp add: word_unat_eq_iff unat_of_nat_size_t)
  then show ?thesis
    using assms buf_put_ok(2) [of b d] by (simp add: buffer_write_bytes_def buf_simps)
qed

lemma buffer_write_int_eq [buf_simps]:
  assumes "buf_ok b"
  shows "buffer_write_u8 b v8 =
     (if 1 \<le> length (buf_rest b) then (True, buf_put b [v8]) else (False, b))"
    and "buffer_write_u16 b v16 e =
     (if 2 \<le> length (buf_rest b)
      then (True, buf_put b (if e = BE then enc_u16_be v16 else enc_u16_le v16)) else (False, b))"
    and "buffer_write_u32 b v32 e =
     (if 4 \<le> length (buf_rest b)
      then (True, buf_put b (if e = BE then enc_u32_be v32 else enc_u32_le v32)) else (False, b))"
    and "buffer_write_u64 b v64 e =
     (if 8 \<le> length (buf_rest b)
      then (True, buf_put b (if e = BE then enc_u64_be v64 else enc_u64_le v64)) else (False, b))"
  using assms buf_room [of b 2] buf_room [of b 4] buf_room [of b 8] buf_room [of b 1]
    buf_put_ok(2) [OF assms, of "[v8]"]
    buf_put_ok(2) [OF assms, of "enc_u16_be v16"] buf_put_ok(2) [OF assms, of "enc_u16_le v16"]
    buf_put_ok(2) [OF assms, of "enc_u32_be v32"] buf_put_ok(2) [OF assms, of "enc_u32_le v32"]
    buf_put_ok(2) [OF assms, of "enc_u64_be v64"] buf_put_ok(2) [OF assms, of "enc_u64_le v64"]
  by (auto simp: buffer_write_u8_def buffer_write_u16_def buffer_write_u32_def buffer_write_u64_def
      buffer_can_read_iff bytes_simps splice_def upd_conv_take_nth_drop)


lemma buffer_restore_adv [simp]: "buffer_restore (buf_adv b n) (buffer_snapshot c) = buffer_restore b (buffer_snapshot c)"
  by (simp add: buffer_restore_def buffer_snapshot_def buf_adv_def)

lemma align_up:
  fixes x :: size_t
  shows "(x + (4 - x mod 4)) mod 4 = 0"
proof -
  have "unat x mod 4 < 4" by simp
  then have "(unat x + (4 - unat x mod 4)) mod 4 = 0" by presburger
  moreover have "unat (4 - x mod 4) = 4 - unat x mod 4"
    by (simp add: unat_sub_le unat_mod_distrib word_le_nat_alt)
  ultimately have "unat (x + (4 - x mod 4)) mod 4 = 0"
    by (simp add: unat_word_ariths(1) mod_mod_cancel)
  then show ?thesis by (simp add: word_unat_eq_iff unat_mod_distrib)
qed

text \<open>
  What a client may assume of a source of bytes, whatever holds them: whether \<open>n\<close> bytes can be
  read depends on the bytes left only, a read takes exactly those bytes off, and a failing read
  gives nothing. A client that reads through this interface may split or join its reads.
\<close>

locale byte_reader =
  fixes ok :: "'b \<Rightarrow> bool"
    and left :: "'b \<Rightarrow> bytes"
    and can :: "'b \<Rightarrow> size_t \<Rightarrow> bool"
    and rd :: "'b \<Rightarrow> size_t \<Rightarrow> (bytes \<times> 'b) option"
  assumes can_iff: "ok b \<Longrightarrow> can b n \<longleftrightarrow> unat n \<le> length (left b)"
    and rd_None: "ok b \<Longrightarrow> rd b n = None \<longleftrightarrow> length (left b) < unat n"
    and rd_Some: "ok b \<Longrightarrow> rd b n = Some (d, b') \<Longrightarrow>
       ok b' \<and> left b = d @ left b' \<and> length d = unat n"
begin

lemma rd_can: "ok b \<Longrightarrow> can b n \<longleftrightarrow> rd b n \<noteq> None"
  by (simp add: can_iff rd_None not_less)

lemma rd_take: "ok b \<Longrightarrow> rd b n = Some (d, b') \<Longrightarrow>
    d = take (unat n) (left b) \<and> left b' = drop (unat n) (left b)"
  using rd_Some [of b n d b'] by auto

lemma rd_zero: "ok b \<Longrightarrow> \<exists>b'. rd b 0 = Some ([], b') \<and> ok b' \<and> left b' = left b"
  using rd_None [of b 0] rd_Some [of b 0] by fastforce

lemma rd_twice:
  assumes ok: "ok b" and sum: "unat n + unat m < 2 ^ 32"
    and one: "rd b n = Some (d1, b1)" and two: "rd b1 m = Some (d2, b2)"
  obtains b3 where "rd b (n + m) = Some (d1 @ d2, b3)" "ok b3" "left b3 = left b2"
proof -
  have nm: "unat (n + m) = unat n + unat m" using sum by (simp add: unat_add_no_wrap)
  note A = rd_Some [OF ok one] and B = rd_Some [OF conjunct1 [OF rd_Some [OF ok one]] two]
  have "rd b (n + m) \<noteq> None" using A B by (simp add: rd_None [OF ok] nm)
  then obtain d b3 where r: "rd b (n + m) = Some (d, b3)" by auto
  moreover have "d = d1 @ d2" "left b3 = left b2"
    using rd_Some [OF ok r] A B nm append_eq_append_conv [of d "d1 @ d2" "left b3" "left b2"] by auto
  ultimately show thesis using that rd_Some [OF ok r] by simp
qed

end

interpretation bufr: byte_reader buf_ok buf_rest buffer_can_read buffer_read_bytes
proof (unfold_locales, goal_cases)
  case (1 b n)
  then show ?case by (simp add: buffer_can_read_iff)
next
  case (2 b n)
  then show ?case by (simp add: buf_simps)
next
  case (3 b n d b')
  then show ?case by (auto simp: buf_simps split: if_splits)
qed

section \<open>Moving the cursor forward\<close>

text \<open>\<open>adv b k\<close> is \<open>b\<close> with \<open>k\<close> more bytes read; \<open>shrinks b b'\<close> says that \<open>b'\<close> is \<open>b\<close> with some of
  the bytes that were left read.\<close>

definition adv :: "buffer_t \<Rightarrow> nat \<Rightarrow> buffer_t" where
  "adv b k = buf_adv b (of_nat k)"

definition shrinks :: "buffer_t \<Rightarrow> buffer_t \<Rightarrow> bool" where
  "shrinks b b' \<longleftrightarrow> (\<exists>k \<le> length (buf_rest b). b' = adv b k)"

lemma unat_of_nat_rest: "buf_ok b \<Longrightarrow> k \<le> length (buf_rest b) \<Longrightarrow> unat (of_nat k :: size_t) = k"
  using buf_rest_size_t [of b] by (simp add: unat_of_nat_size_t)

lemma adv_ok [simp]: "buf_ok b \<Longrightarrow> k \<le> length (buf_rest b) \<Longrightarrow> buf_ok (adv b k)"
  by (simp add: adv_def buf_adv_ok unat_of_nat_rest)

lemma adv_rest [simp]: "buf_ok b \<Longrightarrow> k \<le> length (buf_rest b) \<Longrightarrow> buf_rest (adv b k) = drop k (buf_rest b)"
  by (simp add: adv_def buf_adv_rest unat_of_nat_rest)

lemma adv_zero [simp]: "adv b 0 = b"
  by (simp add: adv_def buf_adv_def)

lemma adv_adv [simp]: "adv (adv b k) m = adv b (k + m)"
  by (simp add: adv_def buf_adv_def add.assoc)

lemma adv_fields [simp]:
  "buf_ptr (adv b k) = buf_ptr b" "buf_size (adv b k) = buf_size b" "buf_addr (adv b k) = buf_addr b"
  by (simp_all add: adv_def)

lemma seek_1 [simp]: "buf_ok b \<Longrightarrow> buf_rest b = c # cs \<Longrightarrow> snd (buffer_seek_cur b 1) = adv b 1"
  by (simp add: buf_simps adv_def)

lemma shrinks_refl [simp]: "shrinks b b"
  by (auto simp: shrinks_def intro!: exI [of _ 0])

lemma shrinks_adv [simp]: "k \<le> length (buf_rest b) \<Longrightarrow> shrinks b (adv b k)"
  by (auto simp: shrinks_def)

lemma shrinks_ok: "buf_ok b \<Longrightarrow> shrinks b b' \<Longrightarrow> buf_ok b'"
  by (auto simp: shrinks_def)

lemma shrinks_length: "buf_ok b \<Longrightarrow> shrinks b b' \<Longrightarrow> length (buf_rest b') \<le> length (buf_rest b)"
  by (auto simp: shrinks_def)

lemma shrinks_suffix: "buf_ok b \<Longrightarrow> shrinks b b' \<Longrightarrow> suffix (buf_rest b') (buf_rest b)"
  by (auto simp: shrinks_def suffix_drop)

lemma shrinks_memory: "shrinks b b' \<Longrightarrow> buf_ptr b' = buf_ptr b \<and> buf_size b' = buf_size b \<and> buf_addr b' = buf_addr b"
  by (auto simp: shrinks_def)

lemma shrinks_trans [trans]: "buf_ok a \<Longrightarrow> shrinks a b \<Longrightarrow> shrinks b c \<Longrightarrow> shrinks a c"
proof -
  assume ok: "buf_ok a" and ab: "shrinks a b" and bc: "shrinks b c"
  from ab obtain k where k: "k \<le> length (buf_rest a)" "b = adv a k" by (auto simp: shrinks_def)
  from bc obtain m where m: "m \<le> length (buf_rest b)" "c = adv b m" by (auto simp: shrinks_def)
  have "k + m \<le> length (buf_rest a)" "c = adv a (k + m)" using ok k m by auto
  then show "shrinks a c" by (auto simp: shrinks_def)
qed

section \<open>Properties\<close>

text \<open>C14: Every read of a well-formed buffer either fails and leaves the buffer as it was, or
  takes as many bytes as the type has off the front of the bytes left, and the buffer stays
  well-formed over the same memory: a 32-bit read, a variable-length integer and a block of
  bytes never touch memory past the size of the buffer.\<close>

theorem buffer_reads_safe:
  assumes "buf_ok b"
  shows "(case buffer_read_u32 b e of (ok, v, b') \<Rightarrow>
            buf_ok b' \<and> buf_ptr b' = buf_ptr b \<and>
            (if ok then 4 \<le> length (buf_rest b) \<and> buf_rest b' = drop 4 (buf_rest b) \<and>
                        v = (if e = BE then read_u32_be (buf_rest b) 0 else read_u32_le (buf_rest b) 0)
             else b' = b \<and> length (buf_rest b) < 4 \<and> v = 0)) \<and>
         (case buffer_read_varint b of (ok, v, b') \<Rightarrow>
            buf_ok b' \<and> buf_ptr b' = buf_ptr b \<and>
            (case varint_read (buf_rest b) (length (buf_rest b)) of
               None \<Rightarrow> \<not> ok \<and> b' = b
             | Some (len, v') \<Rightarrow> ok \<and> v = v' \<and> buf_rest b' = drop len (buf_rest b))) \<and>
         (case buffer_read_bytes b n of
            None \<Rightarrow> length (buf_rest b) < unat n
          | Some (d, b') \<Rightarrow> buf_ok b' \<and> buf_ptr b' = buf_ptr b \<and> buf_rest b = d @ buf_rest b' \<and>
                            length d = unat n)"
proof (intro conjI, goal_cases)
  case 1
  then show ?case using assms by (simp add: buf_simps)
next
  case 2
  have "\<And>len v. varint_read (buf_rest b) (length (buf_rest b)) = Some (len, v) \<Longrightarrow>
      unat (of_nat len :: size_t) = len \<and> len \<le> length (buf_rest b)"
    using varint_read_bound [of "buf_rest b" "length (buf_rest b)"] by (fastforce simp: unat_of_nat_size_t)
  then show ?case using assms by (simp add: buf_simps split: option.split)
next
  case 3
  then show ?case using assms by (simp add: buf_simps)
qed

theorem buffer_reads_safe_witness:
  "let b = buffer_create 0 [0xFD, 1, 2, 9] 3 in
   buf_ok b \<and> buffer_read_varint b = (True, 0x201, b\<lparr>buf_offset := 3\<rparr>) \<and>
   (case buffer_read_bytes b 2 of
      None \<Rightarrow> length (buf_rest b) < unat (2 :: size_t)
    | Some (d, b') \<Rightarrow> buf_ok b' \<and> buf_ptr b' = buf_ptr b \<and> buf_rest b = d @ buf_rest b' \<and>
                      length d = unat (2 :: size_t))"
proof -
  let ?b = "buffer_create 0 [0xFD, 1, 2, 9] 3"
  have h: "buf_ok ?b" by code_simp
  have "buffer_read_varint ?b = (True, 0x201, ?b\<lparr>buf_offset := 3\<rparr>)" by code_simp
  then show ?thesis using h buffer_reads_safe [OF h, of BE 2] unfolding Let_def by blast
qed

text \<open>C15: What a write puts at the cursor a read at the same place gives back, in either byte
  order, and both leave the cursor at the same place behind it.\<close>

theorem buffer_write_read:
  assumes ok: "buf_ok b"
  shows "(buffer_write_u16 b v16 e = (True, b16) \<longrightarrow>
            buffer_read_u16 (buffer_restore b16 (buffer_snapshot b)) e = (True, v16, b16)) \<and>
         (buffer_write_u32 b v32 e = (True, b32) \<longrightarrow>
            buffer_read_u32 (buffer_restore b32 (buffer_snapshot b)) e = (True, v32, b32)) \<and>
         (buffer_write_u64 b v64 e = (True, b64) \<longrightarrow>
            buffer_read_u64 (buffer_restore b64 (buffer_snapshot b)) e = (True, v64, b64)) \<and>
         (unat n = length d \<and> buffer_write_bytes b d n = (True, bb) \<longrightarrow>
            buffer_read_bytes (buffer_restore bb (buffer_snapshot b)) n = Some (d, bb))"
proof -
  have adv: "buf_adv (buffer_restore (buf_put b x) (buffer_snapshot b)) (of_nat (length x)) = buf_put b x" for x
    by (simp add: buf_put_def buf_adv_def buffer_restore_def buffer_snapshot_def)
  have n: "unat n = length d \<Longrightarrow> n = of_nat (length d)"
    using unat_size_t_less [of n] by (simp add: word_unat_eq_iff unat_of_nat_size_t)
  show ?thesis
    using ok n adv [of d] adv [of "enc_u16_be v16"] adv [of "enc_u16_le v16"]
      adv [of "enc_u32_be v32"] adv [of "enc_u32_le v32"] adv [of "enc_u64_be v64"] adv [of "enc_u64_le v64"]
    by (auto simp: buf_simps buf_put_restore bytes_simps split: if_splits)
qed

theorem buffer_write_read_witness:
  "let b = buffer_create 0 [0, 0, 0, 0, 0, 0, 0, 0, 0] 9; b' = b\<lparr>buf_ptr := [4, 3, 2, 1, 0, 0, 0, 0, 0], buf_offset := 4\<rparr>
   in buf_ok b \<and> buffer_write_u32 b 0x01020304 LE = (True, b') \<and>
      buffer_read_u32 (buffer_restore b' (buffer_snapshot b)) LE = (True, 0x01020304, b')"
proof -
  let ?b = "buffer_create 0 [0, 0, 0, 0, 0, 0, 0, 0, 0] 9"
  let ?b' = "?b\<lparr>buf_ptr := [4, 3, 2, 1, 0, 0, 0, 0, 0], buf_offset := 4\<rparr>"
  have h: "buf_ok ?b" by code_simp
  have "buffer_write_u32 ?b 0x01020304 LE = (True, ?b')" by code_simp
  then show ?thesis
    using h buffer_write_read [OF h, of 0 LE ?b "0x01020304" ?b' 0 ?b 0 "[]" ?b]
    unfolding Let_def by blast
qed

text \<open>An aligned allocation gives an address that is a multiple of four, at or after the
  cursor; the block lies inside the buffer and the cursor moves to its end, so that two
  allocations never overlap. When the request with its padding does not fit, nothing changes.\<close>

theorem buffer_alloc_aligned:
  assumes ok: "buf_ok b" and sz: "unat sz + 4 \<le> 2 ^ 32"
  shows "case buffer_alloc b sz True of
      (None, b') \<Rightarrow> b' = b \<and> length (buf_rest b) < unat sz + 3
    | (Some at, b') \<Rightarrow> (buf_addr b + at) mod 4 = 0 \<and> buf_offset b \<le> at \<and>
        unat at - unat (buf_offset b) < 4 \<and>
        unat at + unat sz = unat (buf_offset b') \<and> buf_offset b' \<le> buf_size b \<and> buf_ok b'"
proof -
  define d where "d = (buf_addr b + buf_offset b) mod 4"
  define p where "p = (if d \<noteq> 0 then 4 - d else 0)"
  have d: "unat d < 4" by (simp add: d_def unat_mod_distrib)
  then have p4: "unat p < 4" by (simp add: p_def unat_sub_le word_le_nat_alt unat_gt_0)
  then have ps: "unat (p + sz) = unat p + unat sz" using sz by (simp add: unat_add_no_wrap)
  have al: "(buf_addr b + (buf_offset b + p)) mod 4 = 0"
    using align_up [of "buf_addr b + buf_offset b"] by (simp add: p_def d_def add.assoc)
  have eq: "buffer_alloc b sz True = (if \<not> buffer_can_read b (p + sz) then (None, b)
      else (Some (buf_offset b + p), snd (buffer_seek_cur b (p + sz))))"
    by (simp add: buffer_alloc_def Let_def p_def d_def)
  show ?thesis
  proof (cases "unat (p + sz) \<le> length (buf_rest b)")
    case True
    then have "unat (buf_offset b + p) = unat (buf_offset b) + unat p"
      "unat (buf_offset b + (p + sz)) = unat (buf_offset b) + unat p + unat sz"
      using buf_adv_offset [OF ok, of p] buf_adv_offset [OF ok, of "p + sz"] ps by simp_all
    with True show ?thesis
      using ok al p4 buf_adv_ok [OF ok True]
      by (simp add: eq buffer_can_read_iff buffer_seek_cur_eq word_le_nat_alt buf_ok_def)
  next
    case False
    then show ?thesis using ok ps p4 by (simp add: eq buffer_can_read_iff)
  qed
qed

theorem buffer_alloc_aligned_witness:
  "let b = (buffer_create 0x1000 (replicate 16 0) 16)\<lparr>buf_offset := 5\<rparr>; b' = b\<lparr>buf_offset := 14\<rparr>
   in buf_ok b \<and> buffer_alloc b 6 True = (Some 8, b') \<and> (buf_addr b + 8) mod 4 = 0 \<and> buf_ok b'"
proof -
  let ?b = "(buffer_create 0x1000 (replicate 16 0) 16)\<lparr>buf_offset := 5\<rparr>"
  have h: "buf_ok ?b" by code_simp
  have "buffer_alloc ?b 6 True = (Some 8, ?b\<lparr>buf_offset := 14\<rparr>)" by code_simp
  then show ?thesis using h buffer_alloc_aligned [OF h, of 6] unfolding Let_def by simp
qed

end
