(* ===== verification/Crypto_Hash.thy ===== *)
theory Crypto_Hash
  imports Buffer
begin

text \<open>
  The streaming hash helpers of \<open>src/crypto.h\<close>. The hash functions themselves belong to the
  operating system of the device and are parameters wherever a digest is taken; a hash context is
  the list of the bytes that were fed to it, which is what such a function depends on.
\<close>

type_synonym hash_context = bytes

definition crypto_hash_update :: "hash_context \<Rightarrow> bytes \<Rightarrow> hash_context" where
  "crypto_hash_update ctx data = ctx @ data"

definition crypto_hash_update_u8 :: "hash_context \<Rightarrow> u8 \<Rightarrow> hash_context" where
  "crypto_hash_update_u8 ctx data = crypto_hash_update ctx [data]"

definition crypto_hash_update_u16 :: "hash_context \<Rightarrow> u16 \<Rightarrow> hash_context" where
  "crypto_hash_update_u16 ctx data = crypto_hash_update ctx (write_u16_be (replicate 2 0) 0 data)"

definition crypto_hash_update_u32 :: "hash_context \<Rightarrow> u32 \<Rightarrow> hash_context" where
  "crypto_hash_update_u32 ctx data = crypto_hash_update ctx (write_u32_be (replicate 4 0) 0 data)"

definition crypto_hash_update_varint :: "hash_context \<Rightarrow> u64 \<Rightarrow> hash_context" where
  "crypto_hash_update_varint ctx data =
     (let (len, buf) = varint_write (replicate 9 0) 0 data in crypto_hash_update ctx (take (nat len) buf))"

definition crypto_hash_digest :: "(bytes \<Rightarrow> bytes) \<Rightarrow> hash_context \<Rightarrow> bytes" where
  "crypto_hash_digest H ctx = H ctx"

text \<open>The hash functions that \<open>src/crypto.c\<close> applies to whole arrays.\<close>

record hash_fns =
  cx_hash_sha256 :: "bytes \<Rightarrow> bytes"
  cx_hash_ripemd160 :: "bytes \<Rightarrow> bytes"

definition crypto_ripemd160 :: "hash_fns \<Rightarrow> bytes \<Rightarrow> bytes" where
  "crypto_ripemd160 hf inp = cx_hash_ripemd160 hf inp"

definition crypto_hash160 :: "hash_fns \<Rightarrow> bytes \<Rightarrow> bytes" where
  "crypto_hash160 hf inp = crypto_ripemd160 hf (cx_hash_sha256 hf inp)"

lemma varint_size_le: "varint_size v \<le> 9"
  by (simp add: varint_size_def)

lemma crypto_hash_update_varint_eq: "crypto_hash_update_varint ctx v = ctx @ varint_enc v"
  using varint_write_splice [of 0 v "replicate 9 0"] varint_size_le [of v]
  by (simp add: crypto_hash_update_varint_def crypto_hash_update_def varint_enc_length)

lemma crypto_hash_update_u32_eq: "crypto_hash_update_u32 ctx v = ctx @ enc_u32_be v"
  by (simp add: crypto_hash_update_u32_def crypto_hash_update_def bytes_simps)

lemmas crypto_hash_simps =
  crypto_hash_update_def crypto_hash_update_u8_def crypto_hash_update_u32_eq
  crypto_hash_update_varint_eq crypto_hash_digest_def

end
