(* ===== verification/Wallet_Types.thy ===== *)
theory Wallet_Types
  imports Prelude
begin

text \<open>
  The data of \<open>src/common/wallet.h\<close>: the tokens of the descriptor language, the miniscript type
  and modifiers of a node, the abstract syntax tree of a wallet policy, the extended miniscript
  properties, and the wallet header.

  The code keeps the tree in one array, its nodes linked by 16-bit relative pointers; the tree
  itself is an Isabelle datatype with one constructor per C structure, and the space that the
  structures take in the array is accounted for where they are allocated, in the theory of the
  parser.
\<close>

section \<open>Tokens\<close>

datatype PolicyNodeType =
    TOKEN_SH | TOKEN_WSH | TOKEN_PK | TOKEN_PKH | TOKEN_WPKH
  | TOKEN_MULTI | TOKEN_MULTI_A | TOKEN_SORTEDMULTI | TOKEN_SORTEDMULTI_A | TOKEN_TR
  | TOKEN_0 | TOKEN_1 | TOKEN_PK_K | TOKEN_PK_H | TOKEN_OLDER | TOKEN_AFTER
  | TOKEN_SHA256 | TOKEN_HASH256 | TOKEN_RIPEMD160 | TOKEN_HASH160
  | TOKEN_ANDOR | TOKEN_AND_V | TOKEN_AND_B | TOKEN_AND_N
  | TOKEN_OR_B | TOKEN_OR_C | TOKEN_OR_D | TOKEN_OR_I | TOKEN_THRESH
  | TOKEN_A | TOKEN_S | TOKEN_C | TOKEN_T | TOKEN_D | TOKEN_V | TOKEN_J | TOKEN_N | TOKEN_L | TOKEN_U
  | TOKEN_INVALID

section \<open>Miniscript types\<close>

datatype miniscript_type =
  MINISCRIPT_TYPE_B | MINISCRIPT_TYPE_V | MINISCRIPT_TYPE_K | MINISCRIPT_TYPE_W

record ms_flags =
  ms_type :: miniscript_type
  mod_z :: bool
  mod_o :: bool
  mod_n :: bool
  mod_d :: bool
  mod_u :: bool

text \<open>
  \<open>None\<close> is \<open>is_miniscript = 0\<close>. The code leaves the type and the modifiers of such a node
  unset, and reads them only after it has tested \<open>is_miniscript\<close>.
\<close>

type_synonym node_flags = "ms_flags option"

section \<open>The abstract syntax tree\<close>

record key_placeholder =
  num_first :: u32
  num_second :: u32
  key_index :: nat

text \<open>
  One constructor per C structure, with the token and the flags of its \<open>base\<close> first. The
  threshold \<open>k\<close> is an \<open>int16_t\<close> that the parser has checked to be non-negative; \<open>n\<close>, the number of
  keys or of child scripts, is the length of the list.
\<close>

datatype policy_node =
    Node_constant PolicyNodeType node_flags
  | Node_with_script PolicyNodeType node_flags policy_node
  | Node_with_script2 PolicyNodeType node_flags policy_node policy_node
  | Node_with_script3 PolicyNodeType node_flags policy_node policy_node policy_node
  | Node_with_key PolicyNodeType node_flags key_placeholder
  | Node_with_uint32 PolicyNodeType node_flags u32
  | Node_multisig PolicyNodeType node_flags nat "key_placeholder list"
  | Node_thresh PolicyNodeType node_flags nat "policy_node list"
  | Node_with_hash_160 PolicyNodeType node_flags bytes
  | Node_with_hash_256 PolicyNodeType node_flags bytes
  | Node_tr PolicyNodeType node_flags key_placeholder "policy_tree option"
and policy_tree =
    Tree_leaf policy_node
  | Tree_branch policy_tree policy_tree

fun node_type :: "policy_node \<Rightarrow> PolicyNodeType" where
  "node_type (Node_constant t _) = t"
| "node_type (Node_with_script t _ _) = t"
| "node_type (Node_with_script2 t _ _ _) = t"
| "node_type (Node_with_script3 t _ _ _ _) = t"
| "node_type (Node_with_key t _ _) = t"
| "node_type (Node_with_uint32 t _ _) = t"
| "node_type (Node_multisig t _ _ _) = t"
| "node_type (Node_thresh t _ _ _) = t"
| "node_type (Node_with_hash_160 t _ _) = t"
| "node_type (Node_with_hash_256 t _ _) = t"
| "node_type (Node_tr t _ _ _) = t"

fun flags_of :: "policy_node \<Rightarrow> node_flags" where
  "flags_of (Node_constant _ f) = f"
| "flags_of (Node_with_script _ f _) = f"
| "flags_of (Node_with_script2 _ f _ _) = f"
| "flags_of (Node_with_script3 _ f _ _ _) = f"
| "flags_of (Node_with_key _ f _) = f"
| "flags_of (Node_with_uint32 _ f _) = f"
| "flags_of (Node_multisig _ f _ _) = f"
| "flags_of (Node_thresh _ f _ _) = f"
| "flags_of (Node_with_hash_160 _ f _) = f"
| "flags_of (Node_with_hash_256 _ f _) = f"
| "flags_of (Node_tr _ f _ _) = f"

section \<open>Extended miniscript properties\<close>

text \<open>
  \<open>count\<close> and \<open>script_size\<close> are 16-bit unsigned and wrap around. The satisfaction sizes are 16-bit
  signed, with -1 for \<open>invalid\<close>; every operation of the code on them stays between -1 and
  \<open>INT16_MAX\<close>, so they are integers here.
\<close>

record miniscript_ops =
  ops_count :: u16
  ops_sat :: int
  ops_dsat :: int

record miniscript_stacksize =
  ss_sat :: int
  ss_dsat :: int

record policy_node_ext_info =
  ext_ops :: miniscript_ops
  ext_ss :: miniscript_stacksize
  script_size :: u16
  ext_s :: bool
  ext_f :: bool
  ext_e :: bool
  ext_m :: bool
  ext_g :: bool
  ext_h :: bool
  ext_i :: bool
  ext_j :: bool
  ext_k :: bool
  ext_x :: bool

section \<open>Wallet header and key information\<close>

text \<open>
  \<open>hdr_descriptor\<close> is the union of the header: the descriptor template itself in version 1, its
  SHA-256 in version 2. \<open>hdr_name\<close> is the string without its terminating zero byte.
\<close>

record policy_map_wallet_header =
  hdr_version :: u8
  hdr_name_len :: u8
  hdr_name :: bytes
  hdr_descriptor_template_len :: u16
  hdr_descriptor :: bytes
  hdr_n_keys :: size_t
  hdr_keys_info_merkle_root :: bytes

end
