(* ===== verification/Wallet_Lex.thy ===== *)
theory Wallet_Lex
  imports Crypto_Hash Wallet_Types
begin

text \<open>
  The lexical level of \<open>src/common/wallet.c\<close>: character classes, tokens, decimal numbers,
  hexadecimal strings, key placeholders, and the serialized wallet header. Every function takes
  the input buffer and returns it with its cursor moved; \<open>None\<close> is a negative return value.
\<close>

section \<open>Characters and tokens\<close>

definition is_digit :: "u8 \<Rightarrow> bool" where
  "is_digit c \<longleftrightarrow> ch CHR ''0'' \<le> c \<and> c \<le> ch CHR ''9''"

definition is_alpha :: "u8 \<Rightarrow> bool" where
  "is_alpha c \<longleftrightarrow> (ch CHR ''a'' \<le> c \<and> c \<le> ch CHR ''z'') \<or> (ch CHR ''A'' \<le> c \<and> c \<le> ch CHR ''Z'')"

definition is_alphanumeric :: "u8 \<Rightarrow> bool" where
  "is_alphanumeric c \<longleftrightarrow> is_alpha c \<or> is_digit c"

definition is_lowercase_hex :: "u8 \<Rightarrow> bool" where
  "is_lowercase_hex c \<longleftrightarrow> is_digit c \<or> (ch CHR ''a'' \<le> c \<and> c \<le> ch CHR ''f'')"

definition lowercase_hex_to_int :: "u8 \<Rightarrow> u8" where
  "lowercase_hex_to_int c = (if is_digit c then c - ch CHR ''0'' else c - ch CHR ''a'' + 10)"

definition consume_character :: "buffer_t \<Rightarrow> u8 \<Rightarrow> bool \<times> buffer_t" where
  "consume_character in_buf expected =
     (case buffer_peek in_buf of
        None \<Rightarrow> (False, in_buf)
      | Some c \<Rightarrow> if c \<noteq> expected then (False, in_buf) else (True, snd (buffer_seek_cur in_buf 1)))"

definition consume_characters :: "buffer_t \<Rightarrow> bytes \<Rightarrow> bool \<times> buffer_t" where
  "consume_characters in_buf expected =
     (if list_all (\<lambda>i. buffer_peek_n in_buf (of_nat i) = Some (expected ! i)) [0..<length expected]
      then (True, snd (buffer_seek_cur in_buf (of_nat (length expected))))
      else (False, in_buf))"

text \<open>The loop reads at most \<open>out_len\<close> characters.\<close>

primrec read_token :: "nat \<Rightarrow> buffer_t \<Rightarrow> bytes \<times> buffer_t" where
  "read_token 0 buffer = ([], buffer)"
| "read_token (Suc out_len) buffer =
     (case buffer_peek buffer of
        None \<Rightarrow> ([], buffer)
      | Some c \<Rightarrow>
          if is_alphanumeric c \<or> c = ch CHR ''_''
          then let (word, buffer') = read_token out_len (snd (buffer_seek_cur buffer 1))
               in (c # word, buffer')
          else ([], buffer))"

definition KNOWN_TOKENS :: "(PolicyNodeType \<times> bytes) list" where
  "KNOWN_TOKENS =
    [(TOKEN_SH, str ''sh''), (TOKEN_WSH, str ''wsh''), (TOKEN_PKH, str ''pkh''),
     (TOKEN_WPKH, str ''wpkh''), (TOKEN_MULTI, str ''multi''), (TOKEN_MULTI_A, str ''multi_a''),
     (TOKEN_SORTEDMULTI, str ''sortedmulti''), (TOKEN_SORTEDMULTI_A, str ''sortedmulti_a''),
     (TOKEN_TR, str ''tr''),
     (TOKEN_0, str ''0''), (TOKEN_1, str ''1''), (TOKEN_PK, str ''pk''), (TOKEN_PK_K, str ''pk_k''),
     (TOKEN_PK_H, str ''pk_h''), (TOKEN_OLDER, str ''older''), (TOKEN_AFTER, str ''after''),
     (TOKEN_SHA256, str ''sha256''), (TOKEN_HASH256, str ''hash256''),
     (TOKEN_RIPEMD160, str ''ripemd160''), (TOKEN_HASH160, str ''hash160''),
     (TOKEN_ANDOR, str ''andor''), (TOKEN_AND_V, str ''and_v''), (TOKEN_AND_B, str ''and_b''),
     (TOKEN_AND_N, str ''and_n''), (TOKEN_OR_B, str ''or_b''), (TOKEN_OR_C, str ''or_c''),
     (TOKEN_OR_D, str ''or_d''), (TOKEN_OR_I, str ''or_i''), (TOKEN_THRESH, str ''thresh'')]"

definition MAX_TOKEN_LENGTH :: nat where
  "MAX_TOKEN_LENGTH = 13"

text \<open>The loop over the table with \<open>strncmp\<close>; the words have no zero byte in them.\<close>

primrec find_token :: "(PolicyNodeType \<times> bytes) list \<Rightarrow> bytes \<Rightarrow> PolicyNodeType" where
  "find_token [] word = TOKEN_INVALID"
| "find_token (t # ts) word =
     (if take MAX_TOKEN_LENGTH (snd t) = take MAX_TOKEN_LENGTH word then fst t
      else find_token ts word)"

definition parse_token :: "buffer_t \<Rightarrow> PolicyNodeType \<times> buffer_t" where
  "parse_token buffer =
     (let (word, buffer') = read_token MAX_TOKEN_LENGTH buffer
      in (find_token KNOWN_TOKENS word, buffer'))"

section \<open>Numbers\<close>

text \<open>
  The loop of \<open>parse_unsigned_decimal\<close>. Every round moves the cursor, so one more round than the
  bytes left is enough; \<open>result\<close> is a \<open>size_t\<close> and wraps around.
\<close>

primrec decimal_loop :: "nat \<Rightarrow> nat \<Rightarrow> size_t \<Rightarrow> buffer_t \<Rightarrow> (nat \<times> size_t \<times> buffer_t) option" where
  "decimal_loop 0 digits_read result buffer = None"
| "decimal_loop (Suc fuel) digits_read result buffer =
     (case buffer_peek buffer of
        None \<Rightarrow> Some (digits_read, result, buffer)
      | Some c \<Rightarrow>
          if is_digit c then
            let digits_read = digits_read + 1;
                next_digit = ucast (c - ch CHR ''0'') :: size_t
            in if digits_read = 2 \<and> result = 0 then None
               else if 10 * result + next_digit < result then None
               else decimal_loop fuel digits_read (10 * result + next_digit)
                      (snd (buffer_seek_cur buffer 1))
          else Some (digits_read, result, buffer))"

definition bytes_left :: "buffer_t \<Rightarrow> nat" where
  "bytes_left b = unat (buf_size b - buf_offset b)"

definition parse_unsigned_decimal :: "buffer_t \<Rightarrow> (u32 \<times> buffer_t) option" where
  "parse_unsigned_decimal buffer = do {
     (digits_read, result, buffer) \<leftarrow> decimal_loop (Suc (bytes_left buffer)) 0 0 buffer;
     guard (digits_read \<noteq> 0);
     Some (result, buffer)
   }"

primrec read_hex_loop :: "nat \<Rightarrow> buffer_t \<Rightarrow> (bytes \<times> buffer_t) option" where
  "read_hex_loop 0 buffer = Some ([], buffer)"
| "read_hex_loop (Suc n) buffer =
     (let (_, c1, buffer) = buffer_read_u8 buffer;
          (_, c2, buffer) = buffer_read_u8 buffer
      in do {
        guard (is_lowercase_hex c1 \<and> is_lowercase_hex c2);
        (out, buffer) \<leftarrow> read_hex_loop n buffer;
        Some ((16 * lowercase_hex_to_int c1 + lowercase_hex_to_int c2) # out, buffer)
      })"

definition buffer_read_hex_hash :: "buffer_t \<Rightarrow> size_t \<Rightarrow> (bytes \<times> buffer_t) option" where
  "buffer_read_hex_hash buffer n =
     (if \<not> buffer_can_read buffer (2 * n) then None else read_hex_loop (unat n) buffer)"

definition BIP32_FIRST_HARDENED_CHILD :: u32 where
  "BIP32_FIRST_HARDENED_CHILD = 0x80000000"

definition buffer_read_derivation_step :: "buffer_t \<Rightarrow> (u32 \<times> buffer_t) option" where
  "buffer_read_derivation_step buffer = do {
     (der_step, buffer) \<leftarrow> parse_unsigned_decimal buffer;
     guard (der_step < BIP32_FIRST_HARDENED_CHILD);
     let (hardened, buffer) = consume_character buffer (ch CHR 0x27);
     Some (if hardened then der_step OR BIP32_FIRST_HARDENED_CHILD else der_step, buffer)
   }"

section \<open>Key placeholders\<close>

definition WALLET_POLICY_VERSION_V1 :: int where
  "WALLET_POLICY_VERSION_V1 = 1"

definition WALLET_POLICY_VERSION_V2 :: int where
  "WALLET_POLICY_VERSION_V2 = 2"

definition INT16_MAX :: u32 where
  "INT16_MAX = 32767"

definition parse_placeholder_range :: "buffer_t \<Rightarrow> (u32 \<times> u32 \<times> buffer_t) option" where
  "parse_placeholder_range in_buf = do {
     (first, in_buf) \<leftarrow> parse_unsigned_decimal (snd (buffer_seek_cur in_buf 1));
     guard (first \<le> 0x80000000);
     in_buf \<leftarrow> chkb (consume_character in_buf (ch CHR '';''));
     (second, in_buf) \<leftarrow> parse_unsigned_decimal in_buf;
     guard (second \<le> 0x80000000);
     guard (first \<noteq> second);
     in_buf \<leftarrow> chkb (consume_characters in_buf (str ''>/*''));
     Some (first, second, in_buf)
   }"

definition parse_placeholder :: "buffer_t \<Rightarrow> int \<Rightarrow> (key_placeholder \<times> buffer_t) option" where
  "parse_placeholder in_buf version = do {
     (c, in_buf) \<leftarrow> chk (buffer_read_u8 in_buf);
     guard (c = ch CHR ''@'');
     (k, in_buf) \<leftarrow> parse_unsigned_decimal in_buf;
     guard (k \<le> INT16_MAX);
     if version = WALLET_POLICY_VERSION_V1 then
       Some (\<lparr>num_first = 0, num_second = 1, key_index = unat k\<rparr>, in_buf)
     else if version = WALLET_POLICY_VERSION_V2 then do {
       in_buf \<leftarrow> chkb (consume_character in_buf (ch CHR ''/''));
       next_character \<leftarrow> buffer_peek in_buf;
       guard (next_character = ch CHR ''*'' \<or> next_character = ch CHR ''<'');
       if next_character = ch CHR ''*'' then do {
         in_buf \<leftarrow> chkb (consume_characters in_buf (str ''**''));
         Some (\<lparr>num_first = 0, num_second = 1, key_index = unat k\<rparr>, in_buf)
       } else do {
         (first, second, in_buf) \<leftarrow> parse_placeholder_range in_buf;
         Some (\<lparr>num_first = first, num_second = second, key_index = unat k\<rparr>, in_buf)
       }
     } else None
   }"

section \<open>The wallet header\<close>

definition MAX_WALLET_NAME_LENGTH :: u8 where
  "MAX_WALLET_NAME_LENGTH = 64"

definition MAX_DESCRIPTOR_TEMPLATE_LENGTH_V1 :: u64 where
  "MAX_DESCRIPTOR_TEMPLATE_LENGTH_V1 = 40"

text \<open>The value for every device but the Nano S, which has 192.\<close>

definition MAX_DESCRIPTOR_TEMPLATE_LENGTH_V2 :: u64 where
  "MAX_DESCRIPTOR_TEMPLATE_LENGTH_V2 = 512"

definition read_wallet_policy_header :: "buffer_t \<Rightarrow> (policy_map_wallet_header \<times> buffer_t) option" where
  "read_wallet_policy_header buffer = do {
     (version, buffer) \<leftarrow> chk (buffer_read_u8 buffer);
     guard (uint version = WALLET_POLICY_VERSION_V1 \<or> uint version = WALLET_POLICY_VERSION_V2);
     (name_len, buffer) \<leftarrow> chk (buffer_read_u8 buffer);
     guard (name_len \<le> MAX_WALLET_NAME_LENGTH);
     (name, buffer) \<leftarrow> buffer_read_bytes buffer (ucast name_len);
     (descriptor_template_len, buffer) \<leftarrow> chk (buffer_read_varint buffer);
     (descriptor, buffer) \<leftarrow>
       (if uint version = WALLET_POLICY_VERSION_V1 then do {
          guard (descriptor_template_len \<le> MAX_DESCRIPTOR_TEMPLATE_LENGTH_V1);
          buffer_read_bytes buffer (ucast (ucast descriptor_template_len :: u16))
        } else do {
          guard (descriptor_template_len \<le> MAX_DESCRIPTOR_TEMPLATE_LENGTH_V2);
          buffer_read_bytes buffer 32
        });
     (n_keys, buffer) \<leftarrow> chk (buffer_read_varint buffer);
     guard (n_keys \<le> 252);
     (root, buffer) \<leftarrow> buffer_read_bytes buffer 32;
     Some (\<lparr>hdr_version = version, hdr_name_len = name_len, hdr_name = name,
            hdr_descriptor_template_len = ucast descriptor_template_len, hdr_descriptor = descriptor,
            hdr_n_keys = ucast (ucast n_keys :: u16), hdr_keys_info_merkle_root = root\<rparr>, buffer)
   }"

section \<open>Behaviour on a well-formed buffer\<close>

lemma bytes_left_rest [simp]: "buf_ok b \<Longrightarrow> bytes_left b = length (buf_rest b)"
  by (simp add: bytes_left_def)

lemma consume_character_eq:
  assumes "buf_ok b"
  shows "consume_character b c =
    (case buf_rest b of [] \<Rightarrow> (False, b) | x # xs \<Rightarrow> if x = c then (True, adv b 1) else (False, b))"
  using assms by (auto simp: consume_character_def buffer_peek_eq split: list.split)

lemma consume_character_True:
  assumes "buf_ok b" and "consume_character b c = (True, b')"
  shows "b' = adv b 1" and "buf_rest b = c # buf_rest b'"
  using assms by (auto simp: consume_character_eq drop_Suc split: list.splits if_splits)

lemma consume_character_False:
  assumes "buf_ok b" and "consume_character b c = (False, b')"
  shows "b' = b"
  using assms by (auto simp: consume_character_eq split: list.splits if_splits)

lemma consume_character_shrinks:
  assumes "buf_ok b" and "consume_character b c = (ok, b')"
  shows "shrinks b b'"
  using assms by (auto simp: consume_character_eq split: list.splits if_splits)

lemma consume_characters_eq:
  assumes "buf_ok b" and "length s < 4294967295"
  shows "consume_characters b s =
    (if prefix s (buf_rest b) then (True, adv b (length s)) else (False, b))"
proof -
  have peek: "buffer_peek_n b (of_nat i) = Some c \<longleftrightarrow> i < length (buf_rest b) \<and> buf_rest b ! i = c"
    if "i < length s" for i c
    using that assms by (auto simp: buffer_peek_n_eq unat_of_nat_size_t)
  have "list_all (\<lambda>i. buffer_peek_n b (of_nat i) = Some (s ! i)) [0..<length s] \<longleftrightarrow> prefix s (buf_rest b)"
    (is "?A \<longleftrightarrow> ?B")
  proof
    assume ?A
    then have all: "i < length (buf_rest b) \<and> buf_rest b ! i = s ! i" if "i < length s" for i
      using that by (auto simp: list_all_iff peek)
    have "length s \<le> length (buf_rest b)"
      using all [of "length s - 1"] by (cases s) auto
    with all have "take (length s) (buf_rest b) = s" by (auto intro: nth_equalityI)
    then show ?B by (metis take_is_prefix)
  next
    assume ?B
    then show ?A by (auto simp: list_all_iff peek prefix_def nth_append)
  qed
  then show ?thesis
    using assms by (auto simp: consume_characters_def buffer_seek_cur_eq unat_of_nat_size_t adv_def
        dest: prefix_length_le)
qed

lemma consume_characters_shrinks:
  assumes "buf_ok b" and "length s < 4294967295" and "consume_characters b s = (ok, b')"
  shows "shrinks b b'"
  using assms by (auto simp: consume_characters_eq prefix_length_le split: if_splits)

text \<open>The characters of a token.\<close>

definition is_token_char :: "u8 \<Rightarrow> bool" where
  "is_token_char c \<longleftrightarrow> is_alphanumeric c \<or> c = ch CHR ''_''"

lemma read_token_eq:
  "buf_ok b \<Longrightarrow> read_token n b =
     (let w = take n (takeWhile is_token_char (buf_rest b)) in (w, adv b (length w)))"
proof (induction n arbitrary: b)
  case (Suc n)
  then show ?case
    by (cases "buf_rest b") (auto simp: buffer_peek_eq is_token_char_def Let_def split: prod.split)
qed simp

lemma length_take_takeWhile: "length (take n (takeWhile P xs)) \<le> length xs"
  using length_takeWhile_le [of P xs] by simp

lemma parse_token_shrinks:
  assumes "buf_ok b" and "parse_token b = (t, b')"
  shows "shrinks b b'"
proof -
  let ?w = "take MAX_TOKEN_LENGTH (takeWhile is_token_char (buf_rest b))"
  have "b' = adv b (length ?w)" using assms by (simp add: parse_token_def read_token_eq Let_def)
  then show ?thesis using shrinks_adv [OF length_take_takeWhile] by blast
qed

section \<open>Decimal numbers\<close>

text \<open>The value of a string of decimal digits, and the loop of \<open>parse_unsigned_decimal\<close> as a fold
  over the digits at the cursor.\<close>

definition digit :: "u8 \<Rightarrow> nat" where
  "digit c = unat (c - ch CHR ''0'')"

definition decimal_value :: "bytes \<Rightarrow> nat" where
  "decimal_value ds = foldl (\<lambda>v c. 10 * v + digit c) 0 ds"

primrec decimal_fold :: "bytes \<Rightarrow> nat \<Rightarrow> size_t \<Rightarrow> (nat \<times> size_t) option" where
  "decimal_fold [] n r = Some (n, r)"
| "decimal_fold (c # cs) n r =
     (if n = 1 \<and> r = 0 then None
      else if 10 * r + ucast (c - ch CHR ''0'') < r then None
      else decimal_fold cs (Suc n) (10 * r + ucast (c - ch CHR ''0'')))"

lemma decimal_loop_eq:
  assumes "buf_ok b" and "length (takeWhile is_digit (buf_rest b)) < fuel"
  shows "decimal_loop fuel n r b =
     (case decimal_fold (takeWhile is_digit (buf_rest b)) n r of
        None \<Rightarrow> None
      | Some (n', r') \<Rightarrow> Some (n', r', adv b (length (takeWhile is_digit (buf_rest b)))))"
  using assms
proof (induction fuel arbitrary: b n r)
  case (Suc fuel)
  show ?case
  proof (cases "buf_rest b")
    case Nil
    then show ?thesis using Suc.prems by (simp add: buffer_peek_eq)
  next
    case (Cons c cs)
    then have "buf_rest (adv b 1) = cs" using Suc.prems by simp
    then show ?thesis
      using Suc.prems Suc.IH [of "adv b 1"] Cons
      by (auto simp: buffer_peek_eq Let_def split: option.split)
  qed
qed simp

lemma decimal_fold_count: "decimal_fold ds n r = Some (n', r') \<Longrightarrow> n' = n + length ds"
  by (induction ds arbitrary: n r) (fastforce split: if_splits)+

lemma decimal_loop_enough:
  "buf_ok b \<Longrightarrow> length (takeWhile is_digit (buf_rest b)) < Suc (bytes_left b)"
  using length_takeWhile_le [of is_digit "buf_rest b"] by simp

lemma parse_unsigned_decimal_eq:
  assumes "buf_ok b"
  shows "parse_unsigned_decimal b =
     (let ds = takeWhile is_digit (buf_rest b) in
      if ds = [] then None
      else map_option (\<lambda>(_, r). (r, adv b (length ds))) (decimal_fold ds 0 0))"
proof (cases "decimal_fold (takeWhile is_digit (buf_rest b)) 0 0")
  case None
  then show ?thesis
    by (auto simp: parse_unsigned_decimal_def Let_def decimal_loop_eq [OF assms decimal_loop_enough [OF assms]]
        simp del: decimal_loop.simps)
next
  case (Some nr)
  then have "fst nr = length (takeWhile is_digit (buf_rest b))"
    using decimal_fold_count by (metis add_0 prod.collapse)
  with Some show ?thesis
    by (cases nr) (simp add: parse_unsigned_decimal_def Let_def
        decimal_loop_eq [OF assms decimal_loop_enough [OF assms]] del: decimal_loop.simps)
qed

lemma parse_unsigned_decimal_Some:
  assumes "buf_ok b" and "parse_unsigned_decimal b = Some (v, b')"
  shows "b' = adv b (length (takeWhile is_digit (buf_rest b)))" and "takeWhile is_digit (buf_rest b) \<noteq> []"
  using assms by (auto simp: parse_unsigned_decimal_eq Let_def split: if_splits)

lemma parse_unsigned_decimal_shrinks:
  assumes "buf_ok b" and "parse_unsigned_decimal b = Some (v, b')"
  shows "shrinks b b'"
  using parse_unsigned_decimal_Some [OF assms] length_takeWhile_le by (metis shrinks_adv)

lemma foldl_decimal_mono: "v \<le> foldl (\<lambda>v c. 10 * v + digit c) v ds"
proof (induction ds arbitrary: v)
  case (Cons c ds)
  have "v \<le> 10 * v + digit c" by simp
  also have "\<dots> \<le> foldl (\<lambda>v c. 10 * v + digit c) (10 * v + digit c) ds" by (rule Cons.IH)
  finally show ?case by simp
qed simp

lemma decimal_fold_value:
  assumes "foldl (\<lambda>v c. 10 * v + digit c) (unat r) ds < 4294967296"
    and "n = 1 \<and> r = 0 \<longrightarrow> ds = []" and "n = 0 \<longrightarrow> r = 0"
    and "n = 0 \<and> length ds > 1 \<longrightarrow> digit (hd ds) \<noteq> 0"
  shows "decimal_fold ds n r = Some (n + length ds, of_nat (foldl (\<lambda>v c. 10 * v + digit c) (unat r) ds))"
  using assms
proof (induction ds arbitrary: n r)
  case (Cons c ds)
  let ?r = "10 * r + ucast (c - ch CHR ''0'') :: size_t"
  have lt: "10 * unat r + digit c < 4294967296"
    using Cons.prems(1) foldl_decimal_mono [of "10 * unat r + digit c" ds] by simp
  have "unat (ucast (c - ch CHR ''0'') :: size_t) = digit c"
    by (simp add: digit_def unsigned_ucast_eq take_bit_nat_eq_self unsigned_less [THEN less_trans])
  then have r: "unat ?r = 10 * unat r + digit c"
    using lt by (simp add: unat_word_ariths)
  then have "\<not> ?r < r" by (simp add: word_less_nat_alt)
  moreover have "decimal_fold ds (Suc n) ?r =
      Some (Suc n + length ds, of_nat (foldl (\<lambda>v c. 10 * v + digit c) (unat ?r) ds))"
    using Cons.prems r by (intro Cons.IH) (auto simp: word_unat_eq_iff)
  ultimately show ?case using Cons.prems r by auto
qed simp

text \<open>A decimal number without a leading zero that fits 32 bits is read as its value, and
  the cursor stops at the first character that is not a digit.\<close>

theorem parse_unsigned_decimal_correct:
  assumes "buf_ok b" and "ds = takeWhile is_digit (buf_rest b)" and "ds \<noteq> []"
    and "length ds > 1 \<longrightarrow> digit (hd ds) \<noteq> 0" and "decimal_value ds < 2 ^ 32"
  shows "parse_unsigned_decimal b = Some (of_nat (decimal_value ds), adv b (length ds))"
  using assms decimal_fold_value [of 0 ds 0]
  by (simp add: parse_unsigned_decimal_eq decimal_value_def Let_def)

theorem parse_unsigned_decimal_correct_witness:
  "parse_unsigned_decimal (buffer_create 0 (str ''144)'') 4) = Some (144, adv (buffer_create 0 (str ''144)'') 4) 3)"
proof -
  let ?b = "buffer_create 0 (str ''144)'') 4"
  have b: "buf_ok ?b" "str ''144'' = takeWhile is_digit (buf_rest ?b)" by code_simp+
  have v: "decimal_value (str ''144'') = 144" "digit (hd (str ''144'')) = 1" "length (str ''144'') = 3"
    by (simp_all add: decimal_value_def digit_def str_def ch_def)
  then show ?thesis using parse_unsigned_decimal_correct [OF b] by (simp add: str_def numeral_3_eq_3)
qed


section \<open>Hexadecimal strings\<close>

definition hex_digit :: "u8 \<Rightarrow> u8" where
  "hex_digit v = (if v < 10 then ch CHR ''0'' + v else ch CHR ''a'' + (v - 10))"

definition to_hex :: "bytes \<Rightarrow> bytes" where
  "to_hex h = concat (map (\<lambda>x. [hex_digit (x div 16), hex_digit (x mod 16)]) h)"

lemma to_hex_simps [simp]:
  "to_hex [] = []"
  "to_hex (x # xs) = hex_digit (x div 16) # hex_digit (x mod 16) # to_hex xs"
  by (simp_all add: to_hex_def)

lemma length_to_hex [simp]: "length (to_hex h) = 2 * length h"
  by (induction h) simp_all

lemma hex_digit_inverse:
  assumes "v < 16"
  shows "is_lowercase_hex (hex_digit v)" and "lowercase_hex_to_int (hex_digit v) = v"
proof -
  have "\<forall>n < (16 :: nat). is_lowercase_hex (hex_digit (of_nat n)) \<and> lowercase_hex_to_int (hex_digit (of_nat n)) = of_nat n"
    by code_simp
  from this [rule_format, of "unat v"] have "is_lowercase_hex (hex_digit v) \<and> lowercase_hex_to_int (hex_digit v) = v"
    using assms by (simp add: word_less_nat_alt)
  then show "is_lowercase_hex (hex_digit v)" "lowercase_hex_to_int (hex_digit v) = v" by simp_all
qed

lemma div_mod_16: "16 * (x div 16) + x mod 16 = (x :: u8)" "x div 16 < 16" "x mod 16 < 16"
  subgoal by (metis mult.commute div_mult_mod_eq)
  subgoal using unsigned_less [of x, where ?'a = nat] by (simp add: word_less_nat_alt unat_div_distrib)
  subgoal by (simp add: word_less_nat_alt unat_mod_distrib)
  done

lemma buffer_read_u8_Cons:
  "buf_ok b \<Longrightarrow> buf_rest b = c # cs \<Longrightarrow> buffer_read_u8 b = (True, c, adv b 1)"
  by (simp add: buffer_read_u8_eq adv_def)

lemma read_hex_loop_to_hex:
  "buf_ok b \<Longrightarrow> buf_rest b = to_hex h @ rest \<Longrightarrow> read_hex_loop (length h) b = Some (h, adv b (2 * length h))"
proof (induction h arbitrary: b)
  case (Cons x h)
  have 1: "buffer_read_u8 b = (True, hex_digit (x div 16), adv b 1)"
    using Cons.prems by (simp add: buffer_read_u8_Cons)
  have 2: "buffer_read_u8 (adv b (Suc 0)) = (True, hex_digit (x mod 16), adv b 2)"
    using Cons.prems by (simp add: buffer_read_u8_Cons numeral_2_eq_2)
  have "read_hex_loop (length h) (adv b 2) = Some (h, adv b (2 + 2 * length h))"
    using Cons.IH [of "adv b 2"] Cons.prems by simp
  then show ?case
    by (simp add: 1 2 hex_digit_inverse div_mod_16)
qed simp

lemma read_hex_loop_shrinks:
  "buf_ok b \<Longrightarrow> read_hex_loop n b = Some (h, b') \<Longrightarrow> shrinks b b' \<and> length h = n"
proof (induction n arbitrary: b h)
  case (Suc n)
  obtain ok1 c1 b1 ok2 c2 b2 h' where
    r: "buffer_read_u8 b = (ok1, c1, b1)" "buffer_read_u8 b1 = (ok2, c2, b2)" "read_hex_loop n b2 = Some (h', b')"
      "length h = Suc (length h')"
    using Suc.prems by (auto simp: bind_eq_Some_conv split: prod.splits if_splits)
  have step: "shrinks x y" if "buf_ok x" "buffer_read_u8 x = (ok, c, y)" for x y ok c
    using that by (cases "buf_rest x") (auto simp: buffer_read_u8_eq simp flip: adv_def [of _ 1, simplified])
  have "shrinks b b1" "shrinks b1 b2" "buf_ok b1" "buf_ok b2"
    using step r Suc.prems by (blast intro: shrinks_ok)+
  then show ?case
    using Suc.IH [OF _ r(3)] Suc.prems r(4) by (auto intro: shrinks_trans)
qed simp

lemma buffer_read_hex_hash_shrinks:
  "buf_ok b \<Longrightarrow> buffer_read_hex_hash b n = Some (h, b') \<Longrightarrow> shrinks b b' \<and> length h = unat n"
  by (auto simp: buffer_read_hex_hash_def read_hex_loop_shrinks split: if_splits)

text \<open>C34: The lowercase hexadecimal digits of a byte string are read back as that string.\<close>

theorem buffer_read_hex_hash_roundtrip:
  assumes "buf_ok b" and "buf_rest b = to_hex h @ rest" and "unat n = length h" and "2 * length h < 2 ^ 32"
  shows "buffer_read_hex_hash b n = Some (h, adv b (2 * length h))"
proof -
  have "unat (2 * n) = 2 * length h" using assms by (simp add: unat_word_ariths)
  then show ?thesis
    using assms read_hex_loop_to_hex [OF assms(1,2)] by (simp add: buffer_read_hex_hash_def buffer_can_read_iff)
qed

theorem buffer_read_hex_hash_roundtrip_witness:
  "let b = buffer_create 0 (str ''0afF'') 4 in
   buf_ok b \<and> buffer_read_hex_hash b 1 = Some ([0x0a], adv b (2 * length [0x0a :: u8]))"
proof -
  let ?b = "buffer_create 0 (str ''0afF'') 4"
  have "buf_ok ?b" "buf_rest ?b = to_hex [0x0a] @ str ''fF''" "unat (1 :: size_t) = length [0x0a :: u8]"
    by code_simp+
  then show ?thesis using buffer_read_hex_hash_roundtrip [of ?b "[0x0a]" "str ''fF''" 1] by (simp add: Let_def)
qed

section \<open>Placeholders\<close>

lemma buffer_read_u8_shrinks:
  "buf_ok b \<Longrightarrow> buffer_read_u8 b = (ok, c, b') \<Longrightarrow> shrinks b b'"
  by (cases "buf_rest b") (auto simp: buffer_read_u8_eq simp flip: adv_def [of _ 1, simplified])

lemma seek_1_shrinks: "buf_ok b \<Longrightarrow> shrinks b (snd (buffer_seek_cur b 1))"
  by (cases "buf_rest b") (auto simp: buffer_seek_cur_eq simp flip: adv_def [of _ 1, simplified])

text \<open>What the lexical functions do to the input buffer, for the proofs about the parser.\<close>

lemmas lex_shrinks =
  consume_character_shrinks parse_unsigned_decimal_shrinks buffer_read_u8_shrinks seek_1_shrinks
  parse_token_shrinks

lemma parse_placeholder_range_shrinks:
  assumes ok: "buf_ok b" and p: "parse_placeholder_range b = Some (m, n, b')"
  shows "shrinks b b' \<and> m \<noteq> n \<and> m \<le> 0x80000000 \<and> n \<le> 0x80000000"
proof -
  obtain b1 b2 b3 where
    s: "parse_unsigned_decimal (snd (buffer_seek_cur b 1)) = Some (m, b1)"
      "consume_character b1 (ch CHR '';'') = (True, b2)" "parse_unsigned_decimal b2 = Some (n, b3)"
      "consume_characters b3 (str ''>/*'') = (True, b')" "m \<noteq> n" "m \<le> 0x80000000" "n \<le> 0x80000000"
    using p by (auto simp: parse_placeholder_range_def bind_eq_Some_conv split: if_splits)
  note s0 = seek_1_shrinks [OF ok] and ok0 = shrinks_ok [OF ok seek_1_shrinks [OF ok]]
  note s1 = parse_unsigned_decimal_shrinks [OF ok0 s(1)] note ok1 = shrinks_ok [OF ok0 s1]
  note s2 = consume_character_shrinks [OF ok1 s(2)] note ok2 = shrinks_ok [OF ok1 s2]
  note s3 = parse_unsigned_decimal_shrinks [OF ok2 s(3)] note ok3 = shrinks_ok [OF ok2 s3]
  have s4: "shrinks b3 b'" by (rule consume_characters_shrinks [OF ok3 _ s(4)]) (simp add: str_def)
  show ?thesis using s0 s1 s2 s3 s4 ok s(5,6,7) by (meson shrinks_trans)
qed

lemma parse_placeholder_shrinks:
  assumes ok: "buf_ok b" and p: "parse_placeholder b version = Some (kp, b')"
  shows "shrinks b b'"
proof -
  obtain c b1 k b2 where
    s: "buffer_read_u8 b = (True, c, b1)" "parse_unsigned_decimal b1 = Some (k, b2)"
    and alt: "b' = b2 \<or> (\<exists>b3. consume_character b2 (ch CHR ''/'') = (True, b3) \<and>
       (consume_characters b3 (str ''**'') = (True, b') \<or> (\<exists>m n. parse_placeholder_range b3 = Some (m, n, b'))))"
    using p by (auto simp: parse_placeholder_def bind_eq_Some_conv split: if_splits)
  note s1 = buffer_read_u8_shrinks [OF ok s(1)] note ok1 = shrinks_ok [OF ok s1]
  note s2 = parse_unsigned_decimal_shrinks [OF ok1 s(2)] note ok2 = shrinks_ok [OF ok1 s2]
  have "shrinks b2 b'" using alt
  proof (elim disjE exE conjE)
    fix b3 assume c: "consume_character b2 (ch CHR ''/'') = (True, b3)"
    note s3 = consume_character_shrinks [OF ok2 c] note ok3 = shrinks_ok [OF ok2 s3]
    { assume "consume_characters b3 (str ''**'') = (True, b')"
      then have "shrinks b3 b'" by (rule consume_characters_shrinks [OF ok3, rotated]) (simp add: str_def)
      then show "shrinks b2 b'" using s3 ok2 by (blast intro: shrinks_trans) }
    { fix m n assume "parse_placeholder_range b3 = Some (m, n, b')"
      then have "shrinks b3 b'" using parse_placeholder_range_shrinks [OF ok3] by blast
      then show "shrinks b2 b'" using s3 ok2 by (blast intro: shrinks_trans) }
  qed simp
  then show ?thesis using s1 s2 ok by (meson shrinks_trans)
qed

lemma parse_placeholder_bounds:
  assumes ok: "buf_ok b" and p: "parse_placeholder b version = Some (kp, b')"
  shows "key_index kp \<le> 32767" "num_first kp \<noteq> num_second kp"
    "num_first kp \<le> 0x80000000" "num_second kp \<le> 0x80000000"
    "version = 1 \<or> version = 2" "hd (buf_rest b) = ch CHR ''@''"
proof -
  have idx: "k \<le> INT16_MAX \<Longrightarrow> unat k \<le> 32767" for k :: u32 by (simp add: INT16_MAX_def word_le_nat_alt)
  obtain c b1 k b2 where
    s: "buffer_read_u8 b = (True, c, b1)" "c = ch CHR ''@''" "parse_unsigned_decimal b1 = Some (k, b2)"
      "k \<le> INT16_MAX" "key_index kp = unat k"
      "version = WALLET_POLICY_VERSION_V1 \<or> version = WALLET_POLICY_VERSION_V2"
    and alt: "num_first kp = 0 \<and> num_second kp = 1 \<or> (\<exists>b3. consume_character b2 (ch CHR ''/'') = (True, b3) \<and>
         parse_placeholder_range b3 = Some (num_first kp, num_second kp, b'))"
    using p by (auto simp: parse_placeholder_def bind_eq_Some_conv split: if_splits)
  note s1 = buffer_read_u8_shrinks [OF ok s(1)] note ok1 = shrinks_ok [OF ok s1]
  note s2 = parse_unsigned_decimal_shrinks [OF ok1 s(3)] note ok2 = shrinks_ok [OF ok1 s2]
  have "num_first kp \<noteq> num_second kp \<and> num_first kp \<le> 0x80000000 \<and> num_second kp \<le> 0x80000000"
    using alt
  proof (elim disjE exE conjE)
    fix b3 assume c: "consume_character b2 (ch CHR ''/'') = (True, b3)"
      and r: "parse_placeholder_range b3 = Some (num_first kp, num_second kp, b')"
    show ?thesis
      using parse_placeholder_range_shrinks [OF _ r] consume_character_shrinks [OF ok2 c] shrinks_ok [OF ok2]
      by blast
  qed simp
  moreover have "hd (buf_rest b) = ch CHR ''@''"
    using ok s(1,2) by (cases "buf_rest b") (auto simp: buffer_read_u8_eq)
  ultimately show "key_index kp \<le> 32767" "num_first kp \<noteq> num_second kp"
    "num_first kp \<le> 0x80000000" "num_second kp \<le> 0x80000000"
    "version = 1 \<or> version = 2" "hd (buf_rest b) = ch CHR ''@''"
    using s idx by (auto simp: WALLET_POLICY_VERSION_V1_def WALLET_POLICY_VERSION_V2_def)
qed

text \<open>C33: A key placeholder that the parser accepts has a key index that fits \<open>int16_t\<close>, two
  different derivation steps that are at most \<open>0x80000000\<close>, and leaves the cursor inside the
  input, before the first byte it has not read.\<close>

theorem parse_placeholder_sound:
  assumes ok: "buf_ok b" and p: "parse_placeholder b version = Some (kp, b')"
  shows "key_index kp \<le> 32767 \<and> num_first kp \<noteq> num_second kp \<and>
    num_first kp \<le> 0x80000000 \<and> num_second kp \<le> 0x80000000 \<and>
    (version = 1 \<or> version = 2) \<and> hd (buf_rest b) = ch CHR ''@'' \<and> buf_ok b' \<and> suffix (buf_rest b') (buf_rest b)"
  using parse_placeholder_bounds [OF assms] parse_placeholder_shrinks [OF assms] ok shrinks_ok shrinks_suffix
  by blast

theorem parse_placeholder_sound_witness:
  "let b = buffer_create 0 (str ''@3/<2147483648;1>/*)'') 20;
       kp = \<lparr>num_first = 0x80000000, num_second = 1, key_index = 3\<rparr> in
   buf_ok b \<and> parse_placeholder b 2 = Some (kp, adv b 19) \<and> buf_ok (adv b 19)"
proof -
  let ?b = "buffer_create 0 (str ''@3/<2147483648;1>/*)'') 20"
  have "buf_ok ?b" by code_simp
  moreover have "parse_placeholder ?b 2 = Some (\<lparr>num_first = 0x80000000, num_second = 1, key_index = 3\<rparr>, adv ?b 19)"
    by code_simp
  ultimately show ?thesis using parse_placeholder_sound [of ?b 2] unfolding Let_def by blast
qed

section \<open>The wallet id\<close>

definition get_policy_wallet_id :: "(bytes \<Rightarrow> bytes) \<Rightarrow> policy_map_wallet_header \<Rightarrow> bytes" where
  "get_policy_wallet_id sha256 wallet_header =
     (let ctx = crypto_hash_update_u8 [] (hdr_version wallet_header);
          ctx = crypto_hash_update_u8 ctx (hdr_name_len wallet_header);
          ctx = crypto_hash_update ctx (take (unat (hdr_name_len wallet_header)) (hdr_name wallet_header));
          ctx = crypto_hash_update_varint ctx (ucast (hdr_descriptor_template_len wallet_header));
          ctx = (if uint (hdr_version wallet_header) = WALLET_POLICY_VERSION_V1
                 then crypto_hash_update ctx
                        (take (unat (hdr_descriptor_template_len wallet_header)) (hdr_descriptor wallet_header))
                 else crypto_hash_update ctx (take 32 (hdr_descriptor wallet_header)));
          ctx = crypto_hash_update_varint ctx (ucast (hdr_n_keys wallet_header));
          ctx = crypto_hash_update ctx (take 32 (hdr_keys_info_merkle_root wallet_header))
      in crypto_hash_digest sha256 ctx)"

text \<open>The headers that the parser can produce, and their serialization.\<close>

definition wf_header :: "policy_map_wallet_header \<Rightarrow> bool" where
  "wf_header h \<longleftrightarrow>
     unat (hdr_name_len h) = length (hdr_name h) \<and> length (hdr_name h) \<le> 64 \<and>
     (hdr_version h = 1 \<and> hdr_descriptor_template_len h \<le> 40 \<and>
        length (hdr_descriptor h) = unat (hdr_descriptor_template_len h) \<or>
      hdr_version h = 2 \<and> hdr_descriptor_template_len h \<le> 512 \<and> length (hdr_descriptor h) = 32) \<and>
     hdr_n_keys h \<le> 252 \<and> length (hdr_keys_info_merkle_root h) = 32"

definition header_bytes :: "policy_map_wallet_header \<Rightarrow> bytes" where
  "header_bytes h =
     [hdr_version h, hdr_name_len h] @ hdr_name h @ varint_enc (ucast (hdr_descriptor_template_len h)) @
     hdr_descriptor h @ varint_enc (ucast (hdr_n_keys h)) @ hdr_keys_info_merkle_root h"

lemma get_policy_wallet_id_eq:
  "wf_header h \<Longrightarrow> get_policy_wallet_id sha256 h = sha256 (header_bytes h)"
  by (auto simp: get_policy_wallet_id_def header_bytes_def wf_header_def Let_def crypto_hash_simps
      WALLET_POLICY_VERSION_V1_def)

lemma buffer_read_bytes_append:
  assumes "buf_ok b" and "buf_rest b = d @ rest" and "unat n = length d"
  shows "buffer_read_bytes b n = Some (d, adv b (length d))"
proof -
  have "n = of_nat (length d)" using assms(3) unat_size_t_less [of n]
    by (simp add: word_unat_eq_iff unat_of_nat_size_t)
  then show ?thesis using assms by (simp add: buffer_read_bytes_eq adv_def)
qed

lemma buffer_read_varint_append:
  assumes "buf_ok b" and "buf_rest b = varint_enc v @ rest"
  shows "buffer_read_varint b = (True, v, adv b (varint_size v))"
proof -
  have "varint_size v \<le> length (buf_rest b)" by (simp add: assms(2) varint_enc_length)
  then show ?thesis
    using assms varint_read_enc [of v "length (buf_rest b)" rest]
    by (simp add: buffer_read_varint_eq adv_def)
qed

lemma unat_ucast_small:
  "unat x < 2 ^ LENGTH('b) \<Longrightarrow> unat (ucast (x :: 'a::len word) :: 'b::len word) = unat x"
  by (simp add: unsigned_ucast_eq take_bit_nat_eq_self)

lemma unat_ucast_up: "unat (ucast (x :: u8) :: size_t) = unat x" "unat (ucast (y :: u16) :: size_t) = unat y"
    "unat (ucast (y :: u16) :: u64) = unat y" "unat (ucast (v :: u32) :: u64) = unat v"
  by (simp_all add: unat_ucast_small unsigned_less [THEN less_trans])

lemma ucast_u16_u64 [simp]: "ucast (ucast (y :: u16) :: u64) = y"
proof (rule word_unat_eq_iff [THEN iffD2])
  show "unat (ucast (ucast y :: u64) :: u16) = unat y"
    using unsigned_less [of y, where ?'a = nat] by (subst unat_ucast_small) (simp_all add: unat_ucast_up)
qed

lemma ucast_n_keys:
  assumes "x \<le> (252 :: size_t)"
  shows "ucast (ucast (ucast x :: u64) :: u16) = x" and "(ucast x :: u64) \<le> 252"
proof -
  have x: "unat x \<le> 252" using assms by (simp add: word_le_nat_alt)
  then have 1: "unat (ucast (ucast x :: u64) :: u16) = unat x"
    by (subst unat_ucast_small) (simp_all add: unat_ucast_up)
  then show "ucast (ucast (ucast x :: u64) :: u16) = x" by (simp add: word_unat_eq_iff unat_ucast_up)
  show "(ucast x :: u64) \<le> 252" using x by (simp add: word_le_nat_alt unat_ucast_up)
qed

lemma ucast_template_len:
  "(y :: u16) \<le> 40 \<Longrightarrow> (ucast y :: u64) \<le> 40" "y \<le> 512 \<Longrightarrow> (ucast y :: u64) \<le> 512"
  by (simp_all add: word_le_nat_alt unat_ucast_up)

lemma read_header_bytes:
  assumes ok: "buf_ok b" and rest: "buf_rest b = header_bytes h @ rest" and wf: "wf_header h"
  shows "read_wallet_policy_header b = Some (h, adv b (length (header_bytes h)))"
proof -
  let ?L = "ucast (hdr_descriptor_template_len h) :: u64" and ?N = "ucast (hdr_n_keys h) :: u64"
  let ?d = "hdr_descriptor h" and ?r = "hdr_keys_info_merkle_root h"
  define o3 where "o3 = 2 + length (hdr_name h)"
  define o4 where "o4 = o3 + varint_size ?L"
  define o5 where "o5 = o4 + length ?d"
  define o6 where "o6 = o5 + varint_size ?N"
  have total: "length (header_bytes h) = o6 + 32"
    using wf by (simp add: header_bytes_def o6_def o5_def o4_def o3_def varint_enc_length wf_header_def)
  have okn: "buf_ok (adv b n)" "buf_rest (adv b n) = drop n (header_bytes h @ rest)" if "n \<le> o6 + 32" for n
    using that ok rest total by simp_all
  have le: "o3 \<le> o6 + 32" "o4 \<le> o6 + 32" "o5 \<le> o6 + 32" "o6 \<le> o6 + 32"
    by (simp_all add: o6_def o5_def o4_def)
  have r1: "buffer_read_u8 b = (True, hdr_version h, adv b (Suc 0))"
    using ok rest by (simp add: buffer_read_u8_Cons header_bytes_def)
  have r2: "buffer_read_u8 (adv b (Suc 0)) = (True, hdr_name_len h, adv b 2)"
    using okn [of "Suc 0"] by (simp add: buffer_read_u8_Cons header_bytes_def numeral_2_eq_2)
  have r3: "buffer_read_bytes (adv b 2) (ucast (hdr_name_len h)) = Some (hdr_name h, adv b o3)"
    using okn [of 2] wf buffer_read_bytes_append [of "adv b 2" "hdr_name h"]
    by (simp add: header_bytes_def wf_header_def unat_ucast_up o3_def)
  have r4: "buffer_read_varint (adv b o3) = (True, ?L, adv b o4)"
    using okn [OF le(1)] buffer_read_varint_append [of "adv b o3" ?L] by (simp add: header_bytes_def o3_def o4_def)
  have r5: "buffer_read_bytes (adv b o4) n = Some (?d, adv b o5)" if "unat n = length ?d" for n
    using okn [OF le(2)] that buffer_read_bytes_append [of "adv b o4" ?d]
    by (simp add: header_bytes_def o4_def o3_def o5_def varint_enc_length)
  have r6: "buffer_read_varint (adv b o5) = (True, ?N, adv b o6)"
    using okn [OF le(3)] buffer_read_varint_append [of "adv b o5" ?N]
    by (simp add: header_bytes_def o5_def o4_def o3_def o6_def varint_enc_length)
  have r7: "buffer_read_bytes (adv b o6) 32 = Some (?r, adv b (o6 + 32))"
    using okn [OF le(4)] wf buffer_read_bytes_append [of "adv b o6" ?r rest 32]
    by (simp add: header_bytes_def o5_def o4_def o3_def o6_def varint_enc_length wf_header_def)
  have nl: "hdr_name_len h \<le> MAX_WALLET_NAME_LENGTH"
    using wf by (simp add: wf_header_def MAX_WALLET_NAME_LENGTH_def word_le_nat_alt)
  show ?thesis
    using wf nl
    by (auto simp: read_wallet_policy_header_def r1 r2 r3 r4 r5 r6 r7 total wf_header_def unat_ucast_up
        ucast_n_keys ucast_template_len WALLET_POLICY_VERSION_V1_def WALLET_POLICY_VERSION_V2_def
        MAX_DESCRIPTOR_TEMPLATE_LENGTH_V1_def MAX_DESCRIPTOR_TEMPLATE_LENGTH_V2_def)
qed

text \<open>C12: The bytes that the wallet id hashes are the serialization of the header: reading them
  back gives the same header. So two well-formed headers that differ in the name, the descriptor
  template, the number of keys or the root of the keys never have the same id unless SHA-256
  collides on their serializations.\<close>

theorem wallet_id_commits_to_header:
  assumes "wf_header h" and "wf_header h'"
  shows "(buf_ok b \<and> buf_rest b = header_bytes h @ rest \<longrightarrow>
            read_wallet_policy_header b = Some (h, adv b (length (header_bytes h)))) \<and>
         (get_policy_wallet_id sha256 h = get_policy_wallet_id sha256 h' \<longrightarrow>
            h = h' \<or> header_bytes h \<noteq> header_bytes h' \<and> sha256 (header_bytes h) = sha256 (header_bytes h'))"
proof -
  have len: "length (header_bytes g) < 4294967296" if "wf_header g" for g
    using that varint_size_le [of "ucast (hdr_descriptor_template_len g)"] varint_size_le [of "ucast (hdr_n_keys g)"]
    by (auto simp: header_bytes_def varint_enc_length wf_header_def word_le_nat_alt)
  have "h = h'" if eq: "header_bytes h = header_bytes h'"
  proof -
    let ?b = "buffer_create 0 (header_bytes h) (of_nat (length (header_bytes h)))"
    have "buf_ok ?b" "buf_rest ?b = header_bytes h"
      using len [OF assms(1)] by (simp_all add: buf_ok_def buf_rest_def buffer_create_def unat_of_nat_size_t)
    then show "h = h'"
      using read_header_bytes [of ?b h "[]"] read_header_bytes [of ?b h' "[]"] assms eq by simp
  qed
  then show ?thesis
    using assms read_header_bytes by (auto simp: get_policy_wallet_id_eq)
qed

theorem wallet_id_commits_to_header_witness:
  "let h = \<lparr>hdr_version = 2, hdr_name_len = 2, hdr_name = str ''ab'', hdr_descriptor_template_len = 300,
            hdr_descriptor = replicate 32 7, hdr_n_keys = 3, hdr_keys_info_merkle_root = replicate 32 9\<rparr>;
       h' = h\<lparr>hdr_n_keys := 4\<rparr>; b = buffer_create 0 (header_bytes h) 72 in
   wf_header h \<and> wf_header h' \<and> read_wallet_policy_header b = Some (h, adv b (length (header_bytes h))) \<and>
   (get_policy_wallet_id id h = get_policy_wallet_id id h' \<longrightarrow>
      h = h' \<or> header_bytes h \<noteq> header_bytes h' \<and> id (header_bytes h) = id (header_bytes h'))"
proof -
  let ?h = "\<lparr>hdr_version = 2, hdr_name_len = 2, hdr_name = str ''ab'', hdr_descriptor_template_len = 300,
            hdr_descriptor = replicate 32 7, hdr_n_keys = 3, hdr_keys_info_merkle_root = replicate 32 9\<rparr>"
  let ?b = "buffer_create 0 (header_bytes ?h) 72"
  have "wf_header ?h" "wf_header (?h\<lparr>hdr_n_keys := 4\<rparr>)" "buf_ok ?b" "buf_rest ?b = header_bytes ?h @ []"
    by code_simp+
  then show ?thesis
    using wallet_id_commits_to_header [of ?h "?h\<lparr>hdr_n_keys := 4\<rparr>" ?b "[]" id] unfolding Let_def by blast
qed

end
