(* ===== verification/Script.thy ===== *)
theory Script
  imports Wallet_Lex
begin

text \<open>
  Scripts (\<open>src/common/script.h\<close>, \<open>src/common/script.c\<close>): the opcodes the application emits or
  recognises, the size of a minimal push, the classification of output scripts, and the text that
  is shown for an \<open>OP_RETURN\<close> output.
\<close>

section \<open>Opcodes\<close>

abbreviation (input) "OP_0 \<equiv> (0x00 :: u8)"
abbreviation (input) "OP_PUSHDATA1 \<equiv> (0x4c :: u8)"
abbreviation (input) "OP_PUSHDATA2 \<equiv> (0x4d :: u8)"
abbreviation (input) "OP_PUSHDATA4 \<equiv> (0x4e :: u8)"
abbreviation (input) "OP_1NEGATE \<equiv> (0x4f :: u8)"
abbreviation (input) "OP_RESERVED \<equiv> (0x50 :: u8)"
abbreviation (input) "OP_1 \<equiv> (0x51 :: u8)"
abbreviation (input) "OP_16 \<equiv> (0x60 :: u8)"
abbreviation (input) "OP_IF \<equiv> (0x63 :: u8)"
abbreviation (input) "OP_NOTIF \<equiv> (0x64 :: u8)"
abbreviation (input) "OP_ELSE \<equiv> (0x67 :: u8)"
abbreviation (input) "OP_ENDIF \<equiv> (0x68 :: u8)"
abbreviation (input) "OP_VERIFY \<equiv> (0x69 :: u8)"
abbreviation (input) "OP_RETURN \<equiv> (0x6a :: u8)"
abbreviation (input) "OP_TOALTSTACK \<equiv> (0x6b :: u8)"
abbreviation (input) "OP_FROMALTSTACK \<equiv> (0x6c :: u8)"
abbreviation (input) "OP_IFDUP \<equiv> (0x73 :: u8)"
abbreviation (input) "OP_DUP \<equiv> (0x76 :: u8)"
abbreviation (input) "OP_SWAP \<equiv> (0x7c :: u8)"
abbreviation (input) "OP_SIZE \<equiv> (0x82 :: u8)"
abbreviation (input) "OP_EQUAL \<equiv> (0x87 :: u8)"
abbreviation (input) "OP_EQUALVERIFY \<equiv> (0x88 :: u8)"
abbreviation (input) "OP_0NOTEQUAL \<equiv> (0x92 :: u8)"
abbreviation (input) "OP_ADD \<equiv> (0x93 :: u8)"
abbreviation (input) "OP_BOOLAND \<equiv> (0x9a :: u8)"
abbreviation (input) "OP_BOOLOR \<equiv> (0x9b :: u8)"
abbreviation (input) "OP_NUMEQUAL \<equiv> (0x9c :: u8)"
abbreviation (input) "OP_RIPEMD160 \<equiv> (0xa6 :: u8)"
abbreviation (input) "OP_SHA256 \<equiv> (0xa8 :: u8)"
abbreviation (input) "OP_HASH160 \<equiv> (0xa9 :: u8)"
abbreviation (input) "OP_HASH256 \<equiv> (0xaa :: u8)"
abbreviation (input) "OP_CHECKSIG \<equiv> (0xac :: u8)"
abbreviation (input) "OP_CHECKMULTISIG \<equiv> (0xae :: u8)"
abbreviation (input) "OP_CLTV \<equiv> (0xb1 :: u8)"
abbreviation (input) "OP_CSV \<equiv> (0xb2 :: u8)"
abbreviation (input) "OP_CHECKSIGADD \<equiv> (0xba :: u8)"

section \<open>Definitions\<close>

definition get_push_script_size :: "u32 \<Rightarrow> size_t" where
  "get_push_script_size n =
     (if n \<le> 16 then 1
      else if n < 0x80 then 2
      else if n < 0x8000 then 3
      else if n < 0x800000 then 4
      else if n < 0x80000000 then 5
      else 6)"

datatype script_type_e =
    SCRIPT_TYPE_P2PKH | SCRIPT_TYPE_P2SH | SCRIPT_TYPE_P2WPKH | SCRIPT_TYPE_P2WSH | SCRIPT_TYPE_P2TR
  | SCRIPT_TYPE_UNKNOWN_SEGWIT

text \<open>The length of the script is the length of the list; \<open>None\<close> is the result -1.\<close>

definition get_script_type :: "bytes \<Rightarrow> script_type_e option" where
  "get_script_type script =
     (let script_len = length script in
      if script_len = 25 \<and> script ! 0 = OP_DUP \<and> script ! 1 = OP_HASH160 \<and> script ! 2 = 0x14 \<and>
         script ! 23 = OP_EQUALVERIFY \<and> script ! 24 = OP_CHECKSIG then Some SCRIPT_TYPE_P2PKH
      else if script_len = 23 \<and> script ! 0 = OP_HASH160 \<and> script ! 1 = 0x14 \<and> script ! 22 = OP_EQUAL
      then Some SCRIPT_TYPE_P2SH
      else if script_len = 22 \<and> script ! 0 = 0x00 \<and> script ! 1 = 0x14 then Some SCRIPT_TYPE_P2WPKH
      else if script_len = 34 \<and> script ! 0 = OP_0 \<and> script ! 1 = 0x20 then Some SCRIPT_TYPE_P2WSH
      else if script_len = 34 \<and> script ! 0 = OP_1 \<and> script ! 1 = 0x20 then Some SCRIPT_TYPE_P2TR
      else if script_len \<ge> 4 \<and> script_len \<le> 42 \<and>
              (script ! 0 = 0 \<or> (script ! 0 \<ge> OP_1 \<and> script ! 0 \<le> OP_16)) \<and>
              script_len = 1 + 1 + unat (script ! 1)
      then Some SCRIPT_TYPE_UNKNOWN_SEGWIT
      else None)"

definition is_p2wpkh :: "bytes \<Rightarrow> bool" where
  "is_p2wpkh script \<longleftrightarrow> length script = 22 \<and> script ! 0 = 0x00 \<and> script ! 1 = 0x14"

definition is_p2wsh :: "bytes \<Rightarrow> bool" where
  "is_p2wsh script \<longleftrightarrow> length script = 34 \<and> script ! 0 = 0x00 \<and> script ! 1 = 0x20"

definition is_opreturn :: "bytes \<Rightarrow> bool" where
  "is_opreturn script \<longleftrightarrow> length script > 0 \<and> length script \<le> 83 \<and> script ! 0 = OP_RETURN"

text \<open>
  The text for the push after \<open>OP_RETURN\<close>. With \<open>OP_PUSHDATA1\<close> and nothing behind it the code
  reads one byte past the script; the length test that follows fails whatever that byte is.
\<close>

definition hex_chars :: "bytes \<Rightarrow> bytes" where
  "hex_chars d = concat (map (\<lambda>x. [str ''0123456789abcdef'' ! unat (x div 16), str ''0123456789abcdef'' ! unat (x mod 16)]) d)"

definition format_push :: "bytes \<Rightarrow> bytes option" where
  "format_push script =
     (let script_len = length script; opcode = script ! 1 in
      if opcode > OP_16 \<or> opcode = OP_RESERVED \<or> opcode = OP_PUSHDATA2 \<or> opcode = OP_PUSHDATA4 then None
      else if opcode = OP_0 then
        (if script_len \<noteq> 1 + 1 then None else Some (str ''0''))
      else if opcode \<ge> 1 \<and> opcode \<le> 75 then
        (if script_len \<noteq> 1 + 1 + unat opcode then None
         else Some (str ''0x'' @ hex_chars (take (unat opcode) (drop 2 script))))
      else if opcode = OP_PUSHDATA1 then
        (let hex_length = unat (script ! 2) in
         if script_len \<noteq> 1 + 1 + 1 + hex_length \<or> hex_length > 80 then None
         else Some (if hex_length > 0 then str ''0x'' @ hex_chars (take hex_length (drop 3 script)) else []))
      else if opcode = OP_1NEGATE then
        (if script_len \<noteq> 1 + 1 then None else Some (str ''-1''))
      else if opcode \<ge> OP_1 \<and> opcode \<le> OP_16 then
        (if script_len \<noteq> 1 + 1 then None
         else let num = opcode - 0x50 in
              Some ((if num \<ge> 10 then [ch CHR ''0'' + num div 10] else []) @ [ch CHR ''0'' + num mod 10]))
      else None)"

definition format_opscript_script :: "bytes \<Rightarrow> bytes option" where
  "format_opscript_script script =
     (if length script = 0 \<or> script ! 0 \<noteq> OP_RETURN then None
      else if length script = 1 then Some (str ''OP_RETURN'' @ [0])
      else map_option (\<lambda>d. str ''OP_RETURN '' @ d @ [0]) (format_push script))"

section \<open>Properties\<close>

lemma length_str [simp]: "length (str s) = length s"
  by (simp add: str_def)

lemma hex_table: "v < 16 \<Longrightarrow> str ''0123456789abcdef'' ! unat v = hex_digit v"
proof -
  assume v: "v < 16"
  have "\<forall>n < (16 :: nat). str ''0123456789abcdef'' ! unat (of_nat n :: u8) = hex_digit (of_nat n)" by code_simp
  from this [rule_format, of "unat v"] show ?thesis using v by (simp add: word_less_nat_alt)
qed

lemma hex_chars_to_hex: "hex_chars d = to_hex d"
  by (induction d) (simp_all add: hex_chars_def hex_table div_mod_16)

lemma take_2_nth: "2 \<le> length s \<Longrightarrow> take 2 s = [s ! 0, s ! 1]"
  by (cases s; cases "tl s") auto

lemma take_3_nth: "3 \<le> length s \<Longrightarrow> take 3 s = [s ! 0, s ! 1, s ! 2]"
  by (cases s; cases "tl s"; cases "tl (tl s)") auto

lemma split_2: "2 \<le> length s \<Longrightarrow> s = [s ! 0, s ! 1] @ drop 2 s"
  using append_take_drop_id [of 2 s] by (simp add: take_2_nth)

lemma template_witness:
  "length s = n + 2 \<and> s ! 0 = a \<and> s ! 1 = b \<longleftrightarrow> (\<exists>h. length h = n \<and> s = [a, b] @ h)"
  using split_2 [of s] by (auto intro!: exI [of _ "drop 2 s"])

lemma template_p2sh:
  "length s = 23 \<and> s ! 0 = a \<and> s ! 1 = b \<and> s ! 22 = z \<longleftrightarrow> (\<exists>h. length h = 20 \<and> s = [a, b] @ h @ [z])"
proof
  assume l: "length s = 23 \<and> s ! 0 = a \<and> s ! 1 = b \<and> s ! 22 = z"
  have "s = take 2 s @ take 20 (drop 2 s) @ drop 20 (drop 2 s)" by (simp only: append_take_drop_id)
  moreover have "take 2 s = [s ! 0, s ! 1]" using l by (simp add: take_2_nth)
  moreover have "drop 22 s = [s ! 22]" using Cons_nth_drop_Suc [of 22 s] l by simp
  ultimately have "length (take 20 (drop 2 s)) = 20 \<and> s = [a, b] @ take 20 (drop 2 s) @ [z]" using l by simp
  then show "\<exists>h. length h = 20 \<and> s = [a, b] @ h @ [z]" by blast
qed (auto simp: nth_append)

lemma template_p2pkh:
  "length s = 25 \<and> s ! 0 = a \<and> s ! 1 = b \<and> s ! 2 = c \<and> s ! 23 = y \<and> s ! 24 = z \<longleftrightarrow>
     (\<exists>h. length h = 20 \<and> s = [a, b, c] @ h @ [y, z])"
proof
  assume l: "length s = 25 \<and> s ! 0 = a \<and> s ! 1 = b \<and> s ! 2 = c \<and> s ! 23 = y \<and> s ! 24 = z"
  have "s = take 3 s @ take 20 (drop 3 s) @ drop 20 (drop 3 s)" by (simp only: append_take_drop_id)
  moreover have "take 3 s = [s ! 0, s ! 1, s ! 2]" using l by (simp add: take_3_nth)
  moreover have "drop 23 s = [s ! 23, s ! 24]"
    using Cons_nth_drop_Suc [of 23 s] Cons_nth_drop_Suc [of 24 s] l by simp
  ultimately have "length (take 20 (drop 3 s)) = 20 \<and> s = [a, b, c] @ take 20 (drop 3 s) @ [y, z]" using l by simp
  then show "\<exists>h. length h = 20 \<and> s = [a, b, c] @ h @ [y, z]" by blast
qed (auto simp: nth_append)

lemma get_script_type_iff:
  "(get_script_type s = Some SCRIPT_TYPE_P2PKH \<longleftrightarrow>
      (\<exists>h. length h = 20 \<and> s = [OP_DUP, OP_HASH160, 0x14] @ h @ [OP_EQUALVERIFY, OP_CHECKSIG])) \<and>
   (get_script_type s = Some SCRIPT_TYPE_P2SH \<longleftrightarrow>
      (\<exists>h. length h = 20 \<and> s = [OP_HASH160, 0x14] @ h @ [OP_EQUAL])) \<and>
   (get_script_type s = Some SCRIPT_TYPE_P2WPKH \<longleftrightarrow> (\<exists>h. length h = 20 \<and> s = [OP_0, 0x14] @ h)) \<and>
   (get_script_type s = Some SCRIPT_TYPE_P2WSH \<longleftrightarrow> (\<exists>h. length h = 32 \<and> s = [OP_0, 0x20] @ h)) \<and>
   (get_script_type s = Some SCRIPT_TYPE_P2TR \<longleftrightarrow> (\<exists>h. length h = 32 \<and> s = [OP_1, 0x20] @ h))"
  unfolding template_p2pkh [symmetric] template_p2sh [symmetric] template_witness [symmetric]
  by (simp add: get_script_type_def Let_def)

text \<open>C32: An output script is classified as P2PKH, P2SH, P2WPKH, P2WSH or P2TR exactly when it is
  the template of that type around a hash or key of the right length.\<close>

theorem get_script_type_exact:
  "(get_script_type s = Some SCRIPT_TYPE_P2PKH \<longleftrightarrow>
      (\<exists>h. length h = 20 \<and> s = [OP_DUP, OP_HASH160, 0x14] @ h @ [OP_EQUALVERIFY, OP_CHECKSIG])) \<and>
   (get_script_type s = Some SCRIPT_TYPE_P2SH \<longleftrightarrow>
      (\<exists>h. length h = 20 \<and> s = [OP_HASH160, 0x14] @ h @ [OP_EQUAL])) \<and>
   (get_script_type s = Some SCRIPT_TYPE_P2WPKH \<longleftrightarrow> (\<exists>h. length h = 20 \<and> s = [OP_0, 0x14] @ h)) \<and>
   (get_script_type s = Some SCRIPT_TYPE_P2WSH \<longleftrightarrow> (\<exists>h. length h = 32 \<and> s = [OP_0, 0x20] @ h)) \<and>
   (get_script_type s = Some SCRIPT_TYPE_P2TR \<longleftrightarrow> (\<exists>h. length h = 32 \<and> s = [OP_1, 0x20] @ h))"
  by (rule get_script_type_iff)

lemma length_hex_chars [simp]: "length (hex_chars d) = 2 * length d"
  by (simp add: hex_chars_to_hex)

lemma format_push_length: "format_push script = Some d \<Longrightarrow> length d \<le> 162"
  by (auto simp: format_push_def Let_def word_le_nat_alt split: if_splits)

text \<open>The text for an \<open>OP_RETURN\<close> script, with its terminating zero byte, fits the 173 bytes of
  the output array, and the text for a push of 1 to 75 bytes is exactly the hexadecimal digits of
  the data, so that different data are shown as different texts.\<close>

theorem format_opscript_script_text:
  "(format_opscript_script script = Some out \<longrightarrow> length out \<le> 12 + 80 * 2 + 1 \<and> last out = 0) \<and>
   (1 \<le> length d \<and> length d \<le> 75 \<longrightarrow>
      format_opscript_script (OP_RETURN # of_nat (length d) # d) =
        Some (str ''OP_RETURN 0x'' @ to_hex d @ [0]))"
proof (intro conjI impI)
  assume "format_opscript_script script = Some out"
  then show "length out \<le> 12 + 80 * 2 + 1" "last out = 0"
    using format_push_length [of script]
    by (fastforce simp: format_opscript_script_def split: if_splits)+
next
  assume d: "1 \<le> length d \<and> length d \<le> 75"
  then have n: "unat (of_nat (length d) :: u8) = length d" by (simp add: unat_of_nat)
  then have op: "\<not> (of_nat (length d) :: u8) > OP_16" "(of_nat (length d) :: u8) \<noteq> OP_RESERVED"
    "(of_nat (length d) :: u8) \<noteq> OP_PUSHDATA2" "(of_nat (length d) :: u8) \<noteq> OP_PUSHDATA4"
    "(of_nat (length d) :: u8) \<noteq> OP_0" "(of_nat (length d) :: u8) \<ge> 1" "(of_nat (length d) :: u8) \<le> 75"
    using d by (auto simp: word_le_nat_alt word_less_nat_alt word_unat_eq_iff)
  show "format_opscript_script (OP_RETURN # of_nat (length d) # d) = Some (str ''OP_RETURN 0x'' @ to_hex d @ [0])"
    using d op n by (simp add: format_opscript_script_def format_push_def Let_def hex_chars_to_hex str_def)
qed

theorem format_opscript_script_text_witness:
  "format_opscript_script [OP_RETURN, of_nat (length [0xca, 0xfe :: u8]), 0xca, 0xfe] =
     Some (str ''OP_RETURN 0x'' @ to_hex [0xca, 0xfe] @ [0])"
  using format_opscript_script_text [of "[]" "[]" "[0xca, 0xfe]"] by simp

text \<open>\<open>get_push_script_size\<close> as a natural number.\<close>

lemma unat_get_push_script_size_le: "unat (get_push_script_size n) \<le> 6"
  by (simp add: get_push_script_size_def)

end
