(* ===== verification/Segwit_Addr.thy ===== *)
theory Segwit_Addr
  imports Prelude
begin

text \<open>
  Segwit addresses (\<open>src/common/segwit_addr.c\<close>): the checksum, encoding and decoding of bech32
  and bech32m strings, the regrouping of bits, and the addresses built from them.

  A string is the list of its characters without the terminator, the output is returned.
\<close>

section \<open>Model\<close>

datatype bech32_encoding = BECH32_ENCODING_NONE | BECH32_ENCODING_BECH32 | BECH32_ENCODING_BECH32M

text \<open>\<open>-((b >> n) & 1) & c\<close> is \<open>c\<close> or 0.\<close>

definition bech32_polymod_step :: "u32 \<Rightarrow> u32" where
  "bech32_polymod_step pre =
     (let b = (ucast (drop_bit 25 pre) :: u8) in
      push_bit 5 (pre AND 0x1FFFFFF) XOR
      (- (ucast (drop_bit 0 b AND 1)) AND 0x3b6a57b2) XOR
      (- (ucast (drop_bit 1 b AND 1)) AND 0x26508e6d) XOR
      (- (ucast (drop_bit 2 b AND 1)) AND 0x1ea119fa) XOR
      (- (ucast (drop_bit 3 b AND 1)) AND 0x3d4233dd) XOR
      (- (ucast (drop_bit 4 b AND 1)) AND 0x2a1462b3))"

fun bech32_final_constant :: "bech32_encoding \<Rightarrow> u32" where
  "bech32_final_constant BECH32_ENCODING_BECH32 = 1"
| "bech32_final_constant BECH32_ENCODING_BECH32M = 0x2bc830a3"
| "bech32_final_constant BECH32_ENCODING_NONE = 0"

definition charset :: bytes where
  "charset = [113, 112, 122, 114, 121, 57, 120, 56, 103, 102, 50, 116, 118, 100, 119, 48,
     115, 51, 106, 110, 53, 52, 107, 104, 99, 101, 54, 109, 117, 97, 55, 108]"

definition charset_rev :: "int list" where
  "charset_rev =
     [- 1, - 1, - 1, - 1, - 1, - 1, - 1, - 1, - 1, - 1, - 1, - 1, - 1, - 1, - 1, - 1,
      - 1, - 1, - 1, - 1, - 1, - 1, - 1, - 1, - 1, - 1, - 1, - 1, - 1, - 1, - 1, - 1,
      - 1, - 1, - 1, - 1, - 1, - 1, - 1, - 1, - 1, - 1, - 1, - 1, - 1, - 1, - 1, - 1,
      15, - 1, 10, 17, 21, 20, 26, 30, 7, 5, - 1, - 1, - 1, - 1, - 1, - 1,
      - 1, 29, - 1, 24, 13, 25, 9, 8, 23, - 1, 18, 22, 31, 27, 19, - 1,
      1, 0, 3, 16, 11, 28, 12, 14, 6, 4, 2, - 1, - 1, - 1, - 1, - 1,
      - 1, 29, - 1, 24, 13, 25, 9, 8, 23, - 1, 18, 22, 31, 27, 19, - 1,
      1, 0, 3, 16, 11, 28, 12, 14, 6, 4, 2, - 1, - 1, - 1, - 1, - 1]"

definition is_upper :: "u8 \<Rightarrow> bool" where
  "is_upper c \<longleftrightarrow> ch CHR ''A'' \<le> c \<and> c \<le> ch CHR ''Z''"

definition is_lower :: "u8 \<Rightarrow> bool" where
  "is_lower c \<longleftrightarrow> ch CHR ''a'' \<le> c \<and> c \<le> ch CHR ''z''"

text \<open>Characters are signed in \<open>int ch = hrp[i]\<close>; a character above 127 is less than 33.\<close>

definition hrp_char :: "u8 \<Rightarrow> bool" where
  "hrp_char c \<longleftrightarrow> \<not> (sint c < 33 \<or> sint c > 126)"

text \<open>The first loop over the prefix, which checks it, and the second one, over its low bits.\<close>

definition polymod_high :: "u32 \<Rightarrow> bytes \<Rightarrow> u32" where
  "polymod_high crc hrp = fold (\<lambda>c crc. bech32_polymod_step crc XOR ucast (drop_bit 5 c)) hrp crc"

definition polymod_low :: "u32 \<Rightarrow> bytes \<Rightarrow> u32" where
  "polymod_low crc hrp = fold (\<lambda>c crc. bech32_polymod_step crc XOR ucast (c AND 0x1f)) hrp crc"

definition polymod_data :: "u32 \<Rightarrow> bytes \<Rightarrow> u32" where
  "polymod_data crc data = fold (\<lambda>d crc. bech32_polymod_step crc XOR ucast d) data crc"

definition bech32_encode :: "bytes \<Rightarrow> bytes \<Rightarrow> bech32_encoding \<Rightarrow> bytes option" where
  "bech32_encode hrp data enc =
     (if \<not> list_all (\<lambda>c. hrp_char c \<and> \<not> is_upper c) hrp then None
      else if length hrp + 7 + length data > 90 then None
      else if \<not> list_all (\<lambda>d. drop_bit 5 d = 0) data then None
      else let crc = bech32_polymod_step (polymod_high 1 hrp);
               crc = polymod_low crc hrp;
               crc = polymod_data crc data;
               crc = (bech32_polymod_step ^^ 6) crc;
               crc = crc XOR bech32_final_constant enc
           in Some (hrp @ [ch CHR ''1''] @ map (\<lambda>d. charset ! unat d) data @
                map (\<lambda>i. charset ! unat (drop_bit ((5 - i) * 5) crc AND 0x1f)) [0..<6]))"

text \<open>\<open>data_len\<close> counts the characters behind the last separator.\<close>

definition bech32_decode :: "bytes \<Rightarrow> (bech32_encoding \<times> bytes \<times> bytes) option" where
  "bech32_decode input =
     (let input_len = length input in
      if input_len < 8 \<or> input_len > 90 then None
      else let data_len = length (takeWhile (\<lambda>c. c \<noteq> ch CHR ''1'') (rev input)) in
      if 1 + data_len \<ge> input_len \<or> data_len < 6 then None
      else let hrp_len = input_len - (1 + data_len);
               hrp_in = take hrp_len input;
               data_in = drop (hrp_len + 1) input in
      if \<not> list_all hrp_char hrp_in then None
      else let hrp = map (\<lambda>c. if is_upper c then c - ch CHR ''A'' + ch CHR ''a'' else c) hrp_in;
               crc = bech32_polymod_step (polymod_high 1 hrp);
               crc = polymod_low crc hrp_in;
               vs = map (\<lambda>c. if c AND 0x80 \<noteq> 0 then - 1 else charset_rev ! unat c) data_in in
      if list_ex (\<lambda>v. v = - 1) vs then None
      else let have_lower = list_ex is_lower (hrp_in @ data_in);
               have_upper = list_ex is_upper (hrp_in @ data_in);
               crc = polymod_data crc (map of_int vs) in
      if have_lower \<and> have_upper then None
      else if crc = bech32_final_constant BECH32_ENCODING_BECH32 then
        Some (BECH32_ENCODING_BECH32, hrp, map of_int (take (data_len - 6) vs))
      else if crc = bech32_final_constant BECH32_ENCODING_BECH32M then
        Some (BECH32_ENCODING_BECH32M, hrp, map of_int (take (data_len - 6) vs))
      else None)"

text \<open>Regrouping of bits: the inner loop, and the loop over the input. The bits are numbers of type \<open>int\<close>.\<close>

fun emit_bits :: "nat \<Rightarrow> u32 \<Rightarrow> nat \<Rightarrow> bytes \<Rightarrow> nat \<times> bytes" where
  "emit_bits outbits val bits out =
     (if bits \<ge> outbits \<and> outbits > 0 then
        emit_bits outbits val (bits - outbits)
          (out @ [ucast (drop_bit (bits - outbits) val AND (push_bit outbits 1 - 1))])
      else (bits, out))"

declare emit_bits.simps [simp del]

primrec convert_loop :: "nat \<Rightarrow> nat \<Rightarrow> bytes \<Rightarrow> u32 \<Rightarrow> nat \<Rightarrow> bytes \<Rightarrow> u32 \<times> nat \<times> bytes" where
  "convert_loop outbits inbits [] val bits out = (val, bits, out)"
| "convert_loop outbits inbits (x # xs) val bits out =
     (let val = push_bit inbits val OR ucast x;
          (bits, out) = emit_bits outbits val (bits + inbits) out
      in convert_loop outbits inbits xs val bits out)"

definition convert_bits :: "nat \<Rightarrow> bytes \<Rightarrow> nat \<Rightarrow> bool \<Rightarrow> bytes option" where
  "convert_bits outbits inp inbits pad =
     (let (val, bits, out) = convert_loop outbits inbits inp 0 0 [];
          maxv = push_bit outbits 1 - 1;
          last = push_bit (outbits - bits) val AND maxv
      in if pad then Some (if bits \<noteq> 0 then out @ [ucast last] else out)
         else if last \<noteq> 0 \<or> bits \<ge> inbits then None
         else Some out)"

definition segwit_addr_encode :: "bytes \<Rightarrow> int \<Rightarrow> bytes \<Rightarrow> bytes option" where
  "segwit_addr_encode hrp witver witprog =
     (if witver > 16 then None
      else if witver = 0 \<and> length witprog \<noteq> 20 \<and> length witprog \<noteq> 32 then None
      else if length witprog < 2 \<or> length witprog > 40 then None
      else let enc = (if witver > 0 then BECH32_ENCODING_BECH32M else BECH32_ENCODING_BECH32) in
      case convert_bits 5 witprog 8 True of
        None \<Rightarrow> None
      | Some data \<Rightarrow> bech32_encode hrp (of_int witver # data) enc)"

definition segwit_addr_decode :: "bytes \<Rightarrow> bytes \<Rightarrow> (int \<times> bytes) option" where
  "segwit_addr_decode hrp addr = do {
     (enc, hrp_actual, data) \<leftarrow> bech32_decode addr;
     if length data = 0 \<or> length data > 65 then None
     else if hrp \<noteq> hrp_actual then None
     else if data ! 0 > 16 then None
     else if data ! 0 = 0 \<and> enc \<noteq> BECH32_ENCODING_BECH32 then None
     else if data ! 0 > 0 \<and> enc \<noteq> BECH32_ENCODING_BECH32M then None
     else do {
       witdata \<leftarrow> convert_bits 8 (drop 1 data) 5 False;
       if length witdata < 2 \<or> length witdata > 40 then None
       else if data ! 0 = 0 \<and> length witdata \<noteq> 20 \<and> length witdata \<noteq> 32 then None
       else Some (uint (data ! 0), witdata)
     }
   }"

section \<open>The checksum\<close>

lemma sel_bit: "n < 5 \<Longrightarrow> - (ucast (drop_bit n (ucast (drop_bit 25 x) :: u8) AND 1) :: u32) AND c = (if bit x (25 + n) then c else 0)"
  for x :: u32
proof -
  assume n: "n < 5"
  have "drop_bit n (ucast (drop_bit 25 x) :: u8) AND 1 = of_bool (bit x (25 + n))"
    using n by (simp add: and_one_eq flip: of_bool_odd_eq_mod_2 bit_iff_odd_drop_bit) (simp add: bit_ucast_iff bit_drop_bit_eq add.commute)
  then show ?thesis by simp
qed

lemma one_less_5: "(1 :: nat) < 5" by simp
lemma less_5: "(2 :: nat) < 5" "(3 :: nat) < 5" "(4 :: nat) < 5" by simp_all
lemma sel_index: "(25 :: nat) + 0 = 25" "(25 :: nat) + 1 = 26" "(25 :: nat) + 2 = 27" "(25 :: nat) + 3 = 28" "(25 :: nat) + 4 = 29" by simp_all

definition gen :: "(nat \<times> u32) list" where
  "gen = [(25, 0x3b6a57b2), (26, 0x26508e6d), (27, 0x1ea119fa), (28, 0x3d4233dd), (29, 0x2a1462b3)]"

lemma polymod_step_eq:
  "bech32_polymod_step x = foldl (\<lambda>a (n, c). a XOR (if bit x n then c else 0)) (push_bit 5 (take_bit 25 x)) gen"
proof -
  have m: "(0x1FFFFFF :: u32) = mask 25" by (simp add: mask_eq_exp_minus_1)
  show ?thesis
    unfolding bech32_polymod_step_def Let_def m take_bit_eq_mask [symmetric] sel_bit [of 0, OF zero_less_numeral] sel_bit [of 1, OF one_less_5]
      sel_bit [of 2, OF less_5(1)] sel_bit [of 3, OF less_5(2)] sel_bit [of 4, OF less_5(3)] gen_def foldl.simps prod.case
    by (simp only: xor.assoc sel_index)
qed

lemma polymod_step_xor: "bech32_polymod_step (x XOR y) = bech32_polymod_step x XOR bech32_polymod_step y"
proof -
  have "(if bit (x XOR y) n then c else 0) = (if bit x n then c else 0) XOR (if bit y n then c else 0)" for n and c :: u32
    by (simp add: bit_xor_iff)
  then show ?thesis
    unfolding polymod_step_eq gen_def by (simp add: ac_simps)
qed

lemma polymod_step_small: "take_bit 25 x = x \<Longrightarrow> bech32_polymod_step x = push_bit 5 x"
proof -
  assume t: "take_bit 25 x = x"
  have "\<not> bit x n" if "25 \<le> n" for n
    using t that by (metis bit_take_bit_iff not_le)
  then show ?thesis unfolding polymod_step_eq gen_def t by simp
qed

lemma polymod_step_bound: "take_bit 30 (bech32_polymod_step x) = bech32_polymod_step x"
proof -
  have "take_bit 30 (if b then c else 0) = (if b then take_bit 30 c else 0)" for b and c :: u32 by simp
  then show ?thesis
    unfolding polymod_step_eq gen_def by (simp add: take_bit_push_bit)
qed

text \<open>Six characters of the checksum, on top of a state of 30 bits.\<close>

lemma polymod_data_xor: "polymod_data (c XOR e) ds = polymod_data c ds XOR (bech32_polymod_step ^^ length ds) e"
proof (induction ds arbitrary: c e)
  case (Cons d ds)
  have "bech32_polymod_step (c XOR e) XOR ucast d = (bech32_polymod_step c XOR ucast d) XOR bech32_polymod_step e"
    by (simp add: polymod_step_xor ac_simps)
  then show ?case
    using Cons.IH [of "bech32_polymod_step c XOR ucast d" "bech32_polymod_step e"] by (simp add: polymod_data_def funpow_swap1)
qed (simp add: polymod_data_def)

definition checksum :: "u32 \<Rightarrow> bytes" where
  "checksum e = map (\<lambda>i. ucast (drop_bit ((5 - i) * 5) e AND 0x1f)) [0..<6]"

lemma polymod_group:
  assumes "m \<le> 25"
  shows "bech32_polymod_step (drop_bit (m + 5) (take_bit 30 e)) XOR ucast (ucast (drop_bit m e AND 0x1f) :: u8) = drop_bit m (take_bit 30 e)"
proof -
  have m: "(0x1f :: u32) = mask 5" by (simp add: mask_eq_exp_minus_1)
  have g: "(ucast (ucast (drop_bit m e AND 0x1f) :: u8) :: u32) = take_bit 5 (drop_bit m e)"
    unfolding m take_bit_eq_mask [symmetric] by (rule bit_word_eqI) (auto simp: bit_simps)
  have "take_bit 25 (drop_bit (m + 5) (take_bit 30 e)) = drop_bit (m + 5) (take_bit 30 e)"
    by (rule bit_word_eqI) (auto simp: bit_simps)
  then have "bech32_polymod_step (drop_bit (m + 5) (take_bit 30 e)) = push_bit 5 (drop_bit (m + 5) (take_bit 30 e))"
    by (rule polymod_step_small)
  moreover have "push_bit 5 (drop_bit (m + 5) (take_bit 30 e)) XOR take_bit 5 (drop_bit m e) = drop_bit m (take_bit 30 e)"
    using assms by (intro bit_word_eqI) (auto simp: bit_simps)
  ultimately show ?thesis unfolding g by simp
qed

lemma polymod_checksum: "polymod_data c (checksum e) = (bech32_polymod_step ^^ 6) c XOR take_bit 30 e"
proof -
  have z: "drop_bit 30 (take_bit 30 e) = 0" for e :: u32 by (rule bit_word_eqI) (auto simp: bit_simps)
  have "polymod_data (drop_bit 30 (take_bit 30 e)) (checksum e) = drop_bit 0 (take_bit 30 e)"
    using polymod_group [of 25 e] polymod_group [of 20 e] polymod_group [of 15 e] polymod_group [of 10 e] polymod_group [of 5 e] polymod_group [of 0 e]
    by (simp add: polymod_data_def checksum_def upt_rec)
  moreover have "length (checksum e) = 6" by (simp add: checksum_def)
  ultimately show ?thesis
    using polymod_data_xor [of 0 c "checksum e"] by (simp add: z xor.commute)
qed

section \<open>Strings\<close>

lemma charset_inverse:
  assumes "d < (32 :: u8)"
  shows "charset ! unat d AND 0x80 = 0" "charset_rev ! unat (charset ! unat d) = int (unat d)"
    "charset ! unat d \<noteq> ch CHR ''1''" "\<not> is_upper (charset ! unat d)"
proof -
  have "\<forall>n < (32 :: nat). charset ! n AND 0x80 = 0 \<and> charset_rev ! unat (charset ! n) = int n \<and>
      charset ! n \<noteq> ch CHR ''1'' \<and> \<not> is_upper (charset ! n)"
    by code_simp
  from this [rule_format, of "unat d"]
  show "charset ! unat d AND 0x80 = 0" "charset_rev ! unat (charset ! unat d) = int (unat d)"
    "charset ! unat d \<noteq> ch CHR ''1''" "\<not> is_upper (charset ! unat d)"
    using assms by (simp_all add: word_less_nat_alt)
qed

lemma low5: "unat (x AND 0x1f) < 32" "unat (ucast (x AND 0x1f) :: u8) = unat (x AND 0x1f)" for x :: u32
proof -
  have m: "(0x1f :: u32) = mask 5" by (simp add: mask_eq_exp_minus_1)
  show l: "unat (x AND 0x1f) < 32"
    unfolding m take_bit_eq_mask [symmetric] by (simp add: take_bit_eq_mod unat_mod)
  then show "unat (ucast (x AND 0x1f) :: u8) = unat (x AND 0x1f)"
    by (simp add: unsigned_ucast_eq take_bit_nat_eq_self)
qed

lemma checksum_less: "d \<in> set (checksum e) \<Longrightarrow> d < 32"
  using low5 by (auto simp: checksum_def word_less_nat_alt)

lemma five_bits: "drop_bit 5 d = 0 \<longleftrightarrow> d < (32 :: u8)"
proof -
  have "unat d mod 256 = unat d" using unsigned_less [of d, where 'a = nat] by (intro mod_less) simp
  then show ?thesis
    by (simp add: word_unat_eq_iff unsigned_drop_bit_eq word_less_nat_alt drop_bit_eq_div [where 'a = nat] take_bit_eq_mod div_eq_0_iff)
qed

lemma checksum_text: "map (\<lambda>i. charset ! unat (drop_bit ((5 - i) * 5) e AND 0x1f)) [0..<6] = map (\<lambda>d. charset ! unat d) (checksum e)"
  by (simp add: checksum_def low5)

lemma polymod_steps_bound: "take_bit 30 ((bech32_polymod_step ^^ 6) x XOR bech32_final_constant enc) = (bech32_polymod_step ^^ 6) x XOR bech32_final_constant enc"
proof -
  have "(bech32_polymod_step ^^ 6) x = bech32_polymod_step ((bech32_polymod_step ^^ 5) x)" by (simp add: numeral_eq_Suc)
  then have "take_bit 30 ((bech32_polymod_step ^^ 6) x) = (bech32_polymod_step ^^ 6) x" by (simp only: polymod_step_bound)
  then show ?thesis by (cases enc) simp_all
qed

lemma bech32_decode_encode:
  assumes "bech32_encode hrp data enc = Some s" "hrp \<noteq> []" "enc \<noteq> BECH32_ENCODING_NONE"
  shows "bech32_decode s = Some (enc, hrp, data)"
proof -
  define c0 where "c0 = polymod_low (bech32_polymod_step (polymod_high 1 hrp)) hrp"
  define e where "e = (bech32_polymod_step ^^ 6) (polymod_data c0 data) XOR bech32_final_constant enc"
  let ?D = "data @ checksum e" and ?T = "map (\<lambda>d. charset ! unat d)"
  have hrp: "list_all (\<lambda>c. hrp_char c \<and> \<not> is_upper c) hrp" and len: "length hrp + 7 + length data \<le> 90"
    and data: "\<forall>d\<in>set data. d < 32"
    and s: "s = hrp @ [ch CHR ''1''] @ ?T ?D"
    using assms(1) by (auto simp: bech32_encode_def Let_def c0_def e_def checksum_text five_bits list_all_iff split: if_splits)
  have D: "\<forall>d\<in>set ?D. d < 32" using data checksum_less by auto
  have lc: "length (checksum e) = 6" by (simp add: checksum_def)
  have ls: "length s = length hrp + length data + 7" using s lc by simp
  have tw: "takeWhile (\<lambda>c. c \<noteq> ch CHR ''1'') (rev s) = rev (?T ?D)"
    using D charset_inverse(3) unfolding s by (simp add: takeWhile_append takeWhile_eq_all_conv)
  have low: "map (\<lambda>c. if is_upper c then c - ch CHR ''A'' + ch CHR ''a'' else c) hrp = hrp"
    using hrp by (simp add: list_all_iff map_idI)
  have vs: "map (\<lambda>c. if c AND 0x80 \<noteq> 0 then - 1 else charset_rev ! unat c) (?T ?D) = map (\<lambda>d. int (unat d)) ?D"
    using D charset_inverse by simp
  have no1: "\<not> list_ex (\<lambda>v. v = - 1) (map (\<lambda>d. int (unat d)) ?D)"
  proof -
    have "- 1 \<noteq> int (unat d)" for d :: u8 by linarith
    then show ?thesis by (auto simp: list_ex_iff)
  qed
  have up: "\<not> list_ex is_upper (hrp @ ?T ?D)"
    using hrp D charset_inverse(4) by (auto simp: list_ex_iff list_all_iff)
  have w: "map (\<lambda>v. word_of_int v :: u8) (map (\<lambda>d. int (unat d)) x) = x" for x by (induction x) simp_all
  have "polymod_data c0 ?D = (bech32_polymod_step ^^ 6) (polymod_data c0 data) XOR take_bit 30 e"
    unfolding polymod_checksum [symmetric] by (simp add: polymod_data_def)
  also have "\<dots> = bech32_final_constant enc" unfolding e_def polymod_steps_bound by (simp flip: xor.assoc)
  finally have crc: "polymod_data c0 ?D = bech32_final_constant enc" .
  have hl: "length (rev (?T ?D)) = length data + 6" "length s - (1 + (length data + 6)) = length hrp" using ls lc by simp_all
  have parts: "take (length hrp) s = hrp" "drop (length hrp + 1) s = ?T ?D" using s by simp_all
  have hc: "list_all hrp_char hrp" using hrp by (simp add: list_all_iff)
  have td: "map of_int (take (length data + 6 - 6) (map (\<lambda>d. int (unat d)) ?D)) = data"
    using w [of data] by simp
  show ?thesis
    unfolding bech32_decode_def Let_def tw hl parts low vs w c0_def [symmetric] crc td
    using ls len lc assms(2,3) hc no1 up by (cases enc) auto
qed

section \<open>Regrouping of bits\<close>

text \<open>The low bits of a word, the most significant one first.\<close>

definition bits_of :: "nat \<Rightarrow> 'a::len word \<Rightarrow> bool list" where
  "bits_of k x = map (bit x) (rev [0..<k])"

lemma bits_of_length [simp]: "length (bits_of k x) = k"
  by (simp add: bits_of_def)

lemma bits_of_nth: "i < k \<Longrightarrow> bits_of k x ! i = bit x (k - 1 - i)"
  by (simp add: bits_of_def rev_nth)

lemma bits_of_add: "bits_of (m + n) x = bits_of m (drop_bit n x) @ bits_of n x"
  by (rule nth_equalityI) (auto simp: bits_of_nth nth_append bit_drop_bit_eq intro!: arg_cong [of _ _ "bit x"])

lemma bits_of_inj:
  assumes "bits_of k x = bits_of k y" "i < k"
  shows "bit x i = bit y i"
  using arg_cong [OF assms(1), of "\<lambda>bs. bs ! (k - 1 - i)"] assms(2) by (simp add: bits_of_nth)

lemma bits_of_mask: "k \<le> m \<Longrightarrow> bits_of k (x AND (push_bit m 1 - 1)) = bits_of k x"
  for x :: u32
  by (auto simp: bits_of_def bit_and_iff bit_mask_iff mask_eq_exp_minus_1 [symmetric] push_bit_of_1 bit_exp_iff dest: bit_imp_le_length)

lemma bits_of_ucast: "k \<le> 8 \<Longrightarrow> bits_of k (ucast (x :: u32) :: u8) = bits_of k x"
  by (auto simp: bits_of_def bit_ucast_iff)

text \<open>The bits of the groups that were written and those that are left over are the bits that were read.\<close>

definition flat :: "nat \<Rightarrow> bytes \<Rightarrow> bool list" where
  "flat k xs = concat (map (bits_of k) xs)"

lemma flat_append [simp]: "flat k (xs @ ys) = flat k xs @ flat k ys" "flat k [] = []" "flat k (x # xs) = bits_of k x @ flat k xs"
  by (simp_all add: flat_def)

lemma flat_length: "length (flat k xs) = k * length xs"
  by (induction xs) simp_all

lemma masked_group:
  assumes "n \<le> 8"
  shows "unat (ucast (x AND (push_bit n 1 - 1) :: u32) :: u8) < 2 ^ n"
    and "bits_of n (ucast (x AND (push_bit n 1 - 1)) :: u8) = bits_of n x"
proof -
  have m: "push_bit n 1 - 1 = (mask n :: u32)" by (simp add: mask_eq_exp_minus_1 push_bit_of_1)
  have "unat (take_bit n x) < 2 ^ n" by (simp add: unsigned_take_bit_eq)
  moreover have "(2 :: nat) ^ n \<le> 2 ^ 8" using assms by (intro power_increasing) simp_all
  ultimately show "unat (ucast (x AND (push_bit n 1 - 1) :: u32) :: u8) < 2 ^ n"
    unfolding m take_bit_eq_mask [symmetric] by (simp add: unsigned_ucast_eq take_bit_nat_eq_self)
  show "bits_of n (ucast (x AND (push_bit n 1 - 1)) :: u8) = bits_of n x"
    unfolding bits_of_ucast [OF assms] by (rule bits_of_mask) simp
qed

lemma emit_bits_eq:
  assumes "0 < n" "n \<le> 8" "emit_bits n v b out = (b', out')"
  shows "\<exists>ys. out' = out @ ys \<and> (\<forall>y\<in>set ys. unat y < 2 ^ n) \<and> flat n ys @ bits_of b' v = bits_of b v \<and> b' < n"
  using assms(3)
proof (induction b arbitrary: out rule: less_induct)
  case (less b)
  show ?case
  proof (cases "n \<le> b")
    case False
    then show ?thesis using less.prems by (simp add: emit_bits.simps [of n v b])
  next
    case True
    let ?y = "ucast (drop_bit (b - n) v AND (push_bit n 1 - 1)) :: u8"
    have "emit_bits n v (b - n) (out @ [?y]) = (b', out')"
      using less.prems True assms(1) by (simp add: emit_bits.simps [of n v b])
    then obtain ys where "out' = (out @ [?y]) @ ys" "\<forall>y\<in>set ys. unat y < 2 ^ n" "flat n ys @ bits_of b' v = bits_of (b - n) v" "b' < n"
      using less.IH [of "b - n" "out @ [?y]"] True assms(1) by auto
    moreover have "bits_of b v = bits_of n ?y @ bits_of (b - n) v"
      using bits_of_add [of n "b - n" v] True masked_group(2) [OF assms(2)] by simp
    ultimately show ?thesis
      using masked_group(1) [OF assms(2)] by (intro exI [of _ "?y # ys"]) simp
  qed
qed

lemma push_or_bits:
  assumes "b + k \<le> 32" "unat (x :: u8) < 2 ^ k" "k \<le> 8"
  shows "bits_of (b + k) (push_bit k v OR ucast x :: u32) = bits_of b v @ bits_of k x"
proof -
  have "bits_of k (push_bit k v OR ucast x :: u32) = bits_of k x"
    using assms(3) by (auto simp: bits_of_def bit_or_iff bit_push_bit_iff bit_ucast_iff)
  moreover have "bits_of b (drop_bit k (push_bit k v OR ucast x :: u32)) = bits_of b v"
  proof -
    have "take_bit k (unat x) = unat x" using assms(2) by (simp add: take_bit_nat_eq_self)
    then have "\<not> bit (unat x) (k + i)" for i by (metis bit_take_bit_iff not_add_less1)
    then have "\<not> bit x (k + i)" for i by (simp add: bit_unsigned_iff)
    then show ?thesis using assms(1) by (auto simp: bits_of_def bit_drop_bit_eq bit_or_iff bit_push_bit_iff bit_ucast_iff)
  qed
  ultimately show ?thesis by (simp add: bits_of_add)
qed

lemma convert_loop_eq:
  assumes "0 < n" "n \<le> 8" "k \<le> 8" "\<forall>x\<in>set inp. unat x < 2 ^ k" "b < n"
    and "convert_loop n k inp v b out = (v', b', out')"
  shows "\<exists>ys. out' = out @ ys \<and> (\<forall>y\<in>set ys. unat y < 2 ^ n) \<and> flat n ys @ bits_of b' v' = bits_of b v @ flat k inp \<and> b' < n"
  using assms(4-6)
proof (induction inp arbitrary: v b out)
  case (Cons x xs)
  let ?v = "push_bit k v OR ucast x"
  obtain b1 out1 where e: "emit_bits n ?v (b + k) out = (b1, out1)" by fastforce
  obtain zs where zs: "out1 = out @ zs" "\<forall>y\<in>set zs. unat y < 2 ^ n" "flat n zs @ bits_of b1 ?v = bits_of (b + k) ?v" "b1 < n"
    using emit_bits_eq [OF assms(1,2) e] by blast
  have x: "bits_of (b + k) ?v = bits_of b v @ bits_of k x"
    using Cons.prems assms(1-3) by (intro push_or_bits) auto
  obtain ys where ys: "out' = out1 @ ys" "\<forall>y\<in>set ys. unat y < 2 ^ n" "flat n ys @ bits_of b' v' = bits_of b1 ?v @ flat k xs" "b' < n"
    using Cons.IH [of b1 ?v out1] Cons.prems e zs(4) by auto
  have "flat n (zs @ ys) @ bits_of b' v' = (flat n zs @ bits_of b1 ?v) @ flat k xs" using ys(3) by simp
  also have "\<dots> = bits_of b v @ flat k (x # xs)" unfolding zs(3) x by simp
  finally show ?case
    using zs(1,2) ys(1,2,4) by (intro exI [of _ "zs @ ys"]) auto
qed simp

lemma flat_8_inj: "flat 8 xs = flat 8 ys \<Longrightarrow> xs = ys"
proof (induction xs arbitrary: ys)
  case Nil
  then show ?case by (cases ys) (simp_all add: bits_of_def)
next
  case (Cons x xs)
  have "length ys = Suc (length xs)" using arg_cong [OF Cons.prems, of length] by (simp add: flat_length)
  then obtain y zs where ys: "ys = y # zs" by (cases ys) auto
  then have "bits_of 8 x = bits_of 8 y" "flat 8 xs = flat 8 zs" using Cons.prems by simp_all
  moreover from this(1) have "x = y" by (intro bit_word_eqI) (rule bits_of_inj, simp_all)
  ultimately show ?case using ys Cons.IH by simp
qed

text \<open>Eight bits to five with padding, and back.\<close>

lemma convert_bits_8_5:
  assumes "convert_bits 5 prog 8 True = Some data"
  shows "(\<forall>d\<in>set data. unat d < 32) \<and> length data = (8 * length prog + 4) div 5 \<and>
    flat 5 data = flat 8 prog @ replicate (5 * length data - 8 * length prog) False"
proof -
  obtain v b out where c: "convert_loop 5 8 prog 0 0 [] = (v, b, out)" using prod_cases3 by blast
  have p: "\<forall>x\<in>set prog. unat x < 2 ^ 8" using unsigned_less [where 'a = nat and 'b = 8] by auto
  have o: "\<forall>y\<in>set out. unat y < 2 ^ 5" "flat 5 out @ bits_of b v = flat 8 prog" "b < 5"
    using convert_loop_eq [OF _ _ _ p _ c] by (auto simp: bits_of_def)
  have l: "5 * length out + b = 8 * length prog" using arg_cong [OF o(2), of length] by (simp add: flat_length)
  show ?thesis
  proof (cases "b = 0")
    case True
    then have "data = out" using assms c by (simp add: convert_bits_def)
    then show ?thesis using o l True by (simp add: bits_of_def)
  next
    case False
    let ?y = "ucast (push_bit (5 - b) v AND (push_bit 5 1 - 1)) :: u8"
    have data: "data = out @ [?y]" using assms c False by (simp add: convert_bits_def Let_def)
    have y: "unat ?y < 2 ^ 5" "bits_of 5 ?y = bits_of 5 (push_bit (5 - b) v)" by (rule masked_group; simp)+
    have "bits_of 5 (push_bit (5 - b) v) = bits_of b (drop_bit (5 - b) (push_bit (5 - b) v)) @ bits_of (5 - b) (push_bit (5 - b) v)"
      using bits_of_add [of b "5 - b"] o(3) by simp
    also have "\<dots> = bits_of b v @ replicate (5 - b) False"
    proof -
      have "bits_of b (drop_bit (5 - b) (push_bit (5 - b) v)) = bits_of b v" using o(3) by (auto simp: bits_of_def bit_simps)
      moreover have "bits_of (5 - b) (push_bit (5 - b) v) = replicate (5 - b) False" by (rule nth_equalityI) (auto simp: bits_of_nth bit_push_bit_iff)
      ultimately show ?thesis by simp
    qed
    finally have "flat 5 data = flat 8 prog @ replicate (5 - b) False" using data o(2) y(2) by (simp flip: append_assoc)
    then show ?thesis using data o l y(1) False by auto
  qed
qed

lemma convert_bits_5_8:
  assumes "\<forall>d\<in>set data. unat d < 32" "flat 5 data = flat 8 prog @ replicate j False" "j < 5"
  shows "convert_bits 8 data 5 False = Some prog"
proof -
  obtain v b out where c: "convert_loop 8 5 data 0 0 [] = (v, b, out)" using prod_cases3 by blast
  have d: "\<forall>x\<in>set data. unat x < 2 ^ 5" using assms(1) by simp
  have o: "flat 8 out @ bits_of b v = flat 8 prog @ replicate j False" "b < 8"
    using convert_loop_eq [OF _ _ _ d _ c] assms(2) by (auto simp: bits_of_def)
  have l: "8 * length out + b = 8 * length prog + j" using arg_cong [OF o(1), of length] by (simp add: flat_length)
  then have "length out = length prog" "b = j" using o(2) assms(3) by presburger+
  then have f: "flat 8 out = flat 8 prog" "bits_of b v = replicate j False"
    using o(1) by (auto simp: append_eq_append_conv flat_length)
  have v: "\<not> bit v i" if "i < b" for i
    using arg_cong [OF f(2), of "\<lambda>bs. bs ! (b - 1 - i)"] that \<open>b = j\<close> by (simp add: bits_of_nth)
  have m: "push_bit 8 1 - 1 = (mask 8 :: u32)" by (simp add: mask_eq_exp_minus_1)
  have "push_bit (8 - b) v AND (push_bit 8 1 - 1) = 0"
    unfolding m take_bit_eq_mask [symmetric] using v o(2) by (intro bit_word_eqI) (auto simp: bit_simps)
  then show ?thesis
    using c flat_8_inj [OF f(1)] \<open>b = j\<close> assms(3) by (simp add: convert_bits_def Let_def)
qed

lemma segwit_addr_encode_Some:
  assumes "list_all (\<lambda>c. hrp_char c \<and> \<not> is_upper c) hrp" "length hrp \<le> 18" "0 \<le> witver" "witver \<le> 16"
    and "2 \<le> length witprog" "length witprog \<le> 40" "witver = 0 \<longrightarrow> length witprog = 20 \<or> length witprog = 32"
  shows "\<exists>addr. segwit_addr_encode hrp witver witprog = Some addr"
proof -
  obtain data where data: "convert_bits 5 witprog 8 True = Some data"
    by (cases "convert_loop 5 8 witprog 0 0 []") (auto simp: convert_bits_def Let_def)
  note c = convert_bits_8_5 [OF data]
  have "uint (of_int witver :: u8) = witver" using assms(3,4) by (simp add: uint_word_of_int take_bit_int_eq_self)
  then have "(of_int witver :: u8) < 32" using assms(4) by (simp add: word_less_def)
  then have "list_all (\<lambda>d. drop_bit 5 d = 0) (of_int witver # data)" using c by (simp add: list_all_iff five_bits word_less_nat_alt)
  then show ?thesis
    using data c assms by (auto simp: segwit_addr_encode_def bech32_encode_def Let_def)
qed

lemma segwit_addr_inverse:
  assumes "segwit_addr_encode hrp witver witprog = Some addr" "hrp \<noteq> []" "0 \<le> witver"
  shows "segwit_addr_decode hrp addr = Some (witver, witprog)"
proof -
  let ?enc = "if witver > 0 then BECH32_ENCODING_BECH32M else BECH32_ENCODING_BECH32"
  obtain data where data: "convert_bits 5 witprog 8 True = Some data" and e: "bech32_encode hrp (of_int witver # data) ?enc = Some addr"
    and ver: "witver \<le> 16" and len: "2 \<le> length witprog" "length witprog \<le> 40" and v0: "witver = 0 \<longrightarrow> length witprog = 20 \<or> length witprog = 32"
    using assms(1) by (auto simp: segwit_addr_encode_def split: if_splits option.splits)
  note c = convert_bits_8_5 [OF data]
  have "5 * length data - 8 * length witprog < 5" using c by presburger
  then have d: "convert_bits 8 data 5 False = Some witprog" using c by (intro convert_bits_5_8) auto
  have u: "uint (of_int witver :: u8) = witver" using ver assms(3) by (simp add: uint_word_of_int take_bit_int_eq_self)
  have w: "(of_int witver :: u8) \<le> 16" "(of_int witver :: u8) = 0 \<longleftrightarrow> witver = 0"
    using u ver by (auto simp: word_le_def)
  have "length data \<le> 64" using c len(2) by simp
  moreover have "bech32_decode addr = Some (?enc, hrp, of_int witver # data)"
    using e assms(2) by (intro bech32_decode_encode) auto
  ultimately show ?thesis
    using d u w len v0 assms(3) by (auto simp: segwit_addr_decode_def word_gt_0 not_less)
qed

text \<open>C26: Decoding an address gives back the witness version and program that it was made from, for
  every prefix that is not empty.\<close>
theorem segwit_addr_roundtrip:
  assumes "segwit_addr_encode hrp witver witprog = Some addr" "hrp \<noteq> []" "0 \<le> witver"
  shows "segwit_addr_decode hrp addr = Some (witver, witprog)"
  using assms by (rule segwit_addr_inverse)

theorem segwit_addr_roundtrip_witness:
  "\<exists>addr. segwit_addr_encode [115, 121, 115] 0 (replicate 20 7) = Some addr \<and>
     segwit_addr_decode [115, 121, 115] addr = Some (0, replicate 20 7)"
proof -
  obtain addr where "segwit_addr_encode [115, 121, 115] 0 (replicate 20 7) = Some addr"
    using segwit_addr_encode_Some [of "[115, 121, 115]" 0 "replicate 20 7"] by (auto simp: hrp_char_def is_upper_def ch_def)
  then show ?thesis using segwit_addr_roundtrip [of "[115, 121, 115]" 0 "replicate 20 7" addr] by simp
qed

end
