(* ===== verification/Address.thy ===== *)
theory Address
  imports Base58 Script Segwit_Addr Crypto_Hash
begin

text \<open>
  The address of an output script: \<open>base58_encode_address\<close> and the checksum of \<open>src/crypto.c\<close>,
  \<open>get_script_address\<close> of \<open>src/common/script.c\<close>, and the constants of the two coins that the
  \<open>Makefile\<close> builds the application for. The theory shows that the address on the screen determines
  the output script.
\<close>

record coin =
  BIP32_PUBKEY_VERSION :: u32
  BIP44_COIN_TYPE :: u32
  COIN_P2PKH_VERSION :: u32
  COIN_P2SH_VERSION :: u32
  COIN_NATIVE_SEGWIT_PREFIX :: bytes
  COIN_COINID_SHORT :: bytes

definition syscoin_test :: coin where
  "syscoin_test =
    \<lparr>BIP32_PUBKEY_VERSION = 0x043587CF, BIP44_COIN_TYPE = 1, COIN_P2PKH_VERSION = 111, COIN_P2SH_VERSION = 196,
     COIN_NATIVE_SEGWIT_PREFIX = str ''tb'', COIN_COINID_SHORT = str ''TEST''\<rparr>"

definition syscoin :: coin where
  "syscoin =
    \<lparr>BIP32_PUBKEY_VERSION = 0x0488B21E, BIP44_COIN_TYPE = 57, COIN_P2PKH_VERSION = 63, COIN_P2SH_VERSION = 5,
     COIN_NATIVE_SEGWIT_PREFIX = str ''sys'', COIN_COINID_SHORT = str ''SYS''\<rparr>"

definition crypto_get_checksum :: "hash_fns \<Rightarrow> bytes \<Rightarrow> bytes" where
  "crypto_get_checksum hf inp = take 4 (cx_hash_sha256 hf (cx_hash_sha256 hf inp))"

text \<open>The array \<open>in\<close> has 20 bytes. \<open>None\<close> is a negative result.\<close>

definition base58_encode_address :: "hash_fns \<Rightarrow> bytes \<Rightarrow> u32 \<Rightarrow> nat \<Rightarrow> bytes option" where
  "base58_encode_address hf inp version out_len =
     (let tmp = (if version < 256 then [ucast version]
                 else if version < 65536 then write_u16_be (replicate 2 0) 0 (ucast version)
                 else write_u32_be (replicate 4 0) 0 version);
          tmp = tmp @ take 20 inp;
          tmp = tmp @ crypto_get_checksum hf tmp
      in base58_encode tmp out_len)"

definition get_script_address :: "coin \<Rightarrow> hash_fns \<Rightarrow> bytes \<Rightarrow> size_t \<Rightarrow> bytes option" where
  "get_script_address coin hf script out_len =
     (case get_script_type script of
        None \<Rightarrow> None
      | Some script_type \<Rightarrow>
          if script_type = SCRIPT_TYPE_P2PKH \<or> script_type = SCRIPT_TYPE_P2SH then
            let offset = (if script_type = SCRIPT_TYPE_P2PKH then 3 else 2);
                ver = (if script_type = SCRIPT_TYPE_P2PKH then COIN_P2PKH_VERSION coin else COIN_P2SH_VERSION coin)
            in base58_encode_address hf (drop offset script) ver (unat (out_len - 1))
          else
            let prog_len = unat (script ! 1);
                version = (if script ! 0 = 0 then 0 else uint (script ! 0) - 80)
            in if out_len < 73 + of_nat (length (COIN_NATIVE_SEGWIT_PREFIX coin)) then None
               else segwit_addr_encode (COIN_NATIVE_SEGWIT_PREFIX coin) version (take prog_len (drop 2 script)))"

section \<open>Codecs\<close>

text \<open>An encoder that may fail, and a decoder that undoes it on a part of its domain.\<close>

locale text_codec =
  fixes dom :: "'a \<Rightarrow> bool" and enc :: "'a \<Rightarrow> 'b option" and dec :: "'b \<Rightarrow> 'a option"
  assumes dec_enc: "dom x \<Longrightarrow> enc x = Some e \<Longrightarrow> dec e = Some x"
begin

lemma enc_inj: "enc x = Some e \<Longrightarrow> enc y = Some e \<Longrightarrow> dom x \<Longrightarrow> dom y \<Longrightarrow> x = y"
  by (metis dec_enc option.inject)

end

lemma base58_encode_digits:
  assumes "base58_encode x n = Some e" "length x \<le> 120"
  obtains z ds bs where "x = replicate z 0 @ bs" "no_lead bs" "base58_ok ds" "no_lead ds"
    "radix_value 58 ds = radix_value 256 bs" "e = map alphabet (replicate z 0 @ ds)" "length bs \<le> length ds" "length e \<le> n"
proof -
  define z where "z = length (takeWhile (\<lambda>d. d = 0) x)"
  define bs where "bs = dropWhile (\<lambda>d. d = 0) x"
  have x: "x = replicate z 0 @ bs"
    unfolding z_def bs_def by (rule strip_zeros)
  have nl: "no_lead bs" "z + length bs \<le> 120"
    using assms(2) arg_cong [OF x, of length] by (simp_all add: bs_def)
  obtain ds where ds: "base58_ok ds" "no_lead ds" "radix_value 58 ds = radix_value 256 bs"
    and enc: "base58_encode x n = (if z + length ds \<le> n then Some (map alphabet (replicate z 0 @ ds)) else None)"
    using base58_encode_eq [OF nl] x by metis
  have "length bs \<le> length ds"
  proof (cases "bs = []")
    case False
    have "256 ^ (length bs - 1) \<le> radix_value 256 bs" using radix_value_lead [OF nl(1) False] .
    also have "\<dots> < 58 ^ length ds" unfolding ds(3) [symmetric] using ds(1) by (intro radix_value_less) (simp add: base58_ok_def)
    also have "(58 :: nat) ^ length ds \<le> 256 ^ length ds" by (intro power_mono) simp_all
    finally have "length bs - 1 < length ds" by (simp add: power_strict_increasing_iff)
    then show ?thesis by linarith
  qed simp
  then show ?thesis using that [OF x nl(1) ds] enc assms(1) by (auto split: if_splits)
qed

interpretation b58: text_codec "\<lambda>x. 2 \<le> length x \<and> length x \<le> 120" "\<lambda>x. base58_encode x n" "\<lambda>e. base58_decode e 120" for n
proof (unfold_locales, goal_cases)
  case (1 x e)
  from 1(2) obtain z ds bs where "x = replicate z 0 @ bs" "e = map alphabet (replicate z 0 @ ds)"
    "length bs \<le> length ds" "length e \<le> n"
    using 1(1) by (elim base58_encode_digits) auto
  then show ?case using base58_inverse [of x 120 e n] 1 by simp
qed

interpretation sgw: text_codec "\<lambda>(v, p). hrp \<noteq> [] \<and> 0 \<le> v" "\<lambda>(v, p). segwit_addr_encode hrp v p" "segwit_addr_decode hrp" for hrp
  by unfold_locales (auto intro: segwit_addr_inverse)

section \<open>Addresses determine scripts\<close>

lemma base58_first_char:
  assumes "base58_encode (v # y) n = Some e" "length y = 24" "v \<noteq> 0"
    and "c * 58 ^ k \<le> unat v * 256 ^ 24" "(unat v + 1) * 256 ^ 24 \<le> d * 58 ^ k" "1 \<le> c" "d \<le> 58"
  shows "\<exists>i. c \<le> unat i \<and> unat i < d \<and> e \<noteq> [] \<and> hd e = alphabet i"
proof -
  have "length (v # y) \<le> 120" using assms(2) by simp
  from assms(1) this obtain z ds bs where x: "v # y = replicate z 0 @ bs" "no_lead bs" "base58_ok ds" "no_lead ds"
    "radix_value 58 ds = radix_value 256 bs" "e = map alphabet (replicate z 0 @ ds)"
    by (elim base58_encode_digits)
  have "z = 0" using x(1) assms(3) by (cases z) auto
  then have bs: "bs = v # y" using x(1) by simp
  have val: "unat v * 256 ^ 24 \<le> radix_value 58 ds" "radix_value 58 ds < (unat v + 1) * 256 ^ 24"
    using radix_value_less [of y 256] assms(2) x(5) by (simp_all add: bs bytes_less_256)
  have ne: "ds \<noteq> []" using val(1) assms(4,6) by (cases ds) auto
  then obtain i js where ds: "ds = i # js" by (cases ds) auto
  have i: "unat i < 58" "i \<noteq> 0" "radix_value 58 js < 58 ^ length js"
    using x(3,4) radix_value_less [of js 58] by (auto simp: ds base58_ok_def no_lead_def)
  have lo: "58 ^ length js \<le> radix_value 58 ds" using radix_value_lead [OF x(4) ne] by (simp add: ds)
  have hi: "radix_value 58 ds < 58 ^ Suc (length js)" using radix_value_less [of ds 58] x(3) by (simp add: ds base58_ok_def)
  have "(58::nat) ^ k \<le> c * 58 ^ k" using assms(6) by simp
  then have "(58::nat) ^ k < 58 ^ Suc (length js)" using assms(4) val(1) hi by linarith
  moreover have "d * 58 ^ k \<le> (58::nat) ^ Suc k" using assms(7) by simp
  then have "(58::nat) ^ length js < 58 ^ Suc k" using assms(5) val(2) lo by linarith
  ultimately have len: "length js = k" by (simp only: power_strict_increasing_iff)
  have "radix_value 58 ds = unat i * 58 ^ k + radix_value 58 js" by (simp add: ds len)
  then have "c * 58 ^ k < unat i * 58 ^ k + 58 ^ k" "unat i * 58 ^ k < d * 58 ^ k"
    using assms(4,5) val i(3) unfolding len by linarith+
  then have "c * 58 ^ k < (unat i + 1) * 58 ^ k" "unat i < d" by (simp_all add: algebra_simps)
  then have "c \<le> unat i" "unat i < d" by (simp_all only: mult_less_cancel2 less_Suc_eq_le Suc_eq_plus1 [symmetric])
  then show ?thesis using x(6) \<open>z = 0\<close> by (intro exI [of _ i]) (simp add: ds)
qed

lemma segwit_shape:
  assumes "get_script_type s = Some t" "t \<noteq> SCRIPT_TYPE_P2PKH" "t \<noteq> SCRIPT_TYPE_P2SH"
  shows "length s = 2 + unat (s ! 1) \<and> s = (s ! 0) # (s ! 1) # drop 2 s \<and> (s ! 0 = 0 \<or> OP_1 \<le> s ! 0 \<and> s ! 0 \<le> OP_16)"
proof -
  have "length s = 2 + unat (s ! 1)" "s ! 0 = 0 \<or> OP_1 \<le> s ! 0 \<and> s ! 0 \<le> OP_16"
    using assms by (auto simp: get_script_type_def Let_def split: if_splits)
  then show ?thesis using Cons_nth_drop_Suc [of 0 s] Cons_nth_drop_Suc [of 1 s] by (simp add: numeral_2_eq_2)
qed

lemma hd_segwit: "segwit_addr_encode hrp v p = Some e \<Longrightarrow> hrp \<noteq> [] \<Longrightarrow> hd e = hd hrp"
  by (auto simp: segwit_addr_encode_def bech32_encode_def Let_def split: if_splits option.splits)


definition is_base58_script :: "bytes \<Rightarrow> bool" where
  "is_base58_script s \<longleftrightarrow> get_script_type s = Some SCRIPT_TYPE_P2PKH \<or> get_script_type s = Some SCRIPT_TYPE_P2SH"

definition base58_payload :: "coin \<Rightarrow> bytes \<Rightarrow> bytes" where
  "base58_payload coin s =
     (if get_script_type s = Some SCRIPT_TYPE_P2PKH then ucast (COIN_P2PKH_VERSION coin) # take 20 (drop 3 s)
      else ucast (COIN_P2SH_VERSION coin) # take 20 (drop 2 s))"

lemma base58_payload_length: "is_base58_script s \<Longrightarrow> length (base58_payload coin s) = 21"
  using get_script_type_iff [of s] by (auto simp: base58_payload_def is_base58_script_def)

lemma base58_script_inj:
  assumes "is_base58_script s" "is_base58_script s'" "base58_payload coin s = base58_payload coin s'"
    and "coin = syscoin \<or> coin = syscoin_test"
  shows "s = s'"
proof -
  have v: "(ucast (COIN_P2PKH_VERSION coin) :: u8) \<noteq> ucast (COIN_P2SH_VERSION coin)"
    using assms(4) by (auto simp: syscoin_def syscoin_test_def)
  note forms = get_script_type_iff [of s] get_script_type_iff [of s']
  show ?thesis
  proof (cases "get_script_type s = Some SCRIPT_TYPE_P2PKH")
    case True
    then have "get_script_type s' = Some SCRIPT_TYPE_P2PKH"
      using v assms(3) by (auto simp: base58_payload_def split: if_splits)
    moreover from this have "take 20 (drop 3 s) = take 20 (drop 3 s')" using True assms(3) by (simp add: base58_payload_def)
    moreover obtain h h' where "length h = 20" "s = [OP_DUP, OP_HASH160, 0x14] @ h @ [OP_EQUALVERIFY, OP_CHECKSIG]"
      "length h' = 20" "s' = [OP_DUP, OP_HASH160, 0x14] @ h' @ [OP_EQUALVERIFY, OP_CHECKSIG]"
      using True calculation(1) forms by blast
    ultimately show ?thesis by simp
  next
    case False
    then have sh: "get_script_type s = Some SCRIPT_TYPE_P2SH" using assms(1) by (simp add: is_base58_script_def)
    then have "get_script_type s' = Some SCRIPT_TYPE_P2SH"
      using v assms(2,3) by (auto simp: base58_payload_def is_base58_script_def)
    moreover from this have "take 20 (drop 2 s) = take 20 (drop 2 s')" using sh assms(3) by (simp add: base58_payload_def)
    moreover obtain h h' where "length h = 20" "s = [OP_HASH160, 0x14] @ h @ [OP_EQUAL]"
      "length h' = 20" "s' = [OP_HASH160, 0x14] @ h' @ [OP_EQUAL]"
      using sh calculation(1) forms by blast
    ultimately show ?thesis by simp
  qed
qed

lemma get_script_address_base58:
  assumes "is_base58_script s" "coin = syscoin \<or> coin = syscoin_test"
  shows "get_script_address coin hf s n =
    base58_encode (base58_payload coin s @ crypto_get_checksum hf (base58_payload coin s)) (unat (n - 1))"
  using assms by (auto simp: is_base58_script_def get_script_address_def base58_encode_address_def base58_payload_def
    syscoin_def syscoin_test_def Let_def)

lemma get_script_address_segwit:
  assumes "get_script_address coin hf s n = Some a" "\<not> is_base58_script s"
  shows "\<exists>v. segwit_addr_encode (COIN_NATIVE_SEGWIT_PREFIX coin) v (drop 2 s) = Some a \<and> 0 \<le> v \<and>
    v = (if s ! 0 = 0 then 0 else uint (s ! 0) - 80) \<and> length s = 2 + unat (s ! 1) \<and>
    s = (s ! 0) # (s ! 1) # drop 2 s \<and> (s ! 0 = 0 \<or> OP_1 \<le> s ! 0)"
proof -
  obtain t where t: "get_script_type s = Some t" "t \<noteq> SCRIPT_TYPE_P2PKH" "t \<noteq> SCRIPT_TYPE_P2SH"
    using assms by (auto simp: get_script_address_def is_base58_script_def split: option.splits)
  note sh = segwit_shape [OF t]
  then have "s ! 0 = 0 \<or> 81 \<le> uint (s ! 0)" by (auto simp: word_le_def)
  then show ?thesis using assms t sh by (auto simp: get_script_address_def Let_def split: if_splits)
qed

lemma prefix_not_base58:
  assumes "coin = syscoin \<or> coin = syscoin_test" "is_base58_script s" "get_script_address coin hf s n = Some a"
    and "\<forall>x. length (cx_hash_sha256 hf x) = 32"
  shows "a \<noteq> [] \<and> hd a \<noteq> hd (COIN_NATIVE_SEGWIT_PREFIX coin)"
proof -
  let ?p = "base58_payload coin s"
  obtain v y where p: "?p = v # y" "length y = 20"
    using base58_payload_length [OF assms(2), of coin] by (cases ?p) auto
  have e: "base58_encode (v # (y @ crypto_get_checksum hf ?p)) (unat (n - 1)) = Some a"
    using get_script_address_base58 [OF assms(2,1)] assms(3) p(1) by simp
  have len: "length (y @ crypto_get_checksum hf ?p) = 24"
    using p(2) assms(4) by (simp add: crypto_get_checksum_def)
  note f = base58_first_char [OF e len]
  consider "coin = syscoin" "v = 63" | "coin = syscoin" "v = 5" | "coin = syscoin_test" "v = 111" | "coin = syscoin_test" "v = 196"
    using p(1) assms(1) by (auto simp: base58_payload_def syscoin_def syscoin_test_def split: if_splits)
  then obtain i where i: "a \<noteq> []" "hd a = BASE58_ALPHABET ! i"
      "coin = syscoin \<and> (i = 25 \<or> i = 2) \<or> coin = syscoin_test \<and> (i = 44 \<or> i = 45 \<or> i = 1)"
  proof cases
    case 1
    then show ?thesis using f [of 25 33 26] that by (auto simp: alphabet_def)
  next
    case 2
    then show ?thesis using f [of 2 33 3] that by (auto simp: alphabet_def)
  next
    case 3
    then obtain i where "44 \<le> unat i" "unat i < 46" "a \<noteq> []" "hd a = alphabet i" using f [of 44 33 46] by auto
    moreover from this have "unat i = 44 \<or> unat i = 45" by linarith
    ultimately show ?thesis using that 3 by (auto simp: alphabet_def)
  next
    case 4
    then show ?thesis using f [of 1 34 2] that by (auto simp: alphabet_def)
  qed
  then show ?thesis by (auto simp: syscoin_def syscoin_test_def alphabet_bytes str_def ch_def)
qed



lemma base58_addresses_inj:
  assumes "is_base58_script s" "is_base58_script s'" "coin = syscoin \<or> coin = syscoin_test"
    and "get_script_address coin hf s n = Some a" "get_script_address coin hf s' n' = Some a"
  shows "s = s'"
proof -
  let ?x = "\<lambda>r. base58_payload coin r @ crypto_get_checksum hf (base58_payload coin r)"
  have dec: "base58_decode a 120 = Some (?x r)" if "is_base58_script r" "get_script_address coin hf r m = Some a" for r m
    using that base58_payload_length [OF that(1), of coin] get_script_address_base58 [OF that(1) assms(3), of hf m]
    by (intro b58.dec_enc) (auto simp: crypto_get_checksum_def)
  have "?x s = ?x s'" using dec [OF assms(1,4)] dec [OF assms(2,5)] by simp
  then show ?thesis
    using base58_payload_length [of _ coin] assms(1-3) by (intro base58_script_inj [of s s' coin]) simp_all
qed

lemma segwit_addresses_inj:
  assumes "\<not> is_base58_script s" "\<not> is_base58_script s'" "COIN_NATIVE_SEGWIT_PREFIX coin \<noteq> []"
    and "get_script_address coin hf s n = Some a" "get_script_address coin hf s' n' = Some a"
  shows "s = s'"
proof -
  let ?v = "\<lambda>r. if r ! 0 = (0::u8) then 0 else uint (r ! 0) - 80"
  have d: "segwit_addr_decode (COIN_NATIVE_SEGWIT_PREFIX coin) a = Some (?v r, drop 2 r) \<and> length r = 2 + unat (r ! 1) \<and>
      r = (r ! 0) # (r ! 1) # drop 2 r \<and> (r ! 0 = 0 \<or> 81 \<le> uint (r ! 0))"
    if "get_script_address coin hf r m = Some a" "\<not> is_base58_script r" for r m
    using get_script_address_segwit [OF that] assms(3) segwit_addr_inverse [of "COIN_NATIVE_SEGWIT_PREFIX coin" "?v r" "drop 2 r" a]
    by (auto simp: word_le_def)
  have "?v s = ?v s'" "drop 2 s = drop 2 s'" using d [OF assms(4,1)] d [OF assms(5,2)] by simp_all
  moreover from this have "s ! 0 = s' ! 0" using d [OF assms(4,1)] d [OF assms(5,2)] by (auto simp: word_uint_eq_iff [symmetric] split: if_splits)
  moreover have "length s - 2 = length s' - 2" using calculation(2) by (metis length_drop)
  then have "unat (s ! 1) = unat (s' ! 1)" using d [OF assms(4,1)] d [OF assms(5,2)] by linarith
  then have "s ! 1 = s' ! 1" by (simp only: word_unat_eq_iff)
  ultimately show ?thesis using d [OF assms(4,1)] d [OF assms(5,2)] by metis
qed

text \<open>C4: The address that the device shows determines the output script: for the two coins of the
  application, two scripts with the same address, computed with output arrays of any size, are equal.
  This relies on SHA-256 returning 32 bytes, not on its security.\<close>

theorem get_script_address_injective:
  assumes "coin = syscoin \<or> coin = syscoin_test" "\<forall>x. length (cx_hash_sha256 hf x) = 32"
    and "get_script_address coin hf s n = Some a" "get_script_address coin hf s' n' = Some a"
  shows "s = s'"
proof -
  have pre: "COIN_NATIVE_SEGWIT_PREFIX coin \<noteq> []" using assms(1) by (auto simp: syscoin_def syscoin_test_def str_def)
  have mixed: False if "is_base58_script r" "get_script_address coin hf r m = Some a" "get_script_address coin hf r' m' = Some a"
    "\<not> is_base58_script r'" for r m r' m'
    using prefix_not_base58 [OF assms(1) that(1,2) assms(2)] get_script_address_segwit [OF that(3,4)] hd_segwit [OF _ pre] by metis
  show ?thesis
    using mixed assms(3,4) base58_addresses_inj [OF _ _ assms(1,3,4)] segwit_addresses_inj [OF _ _ pre assms(3,4)] by blast
qed

definition zero_hashes :: hash_fns where
  "zero_hashes = \<lparr>cx_hash_sha256 = \<lambda>x. replicate 32 0, cx_hash_ripemd160 = \<lambda>x. replicate 20 0\<rparr>"

lemma p2wpkh_address:
  assumes "length h = 20" "coin = syscoin \<or> coin = syscoin_test"
  shows "\<exists>a. get_script_address coin hf ([0, 0x14] @ h) 80 = Some a"
proof -
  have "get_script_type ([0, 0x14] @ h) = Some SCRIPT_TYPE_P2WPKH" using assms(1) by (simp add: get_script_type_iff)
  moreover have "\<exists>a. segwit_addr_encode (COIN_NATIVE_SEGWIT_PREFIX coin) 0 h = Some a"
    using assms by (intro segwit_addr_encode_Some) (auto simp: syscoin_def syscoin_test_def str_def ch_def hrp_char_def is_upper_def)
  ultimately show ?thesis
    using assms by (auto simp: get_script_address_def syscoin_def syscoin_test_def str_def)
qed

theorem get_script_address_injective_witness:
  "\<exists>a. get_script_address syscoin zero_hashes ([0, 0x14] @ replicate 20 7) 80 = Some a \<and>
     (\<forall>s n. get_script_address syscoin zero_hashes s n = Some a \<longrightarrow> s = [0, 0x14] @ replicate 20 7)"
proof -
  obtain a where a: "get_script_address syscoin zero_hashes ([0, 0x14] @ replicate 20 7) 80 = Some a"
    using p2wpkh_address [of "replicate 20 7" syscoin zero_hashes] by auto
  have "\<forall>x. length (cx_hash_sha256 zero_hashes x) = 32" by (simp add: zero_hashes_def)
  note inj = get_script_address_injective [OF disjI1 [OF refl] this _ a]
  show ?thesis using a inj by blast
qed

end
