(* ===== verification/Text_Format.thy ===== *)
theory Text_Format
  imports Wallet_Lex "HOL-Library.Signed_Division"
begin

text \<open>
  Numbers and bytes as text (\<open>src/common/format.c\<close>), the amounts that the screens show
  (\<open>src/ui/display_utils.c\<close>), and the conversion of amounts for the exchange application
  (\<open>src/swap/btchip_bcd.c\<close>).

  An output array is the list of its bytes. \<open>None\<close> stands for a write outside the array.
\<close>

section \<open>Model\<close>

definition put :: "nat \<Rightarrow> u8 \<Rightarrow> bytes \<Rightarrow> bytes option" where
  "put i c out = (if i < length out then Some (out[i := c]) else None)"

definition put_all :: "nat \<Rightarrow> bytes \<Rightarrow> bytes \<Rightarrow> bytes option" where
  "put_all i cs out = (if i + length cs \<le> length out then Some (splice out i cs) else None)"

text \<open>\<open>strncpy\<close> of a string without its terminator; \<open>strlen\<close> of an array that has one.\<close>

definition strncpy :: "nat \<Rightarrow> bytes \<Rightarrow> nat \<Rightarrow> bytes \<Rightarrow> bytes option" where
  "strncpy i src n out = put_all i (take n (src @ replicate n 0)) out"

definition strlen :: "bytes \<Rightarrow> nat" where
  "strlen s = length (takeWhile (\<lambda>c. c \<noteq> 0) s)"

subsection \<open>Numbers and hexadecimal text\<close>

function i64_digits :: "int \<Rightarrow> int \<Rightarrow> bytes" where
  "i64_digits num sign = (if num \<noteq> 0 then of_int (48 + (num smod 10) * sign) # i64_digits (num sdiv 10) sign else [])"
  by pat_completeness auto

termination
  by (relation "measure (\<lambda>(num, sign). nat \<bar>num\<bar>)") (auto simp: signed_divide_int_def abs_mult sgn_if)

declare i64_digits.simps [simp del]

definition format_i64 :: "bytes \<Rightarrow> 64 word \<Rightarrow> (bool \<times> bytes) option" where
  "format_i64 dst v =
     (let num = sint v;
          sign = (if num < 0 then - 1 else 1);
          temp = i64_digits num sign;
          temp = (if num < 0 then temp @ [ch CHR ''-''] else if num = 0 then temp @ [ch CHR ''0''] else temp);
          distance = int (length temp) + 1
      in if sint (of_nat (length dst) :: u32) < distance then Some (False, dst)
         else map_option (\<lambda>dst. (True, dst)) (put_all 0 (rev temp @ [0]) dst))"

text \<open>The first loop of \<open>format_u64\<close>, with its index; the second one exchanges digits from both ends.\<close>

function u64_digits :: "nat \<Rightarrow> nat \<Rightarrow> u64 \<Rightarrow> bytes \<Rightarrow> (bool \<times> nat \<times> u64 \<times> bytes) option" where
  "u64_digits outLen i v out =
     (if v > 9 then do {
        out \<leftarrow> put i (ucast (v mod 10 + 48)) out;
        if i + 2 > outLen then Some (False, i + 1, v div 10, out)
        else u64_digits outLen (i + 1) (v div 10) out
      } else Some (True, i, v, out))"
  by pat_completeness auto

termination
  by (relation "measure (\<lambda>(outLen, i, v, out). unat v)") (auto simp: word_less_nat_alt unat_div)

declare u64_digits.simps [simp del]

function swap_loop :: "nat \<Rightarrow> nat \<Rightarrow> bytes \<Rightarrow> bytes" where
  "swap_loop j i out = (if j < i then swap_loop (j + 1) (i - 1) (out[j := out ! i, i := out ! j]) else out)"
  by pat_completeness auto

termination
  by (relation "measure (\<lambda>(j, i, out). i)") auto

declare swap_loop.simps [simp del]

definition format_u64 :: "bytes \<Rightarrow> u64 \<Rightarrow> (bool \<times> bytes) option" where
  "format_u64 out v =
     (if length out = 0 then Some (False, out)
      else do {
        (ok, i, v, out) \<leftarrow> u64_digits (length out - 1) 0 v out;
        if \<not> ok then Some (False, out)
        else do {
          out \<leftarrow> put i (ucast (v + 48)) out;
          out \<leftarrow> put (i + 1) 0 out;
          Some (True, swap_loop 0 i out)
        }
      })"

definition format_fpu64 :: "bytes \<Rightarrow> u64 \<Rightarrow> u8 \<Rightarrow> (bool \<times> bytes) option" where
  "format_fpu64 dst v decimals = do {
     (ok, buffer) \<leftarrow> format_u64 (replicate 21 0) v;
     if \<not> ok then Some (False, dst)
     else let digits = strlen buffer; decimals = unat decimals in
       if digits \<le> decimals then
         (if length dst \<le> 2 + decimals - digits then Some (False, dst)
          else do {
            dst \<leftarrow> put_all 0 ([ch CHR ''0'', ch CHR ''.''] @ replicate (decimals - digits) (ch CHR ''0'')) dst;
            dst \<leftarrow> strncpy (2 + decimals - digits) (take digits buffer) (length dst - (2 + decimals - digits)) dst;
            Some (True, dst)
          })
       else
         (if length dst \<le> digits + 1 + decimals then Some (False, dst)
          else do {
            let shift = digits - decimals;
            dst \<leftarrow> put_all 0 (take shift buffer) dst;
            dst \<leftarrow> put shift (ch CHR ''.'') dst;
            dst \<leftarrow> strncpy (shift + 1) (take decimals (drop shift buffer)) decimals dst;
            Some (True, dst)
          })
   }"

definition hex_digits :: bytes where
  "hex_digits = [48, 49, 50, 51, 52, 53, 54, 55, 56, 57, 97, 98, 99, 100, 101, 102]"

text \<open>The first argument of the loop is what is left of the input; the result has the number of characters.\<close>

primrec hex_loop :: "bytes \<Rightarrow> nat \<Rightarrow> bytes \<Rightarrow> (nat \<times> bytes) option" where
  "hex_loop [] i out = Some (i, out)"
| "hex_loop (x # xs) i out =
     (if i * 2 + (2 + 1) \<le> length out then do {
        let high_nibble = drop_bit 4 (x AND 0xF0);
        out \<leftarrow> put (2 * i) (hex_digits ! unat high_nibble) out;
        let low_nibble = x AND 0x0F;
        out \<leftarrow> put (2 * i + 1) (hex_digits ! unat low_nibble) out;
        hex_loop xs (i + 1) out
      } else Some (i, out))"

definition format_hex :: "bytes \<Rightarrow> bytes \<Rightarrow> (int \<times> bytes) option" where
  "format_hex inp out =
     (if length out < 2 * length inp + 1 then Some (- 1, out)
      else do {
        (i, out) \<leftarrow> hex_loop inp 0 out;
        out \<leftarrow> put (2 * i) 0 out;
        Some (int (2 * i) + 1, out)
      })"

subsection \<open>The amounts on the screens\<close>

text \<open>Division by ten as a binary search; \<open>None\<close> is a search that does not end.\<close>

partial_function (option) div10_loop :: "u64 \<Rightarrow> u64 \<Rightarrow> u64 \<Rightarrow> u64 option" where
  [code]: "div10_loop n low high =
     (let mid = (low + high) div 2 in
      if mid * 10 > n - 10 \<and> n \<ge> mid * 10 then Some mid
      else if n < mid * 10 then div10_loop n low (mid - 1)
      else div10_loop n (mid + 1) high)"

definition div10 :: "u64 \<Rightarrow> u64 option" where
  "div10 n = (if n < 10 then Some 0 else div10_loop n 0 (0xFFFFFFFFFFFFFFFF div 10))"

primrec div10_times :: "nat \<Rightarrow> u64 \<Rightarrow> u64 option" where
  "div10_times 0 res = Some res"
| "div10_times (Suc i) res = do { res \<leftarrow> div10 res; div10_times i res }"

definition div100000000 :: "u64 \<Rightarrow> u64 option" where
  "div100000000 n = div10_times 8 n"

partial_function (option) n_digits_loop :: "nat \<Rightarrow> u64 \<Rightarrow> nat option" where
  [code]: "n_digits_loop count number = do {
     number \<leftarrow> div10 number;
     if number \<noteq> 0 then n_digits_loop (Suc count) number else Some (Suc count)
   }"

definition n_digits :: "u64 \<Rightarrow> nat option" where
  "n_digits number = n_digits_loop 0 number"

definition MAX_AMOUNT_LENGTH :: nat where
  "MAX_AMOUNT_LENGTH = 5 + 1 + 20 + 1"

text \<open>The digits of the integral part; the first argument counts the rounds that are left.\<close>

primrec integral_loop :: "nat \<Rightarrow> nat \<Rightarrow> u64 \<Rightarrow> bytes \<Rightarrow> bytes option" where
  "integral_loop 0 amount_str integral_part out = Some out"
| "integral_loop (Suc n) amount_str integral_part out = do {
     tmp_quotient \<leftarrow> div10 integral_part;
     let tmp_remainder = (ucast (integral_part - 10 * tmp_quotient) :: u8);
     out \<leftarrow> put (amount_str + n) (48 + tmp_remainder) out;
     integral_loop n amount_str tmp_quotient out
   }"

text \<open>\<open>snprintf\<close> with the format \<open>%08u\<close>: the decimal digits, with zeros up to eight characters.\<close>

fun decimal :: "nat \<Rightarrow> bytes" where
  "decimal n = (if n < 10 then [of_nat (48 + n)] else decimal (n div 10) @ [of_nat (48 + n mod 10)])"

declare decimal.simps [simp del]

definition pad8 :: "nat \<Rightarrow> bytes" where
  "pad8 n = replicate (8 - length (decimal n)) 48 @ decimal n"

text \<open>The last loop clears trailing zeros, but never the first digit at \<open>fract_part_str\<close>.\<close>

primrec trim_loop :: "nat \<Rightarrow> nat \<Rightarrow> bytes \<Rightarrow> bytes option" where
  "trim_loop fract_part_str 0 out = Some out"
| "trim_loop fract_part_str (Suc i) out =
     (if fract_part_str + Suc i < length out \<and> out ! (fract_part_str + Suc i) = ch CHR ''0''
      then do { out \<leftarrow> put (fract_part_str + Suc i) 0 out; trim_loop fract_part_str i out }
      else Some out)"

definition format_sats_amount :: "bytes \<Rightarrow> u64 \<Rightarrow> bytes \<Rightarrow> bytes option" where
  "format_sats_amount coin_name amount out = do {
     let coin_name_len = length coin_name;
     out \<leftarrow> strncpy 0 coin_name (MAX_AMOUNT_LENGTH + 1) out;
     out \<leftarrow> put coin_name_len (ch CHR '' '') out;
     let amount_str = coin_name_len + 1;
     integral_part \<leftarrow> div100000000 amount;
     let fractional_part = (ucast (amount - integral_part * 100000000) :: u32);
     integral_part_digit_count \<leftarrow> n_digits integral_part;
     out \<leftarrow> integral_loop integral_part_digit_count amount_str integral_part out;
     if fractional_part = 0 then put (amount_str + integral_part_digit_count) 0 out
     else do {
       out \<leftarrow> put (amount_str + integral_part_digit_count) (ch CHR ''.'') out;
       let fract_part_str = amount_str + integral_part_digit_count + 1;
       out \<leftarrow> put_all fract_part_str (take 8 (pad8 (unat fractional_part)) @ [0]) out;
       trim_loop fract_part_str 7 out
     }
   }"

subsection \<open>Amounts for the exchange application\<close>

definition SCRATCH_SIZE :: nat where "SCRATCH_SIZE = 21"

text \<open>One bit of the amount is shifted into the decimal digits in \<open>scratch\<close>, of which only those from \<open>smin\<close> on are in use.\<close>

definition bcd_shift :: "u16 \<Rightarrow> nat \<times> u16 list \<Rightarrow> nat \<times> u16 list" where
  "bcd_shift shifted_in st = (case st of (smin, scratch) \<Rightarrow>
     let scratch = fold (\<lambda>k s. s[k := s ! k + (if s ! k \<ge> 5 then 3 else 0)]) [smin..<SCRATCH_SIZE] scratch;
         smin = (if scratch ! smin \<ge> 8 then smin - 1 else smin);
         scratch = fold (\<lambda>k s. s[k := (push_bit 1 (s ! k) AND 0xF) OR (if s ! (k + 1) \<ge> 8 then 1 else 0)]) [smin..<SCRATCH_SIZE - 1] scratch;
         scratch = scratch[SCRATCH_SIZE - 1 := (push_bit 1 (scratch ! (SCRATCH_SIZE - 1)) AND 0x0F) OR (if shifted_in = 1 then 1 else 0)]
     in (smin, scratch))"

definition bcd_digits :: "bytes \<Rightarrow> nat \<times> u16 list" where
  "bcd_digits amount = fold (\<lambda>i. fold (\<lambda>j.
       bcd_shift (if (amount ! i AND push_bit (7 - j) 1) \<noteq> 0 then 1 else 0)) [0..<8]) [0..<8]
     (SCRATCH_SIZE - 2, replicate SCRATCH_SIZE 0)"

text \<open>The two loops that write the text; the result of the second one stops at trailing zeros.\<close>

primrec bcd_integral :: "u16 list \<Rightarrow> nat \<Rightarrow> bool \<Rightarrow> nat \<Rightarrow> bytes \<Rightarrow> bytes" where
  "bcd_integral scratch 0 nonZero offset out = out"
| "bcd_integral scratch (Suc n) nonZero offset out =
     (if \<not> nonZero \<and> scratch ! offset = 0 then bcd_integral scratch n nonZero (offset + 1) out
      else bcd_integral scratch n True (offset + 1) (out @ [ucast (scratch ! offset + 48)]))"

primrec bcd_fraction :: "u16 list \<Rightarrow> nat \<Rightarrow> bool \<Rightarrow> nat \<Rightarrow> bytes \<Rightarrow> bytes" where
  "bcd_fraction scratch 0 comma offset out = out"
| "bcd_fraction scratch (Suc n) comma offset out =
     (if \<forall>j<Suc n. scratch ! (offset + j) = 0 then out
      else bcd_fraction scratch n True (offset + 1)
        ((if comma then out else out @ [ch CHR ''.'']) @ [ucast (scratch ! offset + 48)]))"

definition btchip_convert_hex_amount_to_displayable_no_globals :: "bytes \<Rightarrow> bytes" where
  "btchip_convert_hex_amount_to_displayable_no_globals amount =
     (let scratch = snd (bcd_digits amount);
          out = bcd_integral scratch 13 False 0 [];
          out = (if out = [] then [ch CHR ''0''] else out)
      in bcd_fraction scratch 8 False 13 out)"

section \<open>Division by ten\<close>

lemma div10_loop_eq:
  assumes "10 \<le> unat n" "unat low \<le> unat n div 10" "unat n div 10 \<le> unat high" "unat high \<le> (2 ^ 64 - 1) div 10"
  shows "div10_loop n low high = Some (n div 10)"
  using assms
proof (induction "unat high - unat low" arbitrary: low high rule: less_induct)
  case less
  define mid where "mid = (low + high) div 2"
  have sum: "unat (low + high) = unat low + unat high"
    using less.prems by (subst unat_add_lem [THEN iffD1]) simp_all
  have mid: "unat mid = (unat low + unat high) div 2" by (simp add: mid_def unat_div sum)
  have m10: "unat (mid * 10) = unat mid * 10"
    using mid less.prems by (subst unat_mult_lem [THEN iffD1]) simp_all
  have n10: "unat (n - 10) = unat n - 10" using less.prems(1) by (simp add: unat_sub word_le_nat_alt)
  have unfold: "div10_loop n low high = (if mid * 10 > n - 10 \<and> n \<ge> mid * 10 then Some mid
      else if n < mid * 10 then div10_loop n low (mid - 1) else div10_loop n (mid + 1) high)"
    by (subst div10_loop.simps) (simp only: Let_def mid_def [symmetric])
  show ?case
  proof (cases "mid * 10 > n - 10 \<and> n \<ge> mid * 10")
    case True
    then have "unat n - 10 < unat mid * 10" "unat mid * 10 \<le> unat n" using m10 n10 by (simp_all add: word_less_nat_alt word_le_nat_alt)
    then have "unat mid = unat n div 10" using less.prems(1) by (intro div_nat_eqI [symmetric]) simp_all
    then show ?thesis using True unfold by (simp add: word_unat_eq_iff unat_div)
  next
    case F: False
    show ?thesis
    proof (cases "n < mid * 10")
      case True
      then have "unat n < unat mid * 10" using m10 by (simp add: word_less_nat_alt)
      moreover from this have "mid \<noteq> 0" by (auto simp: unat_eq_zero)
      then have "unat (mid - 1) = unat mid - 1" by (simp add: unat_minus_one)
      moreover have "div10_loop n low high = div10_loop n low (mid - 1)" using F True unfold by (simp only: if_False if_True)
      ultimately show ?thesis
        using mid less.prems less.hyps [of "mid - 1" low] by simp
    next
      case False
      then have "unat mid * 10 + 10 \<le> unat n" using F m10 n10 less.prems(1) by (simp add: word_less_nat_alt word_le_nat_alt)
      moreover from this have "unat (mid + 1) = unat mid + 1"
        using mid less.prems by (subst unat_add_lem [THEN iffD1]) simp_all
      moreover have "div10_loop n low high = div10_loop n (mid + 1) high" using F False unfold by (simp only: if_False)
      ultimately show ?thesis
        using mid less.prems less.hyps [of high "mid + 1"] by simp
    qed
  qed
qed

lemma div10_eq [simp]: "div10 n = Some (n div 10)"
proof (cases "n < 10")
  case True
  then have "unat n div 10 = 0" by (simp add: word_less_nat_alt)
  then show ?thesis using True by (simp add: div10_def word_unat_eq_iff unat_div)
next
  case False
  have "unat n < 2 ^ 64" using unsigned_less [of n, where 'a = nat] by simp
  then have "unat n div 10 \<le> (2 ^ 64 - 1) div 10" by (intro div_le_mono) simp
  then show ?thesis
    using False by (simp add: div10_def word_less_nat_alt div10_loop_eq)
qed

lemma div10_times_eq: "\<exists>r. div10_times k n = Some r \<and> unat r = unat n div 10 ^ k"
proof (induction k arbitrary: n)
  case (Suc k)
  then show ?case using Suc.IH [of "n div 10"] by (simp add: unat_div div_mult2_eq)
qed simp

lemma div100000000_eq [simp]: "div100000000 n = Some (n div 100000000)"
  using div10_times_eq [of 8 n] by (auto simp: div100000000_def word_unat_eq_iff unat_div)

section \<open>Decimal text\<close>

lemma decimal_length_pos: "0 < length (decimal n)"
  by (subst decimal.simps) simp

lemma n_digits_loop_eq: "n_digits_loop count n = Some (count + length (decimal (unat n)))"
proof (induction "unat n" arbitrary: n count rule: less_induct)
  case less
  show ?case
  proof (cases "unat n < 10")
    case True
    then have "n div 10 = 0" by (simp add: word_unat_eq_iff unat_div)
    then show ?thesis using True by (simp add: n_digits_loop.simps [of count n] decimal.simps [of "unat n"])
  next
    case False
    then have "0 < unat (n div 10)" "unat (n div 10) < unat n" by (simp_all add: unat_div)
    moreover from this(1) have "n div 10 \<noteq> 0" by (metis less_irrefl unat_0)
    ultimately show ?thesis
      using False less.hyps [of "n div 10"] by (auto simp: n_digits_loop.simps [of count n] decimal.simps [of "unat n"] unat_div unat_eq_zero)
  qed
qed

lemma n_digits_eq [simp]: "n_digits n = Some (length (decimal (unat n)))"
  by (simp add: n_digits_def n_digits_loop_eq)

lemma decimal_less: "n < 10 ^ k \<Longrightarrow> 0 < k \<Longrightarrow> length (decimal n) \<le> k"
proof (induction k arbitrary: n)
  case (Suc k)
  show ?case
  proof (cases "n < 10")
    case False
    then have "n div 10 < 10 ^ k" "0 < k" using Suc.prems by (auto simp: less_mult_imp_div_less mult.commute intro: Nat.gr0I)
    then show ?thesis using Suc.IH [of "n div 10"] False by (simp add: decimal.simps [of n])
  qed (simp add: decimal.simps)
qed simp

lemma digit_char: "k < 10 \<Longrightarrow> digit (of_nat (48 + k)) = k \<and> is_digit (of_nat (48 + k)) \<and> of_nat (48 + k) \<noteq> (0 :: u8)"
proof -
  assume k: "k < 10"
  have "(of_nat (48 + k) :: u8) - 48 = of_nat k" by simp
  then show ?thesis
    using k by (simp add: digit_def is_digit_def ch_def unat_of_nat word_le_nat_alt word_unat_eq_iff del: of_nat_add)
qed

lemma decimal_correct: "decimal_value (decimal n) = n \<and> (\<forall>c\<in>set (decimal n). is_digit c \<and> c \<noteq> 0)"
proof (induction n rule: decimal.induct)
  case (1 n)
  show ?case
  proof (cases "n < 10")
    case True
    then show ?thesis using digit_char [of n] by (simp add: decimal.simps [of n] decimal_value_def)
  next
    case False
    then show ?thesis
      using 1 digit_char [of "n mod 10"] by (simp add: decimal.simps [of n] decimal_value_def)
  qed
qed

lemma unat_ucast_of_nat: "(ucast (x :: u64) :: u8) = of_nat (unat x)"
  by (simp add: word_unat_eq_iff unsigned_ucast_eq take_bit_eq_mod unat_of_nat)

lemma unat_numeral_10: "unat (10 :: u64) = 10"
  by simp

lemma remainder_digit: "(48 :: u8) + ucast (v - 10 * (v div 10) :: u64) = of_nat (48 + unat v mod 10)"
proof -
  have "v - 10 * (v div 10) = v mod 10" by (simp add: minus_mult_div_eq_mod)
  then show ?thesis by (simp only: unat_ucast_of_nat unat_mod of_nat_add of_nat_numeral unat_numeral_10)
qed

lemma splice_snoc: "at + length ds < length out \<Longrightarrow> splice (out[at + length ds := d]) at ds = splice out at (ds @ [d])"
  by (simp add: splice_def drop_update_swap Cons_nth_drop_Suc [symmetric])

lemma integral_loop_eq:
  assumes "amount_str + length (decimal (unat v)) \<le> length out"
  shows "integral_loop (length (decimal (unat v))) amount_str v out = Some (splice out amount_str (decimal (unat v)))"
  using assms
proof (induction "unat v" arbitrary: v out rule: less_induct)
  case less
  show ?case
  proof (cases "unat v < 10")
    case True
    then have "v div 10 = 0" by (simp add: word_unat_eq_iff unat_div)
    moreover have "decimal (unat v) = [48 + ucast v]" using True by (subst decimal.simps) simp
    ultimately show ?thesis using less.prems by (simp add: put_def splice_def upd_conv_take_nth_drop)
  next
    case False
    let ?d = "of_nat (48 + unat v mod 10) :: u8" and ?ds = "decimal (unat (v div 10))"
    have ds: "decimal (unat v) = ?ds @ [?d]" using False by (subst decimal.simps) (simp add: unat_div)
    have l: "amount_str + length ?ds < length out" using less.prems ds by simp
    have "unat (v div 10) < unat v" using False by (simp add: unat_div)
    then have "integral_loop (length ?ds) amount_str (v div 10) (out[amount_str + length ?ds := ?d]) =
        Some (splice (out[amount_str + length ?ds := ?d]) amount_str ?ds)"
      using less.hyps [of "v div 10" "out[amount_str + length ?ds := ?d]"] l by simp
    then show ?thesis
      unfolding ds using l by (simp add: put_def remainder_digit splice_snoc)
  qed
qed

section \<open>The amounts on the screens\<close>

text \<open>The decimal text of an amount: at most eight digits of the fraction, without trailing zeros.\<close>

definition strip_zeros_right :: "bytes \<Rightarrow> bytes" where
  "strip_zeros_right ds = rev (dropWhile (\<lambda>c. c = 48) (rev ds))"

definition amount_text :: "nat \<Rightarrow> bytes" where
  "amount_text n = decimal (n div 10 ^ 8) @
     (if n mod 10 ^ 8 = 0 then [] else ch CHR ''.'' # strip_zeros_right (pad8 (n mod 10 ^ 8)))"

text \<open>The number that such a text stands for, in units of the eighth decimal.\<close>

definition text_amount :: "bytes \<Rightarrow> nat" where
  "text_amount t = (let int = takeWhile (\<lambda>c. c \<noteq> ch CHR ''.'') t; fract = drop (Suc (length int)) t
     in decimal_value int * 10 ^ 8 + decimal_value fract * 10 ^ (8 - length fract))"

lemma decimal_value_append: "decimal_value (xs @ ys) = decimal_value xs * 10 ^ length ys + decimal_value ys"
proof -
  have "foldl (\<lambda>v c. 10 * v + digit c) a ys = a * 10 ^ length ys + foldl (\<lambda>v c. 10 * v + digit c) 0 ys" for a ys
  proof (induction ys arbitrary: a)
    case (Cons y ys)
    show ?case unfolding foldl_Cons by (subst (1 2) Cons.IH) (simp add: algebra_simps)
  qed simp
  then show ?thesis unfolding decimal_value_def foldl_append .
qed

lemma decimal_value_zeros: "decimal_value (replicate n 48) = 0"
  by (induction n) (simp_all add: decimal_value_append [of "[48]", simplified] digit_def ch_def decimal_value_def)

lemma strip_zeros_right_value:
  "length (strip_zeros_right ds) \<le> length ds \<and> decimal_value (strip_zeros_right ds) * 10 ^ (length ds - length (strip_zeros_right ds)) = decimal_value ds"
proof -
  let ?z = "rev (takeWhile (\<lambda>c. c = 48) (rev ds))"
  have ds: "ds = strip_zeros_right ds @ ?z"
    unfolding strip_zeros_right_def by (metis rev_append rev_rev_ident takeWhile_dropWhile_id)
  have "?z = replicate (length ?z) 48"
    by (rule replicate_length_same [symmetric]) (auto dest: set_takeWhileD)
  then have "decimal_value ?z = 0" by (metis decimal_value_zeros)
  then show ?thesis
    using arg_cong [OF ds, of length] arg_cong [OF ds, of decimal_value] by (simp add: decimal_value_append)
qed

lemma pad8_value: "n < 10 ^ 8 \<Longrightarrow> length (pad8 n) = 8 \<and> decimal_value (pad8 n) = n"
  using decimal_less [of n 8] by (simp add: pad8_def decimal_value_append decimal_value_zeros decimal_correct)

lemma text_amount_text: "text_amount (amount_text n) = n"
proof -
  let ?i = "decimal (n div 10 ^ 8)"
  have dot: "c \<noteq> ch CHR ''.''" if "c \<in> set ?i" for c
    using decimal_correct that by (force simp: is_digit_def ch_def)
  then have tw: "takeWhile (\<lambda>c. c \<noteq> ch CHR ''.'') (?i @ x) = ?i" if "x = [] \<or> hd x = ch CHR ''.''" for x
    using that by (cases x) (auto simp: takeWhile_append)
  show ?thesis
  proof (cases "n mod 10 ^ 8 = 0")
    case True
    have tw0: "takeWhile (\<lambda>c. c \<noteq> ch CHR ''.'') ?i = ?i" using tw [of "[]"] by simp
    have "n div 10 ^ 8 * 10 ^ 8 = n" using True div_mult_mod_eq [of n "10 ^ 8"] by simp
    then show ?thesis
      unfolding amount_text_def if_P [OF True] append_Nil2 text_amount_def tw0 Let_def
      by (simp add: decimal_correct decimal_value_def [of "[]"])
  next
    case False
    let ?f = "pad8 (n mod 10 ^ 8)"
    have "decimal_value (strip_zeros_right ?f) * 10 ^ (8 - length (strip_zeros_right ?f)) = n mod 10 ^ 8"
      using strip_zeros_right_value [of ?f] pad8_value [of "n mod 10 ^ 8"] by simp
    then show ?thesis
      using False tw by (simp add: amount_text_def text_amount_def Let_def decimal_correct)
  qed
qed

lemma trim_loop_eq:
  assumes "length a = at" "out = a @ ds @ 0 # rest" "length ds = Suc k"
  shows "trim_loop at k out = Some (a @ (let ds' = hd ds # strip_zeros_right (tl ds) in ds' @ replicate (Suc (length ds) - length ds') 0) @ rest)"
  using assms
proof (induction k arbitrary: ds out rest)
  case 0
  then show ?case by (cases ds) (simp_all add: strip_zeros_right_def)
next
  case (Suc k)
  obtain es e where ds: "ds = es @ [e]" "length es = Suc k" using Suc.prems(3) by (cases ds rule: rev_cases) auto
  then have e: "out ! (at + Suc k) = e" "at + Suc k < length out" using Suc.prems by (simp_all add: nth_append)
  obtain x xs where es: "es = x # xs" using ds(2) by (cases es) auto
  show ?case
  proof (cases "e = 48")
    case True
    have "put (at + Suc k) 0 out = Some (a @ es @ 0 # 0 # rest)"
      using Suc.prems(1,2) ds e(2) by (simp add: put_def list_update_append)
    then have "trim_loop at (Suc k) out = trim_loop at k (a @ es @ 0 # 0 # rest)"
      using e True by (simp add: ch_def)
    also have "\<dots> = Some (a @ (let ds' = hd es # strip_zeros_right (tl es) in ds' @ replicate (Suc (length es) - length ds') 0) @ 0 # rest)"
      by (rule Suc.IH) (use Suc.prems(1) ds(2) in simp_all)
    finally show ?thesis
      using True es ds strip_zeros_right_value [of xs] by (simp add: Let_def strip_zeros_right_def Suc_diff_le replicate_app_Cons_same)
  next
    case False
    then show ?thesis
      using e es ds Suc.prems(2) by (simp add: ch_def strip_zeros_right_def)
  qed
qed

lemma splice_pad: "splice (a @ replicate n 0) (length a) x = a @ x @ replicate (n - length x) 0"
  by (simp add: splice_def)

lemma put_pad: "0 < n \<Longrightarrow> put (length a) c (a @ replicate n 0) = Some (a @ c # replicate (n - 1) 0)"
  by (cases n) (simp_all add: put_def)

lemma strip_hd: "decimal_value ds \<noteq> 0 \<Longrightarrow> hd ds # strip_zeros_right (tl ds) = strip_zeros_right ds"
proof (cases ds)
  case (Cons x xs)
  assume v: "decimal_value ds \<noteq> 0"
  show ?thesis
  proof (cases "\<forall>c\<in>set xs. c = 48")
    case True
    then have "xs = replicate (length xs) 48" by (simp add: replicate_length_same [symmetric])
    then have "x \<noteq> 48" using v Cons decimal_value_zeros [of "Suc (length xs)"] by (metis replicate_Suc)
    then show ?thesis using True Cons by (simp add: strip_zeros_right_def dropWhile_append)
  next
    case False
    then show ?thesis using Cons by (auto simp: strip_zeros_right_def dropWhile_append)
  qed
qed (simp add: decimal_value_def)

lemma fractional_part:
  "unat (ucast (amount - amount div 100000000 * 100000000 :: u64) :: u32) = unat amount mod 10 ^ 8"
proof -
  have "amount - amount div 100000000 * 100000000 = amount mod 100000000" by (simp add: minus_div_mult_eq_mod)
  moreover have "unat (amount mod 100000000) = unat amount mod 10 ^ 8" by (simp add: unat_mod)
  moreover have "unat amount mod 10 ^ 8 < 2 ^ 32" by (rule less_trans [OF mod_less_divisor]) simp_all
  ultimately show ?thesis by (simp only: unsigned_ucast_eq take_bit_eq_mod) simp
qed

lemma format_sats_amount_eq:
  assumes "length coin_name \<le> 5" "length out = MAX_AMOUNT_LENGTH + 1"
  shows "\<exists>rest. format_sats_amount coin_name amount out = Some (coin_name @ ch CHR '' '' # amount_text (unat amount) @ 0 # rest)"
proof -
  let ?i = "amount div 100000000" and ?f = "unat amount mod 10 ^ 8"
  let ?ds = "decimal (unat ?i)"
  define a where "a = coin_name @ [ch CHR '' '']"
  have la: "length a = length coin_name + 1" "length a \<le> 6" using assms(1) by (simp_all add: a_def)
  have i: "unat ?i = unat amount div 10 ^ 8" by (simp add: unat_div)
  have "unat amount < 10 ^ 12 * 10 ^ 8" using unsigned_less [of amount, where 'a = nat] by simp
  then have "unat ?i < 10 ^ 12" unfolding i by (rule less_mult_imp_div_less)
  then have ds: "length ?ds \<le> 12" by (rule decimal_less) simp
  have start: "strncpy 0 coin_name (MAX_AMOUNT_LENGTH + 1) out = Some (coin_name @ replicate (28 - length coin_name) 0)"
    using assms by (simp add: strncpy_def put_all_def MAX_AMOUNT_LENGTH_def splice_def)
  have space: "put (length coin_name) (ch CHR '' '') (coin_name @ replicate (28 - length coin_name) 0) = Some (a @ replicate (28 - length a) 0)"
    using assms(1) la put_pad [of "28 - length coin_name" coin_name] by (simp add: a_def)
  have int: "integral_loop (length ?ds) (length a) ?i (a @ replicate (28 - length a) 0) = Some (a @ ?ds @ replicate (28 - length a - length ?ds) 0)"
    using integral_loop_eq [of "length a" ?i "a @ replicate (28 - length a) 0"] la ds splice_pad [of a] by simp
  show ?thesis
  proof (cases "?f = 0")
    case True
    have "put (length (a @ ?ds)) 0 ((a @ ?ds) @ replicate (28 - length a - length ?ds) 0) = Some ((a @ ?ds) @ 0 # replicate (28 - length a - length ?ds - 1) 0)"
      using la ds by (intro put_pad) simp
    then have "format_sats_amount coin_name amount out = Some (a @ ?ds @ 0 # replicate (28 - length a - length ?ds - 1) 0)"
      using start space int True la(1) by (simp add: format_sats_amount_def fractional_part word_unat_eq_iff)
    then show ?thesis using True i by (simp add: a_def amount_text_def)
  next
    case False
    let ?n = "28 - length a - length ?ds - 1"
    have f: "length (pad8 ?f) = 8" "decimal_value (pad8 ?f) = ?f" using pad8_value [of ?f] by simp_all
    define b where "b = a @ ?ds @ [ch CHR ''.'']"
    have lb: "length b = length a + length ?ds + 1" by (simp add: b_def)
    have dot: "put (length a + length ?ds) (ch CHR ''.'') (a @ ?ds @ replicate (28 - length a - length ?ds) 0) = Some (b @ replicate ?n 0)"
      using put_pad [of "28 - length a - length ?ds" "a @ ?ds"] la ds by (simp add: b_def)
    have frac: "put_all (length b) (take 8 (pad8 ?f) @ [0]) (b @ replicate ?n 0) = Some (b @ pad8 ?f @ 0 # replicate (?n - 9) 0)"
      using splice_pad [of b ?n "take 8 (pad8 ?f) @ [0]"] f(1) la ds lb by (simp add: put_all_def)
    have sh: "hd (pad8 ?f) # strip_zeros_right (tl (pad8 ?f)) = strip_zeros_right (pad8 ?f)"
      using False f(2) by (intro strip_hd) simp
    have trim: "trim_loop (length b) 7 (b @ pad8 ?f @ 0 # replicate (?n - 9) 0) = Some (b @ (strip_zeros_right (pad8 ?f) @
        replicate (9 - length (strip_zeros_right (pad8 ?f))) 0) @ replicate (?n - 9) 0)"
      using trim_loop_eq [of b "length b" _ "pad8 ?f" "replicate (?n - 9) 0" 7, OF refl refl] f(1) unfolding Let_def sh by simp
    have "length (strip_zeros_right (pad8 ?f)) \<le> 8" using strip_zeros_right_value [of "pad8 ?f"] f(1) by simp
    then obtain m where "9 - length (strip_zeros_right (pad8 ?f)) = Suc m" by (metis Suc_diff_le numeral_eq_Suc pred_numeral_simps(3) semiring_norm(26,27,28))
    then show ?thesis
      using start space int dot frac trim False la(1) lb i
      by (simp add: format_sats_amount_def fractional_part word_unat_eq_iff amount_text_def b_def a_def)
  qed
qed

section \<open>Numbers and hexadecimal text\<close>

lemma swap_loop_rev: "length x = Suc i - length a \<Longrightarrow> swap_loop (length a) i (a @ x @ b) = a @ rev x @ b"
proof (induction "length x" arbitrary: a x b i rule: less_induct)
  case less
  show ?case
  proof (cases "length a < i")
    case True
    then obtain y m z where x: "x = y # m @ [z]"
      using less.prems by (cases x; cases "tl x" rule: rev_cases) auto
    have i: "i = length a + Suc (length m)" using less.prems True x by simp
    have "swap_loop (length (a @ [z])) (i - 1) ((a @ [z]) @ m @ (y # b)) = (a @ [z]) @ rev m @ (y # b)"
      using i x by (intro less.hyps) simp_all
    then show ?thesis
      using True i x by (subst swap_loop.simps) (simp add: nth_append list_update_append)
  next
    case False
    then have "length x \<le> 1" using less.prems by simp
    then have "rev x = x" by (cases x) auto
    then show ?thesis using False by (subst swap_loop.simps) simp
  qed
qed

lemma u64_mod_digit: "(ucast (v mod 10 + 48 :: u64) :: u8) = of_nat (48 + unat v mod 10)"
proof -
  have "unat (v mod 10 + 48) = unat v mod 10 + 48" by (subst unat_add_lem [THEN iffD1]) (simp_all add: unat_mod)
  then show ?thesis by (simp only: unat_ucast_of_nat add.commute)
qed

lemma u64_digits_eq:
  assumes "length out = Suc outLen" "length a + length (decimal (unat v)) \<le> outLen" "out = a @ b"
  shows "\<exists>w. unat w < 10 \<and> u64_digits outLen (length a) v out =
    Some (True, length a + length (decimal (unat v)) - 1, w,
      a @ rev (tl (decimal (unat v))) @ drop (length (decimal (unat v)) - 1) b) \<and> hd (decimal (unat v)) = of_nat (48 + unat w)"
  using assms
proof (induction "unat v" arbitrary: v out a b rule: less_induct)
  case less
  show ?case
  proof (cases "unat v < 10")
    case True
    then have "decimal (unat v) = [of_nat (48 + unat v)]" by (subst decimal.simps) simp
    then show ?thesis
      using True less.prems(3) by (subst u64_digits.simps) (auto simp: word_less_nat_alt)
  next
    case False
    let ?d = "of_nat (48 + unat v mod 10) :: u8" and ?ds = "decimal (unat (v div 10))"
    have ds: "decimal (unat v) = ?ds @ [?d]" using False by (subst decimal.simps) (simp add: unat_div)
    obtain y b' where b: "b = y # b'" using less.prems ds by (cases b) auto
    have ne: "?ds \<noteq> []" using decimal_length_pos [of "unat (v div 10)"] by auto
    have "put (length a) ?d out = Some (a @ ?d # b')" using less.prems b by (simp add: put_def)
    moreover have "\<not> length a + 2 > outLen" using less.prems(2) ds decimal_length_pos [of "unat (v div 10)"] by (simp del: length_greater_0_conv)
    ultimately have "u64_digits outLen (length a) v out = u64_digits outLen (length (a @ [?d])) (v div 10) ((a @ [?d]) @ b')"
      using False by (subst u64_digits.simps) (simp add: word_less_nat_alt u64_mod_digit del: of_nat_add)
    moreover have "unat (v div 10) < unat v" using False by (simp add: unat_div)
    ultimately show ?thesis
      using less.hyps [of "v div 10" "(a @ [?d]) @ b'" "a @ [?d]" b'] less.prems b ds ne
      by (simp add: drop_Cons' del: of_nat_add)
  qed
qed

lemma u64_digits_full:
  assumes "length out = Suc outLen" "i \<le> outLen" "outLen < i + length (decimal (unat v))" "i = 0 \<Longrightarrow> 0 < outLen \<or> 10 \<le> unat v" "0 < i \<Longrightarrow> i < outLen"
  shows "\<exists>j w out'. u64_digits outLen i v out = Some (False, j, w, out') \<and> length out' = length out"
  using assms
proof (induction "unat v" arbitrary: v out i rule: less_induct)
  case less
  have v: "10 \<le> unat v"
    using less.prems by (cases "unat v < 10") (auto simp: decimal.simps [of "unat v"])
  then have ds: "length (decimal (unat v)) = Suc (length (decimal (unat (v div 10))))"
    by (subst decimal.simps) (simp add: unat_div)
  show ?case
  proof (cases "i + 2 > outLen")
    case True
    then show ?thesis
      using v less.prems(1,2) by (subst u64_digits.simps) (simp add: put_def word_less_nat_alt)
  next
    case False
    let ?out = "out[i := ucast (v mod 10 + 48)]"
    have "u64_digits outLen i v out = u64_digits outLen (i + 1) (v div 10) ?out"
      using v False less.prems(1,2) by (subst u64_digits.simps) (simp add: put_def word_less_nat_alt)
    moreover have "unat (v div 10) < unat v" using v by (simp add: unat_div)
    ultimately show ?thesis
      using less.hyps [of "v div 10" ?out "i + 1"] less.prems False ds by simp
  qed
qed

lemma format_u64_eq:
  assumes "2 \<le> length out"
  shows "if length (decimal (unat v)) < length out
     then format_u64 out v = Some (True, decimal (unat v) @ 0 # drop (Suc (length (decimal (unat v)))) out)
     else \<exists>out'. format_u64 out v = Some (False, out') \<and> length out' = length out"
proof (cases "length (decimal (unat v)) < length out")
  case True
  let ?D = "decimal (unat v)"
  have L: "length out = Suc (length out - 1)" using assms by simp
  have ne: "out \<noteq> []" using assms by auto
  have L2: "length ([] :: bytes) + length ?D \<le> length out - 1" using True by simp
  obtain w where w: "u64_digits (length out - 1) 0 v out = Some (True, length ?D - 1, w, rev (tl ?D) @ drop (length ?D - 1) out)"
    "hd ?D = of_nat (48 + unat w)" "unat w < 10"
    using u64_digits_eq [OF L L2, of out] by auto
  obtain h t where D: "?D = h # t" using decimal_length_pos [of "unat v"] by (cases ?D) auto
  obtain y z where y: "drop (length t) out = y # z # drop (length t + 2) out"
    using True D by (metis Cons_nth_drop_Suc Suc_lessD add_2_eq_Suc' length_Cons)
  have "unat (w + 48) = 48 + unat w" using w(3) by (subst unat_add_lem [THEN iffD1]) simp_all
  then have c: "ucast (w + 48) = h" using w(2) D by (simp only: unat_ucast_of_nat list.sel)
  have p1: "put (length t) h (rev t @ y # z # drop (length t + 2) out) = Some (rev t @ h # z # drop (length t + 2) out)"
    "put (Suc (length t)) 0 (rev t @ h # z # drop (length t + 2) out) = Some (rev t @ h # 0 # drop (length t + 2) out)"
    by (simp_all add: put_def list_update_append)
  have "swap_loop 0 (length t) ((rev t @ [h]) @ 0 # drop (length t + 2) out) = rev (rev t @ [h]) @ 0 # drop (length t + 2) out"
    using swap_loop_rev [of "rev t @ [h]" "length t" "[]"] by simp
  then show ?thesis
    using True ne w(1) c p1 y D by (simp add: format_u64_def)
next
  case False
  then show ?thesis
    using u64_digits_full [of out "length out - 1" 0 v] assms by (auto simp: format_u64_def)
qed

text \<open>Signed numbers: the digits of the loop are those of the absolute value.\<close>

lemma i64_digits_eq:
  assumes "num \<noteq> 0" "sign = sgn num"
  shows "i64_digits num sign = rev (decimal (nat \<bar>num\<bar>))"
  using assms
proof (induction "nat \<bar>num\<bar>" arbitrary: num rule: less_induct)
  case less
  let ?n = "nat \<bar>num\<bar>"
  have q: "num sdiv 10 = sgn num * int (?n div 10)"
    using less.prems(1) by (simp add: signed_divide_int_def zdiv_int)
  have r: "(num smod 10) * sign = int (?n mod 10)"
    using less.prems by (simp add: signed_modulo_int_def zmod_int sgn_if)
  have c: "of_int (48 + (num smod 10) * sign) = (of_nat (48 + ?n mod 10) :: u8)"
    unfolding r by (simp flip: of_nat_mod)
  show ?case
  proof (cases "?n < 10")
    case True
    then have "num sdiv 10 = 0" using q by simp
    then show ?thesis
      using True c less.prems(1) by (subst i64_digits.simps) (simp add: i64_digits.simps [of 0] decimal.simps [of ?n])
  next
    case False
    have "0 < ?n div 10" "sgn num \<noteq> 0" using False less.prems(1) by (simp_all add: sgn_if)
    then have q0: "num sdiv 10 \<noteq> 0" "sgn (num sdiv 10) = sgn num" "nat \<bar>num sdiv 10\<bar> = ?n div 10"
      using False less.prems(1) unfolding q by (auto simp: sgn_mult abs_mult nat_mult_distrib)
    then have "i64_digits (num sdiv 10) sign = rev (decimal (?n div 10))"
      using less.hyps [of "num sdiv 10"] less.prems False by simp
    then show ?thesis
      using False c less.prems(1) by (subst i64_digits.simps) (simp add: decimal.simps [of ?n])
  qed
qed

lemma nibbles: "drop_bit 4 (x AND 0xF0) = x div 16" "x AND 0x0F = x mod 16" for x :: u8
proof -
  have m: "(0x0F :: u8) = mask 4" by (simp add: mask_eq_exp_minus_1)
  show "x AND 0x0F = x mod 16" unfolding m take_bit_eq_mask [symmetric] take_bit_eq_mod by simp
  have "drop_bit 4 (x AND 0xF0) = drop_bit 4 x AND mask 4" by (simp add: drop_bit_and m [symmetric])
  also have "\<dots> = drop_bit 4 x"
  proof -
    have "unat (x div 16) < 16" using div_mod_16(2) [of x] by (simp add: word_less_nat_alt)
    then show ?thesis
      by (simp add: take_bit_eq_mask [symmetric] word_unat_eq_iff unsigned_take_bit_eq take_bit_eq_mod drop_bit_eq_div unat_mod)
  qed
  finally show "drop_bit 4 (x AND 0xF0) = x div 16" by (simp add: drop_bit_eq_div)
qed

lemma hex_digits_nth: "v < 16 \<Longrightarrow> hex_digits ! unat v = hex_digit v" for v :: u8
proof -
  have "\<forall>n < (16 :: nat). hex_digits ! n = hex_digit (of_nat n)"
    by code_simp
  then show "v < 16 \<Longrightarrow> hex_digits ! unat v = hex_digit v"
    by (auto dest: spec [of _ "unat v"] simp: word_less_nat_alt)
qed

lemma hex_loop_eq:
  assumes "length out = 2 * length inp + k" "0 < k" "2 * i = length a"
  shows "hex_loop inp i (a @ out) = Some (i + length inp, a @ to_hex inp @ drop (2 * length inp) out)"
  using assms
proof (induction inp arbitrary: i a out)
  case (Cons x xs)
  obtain p q out' where out: "out = p # q # out'" using Cons.prems(1) by (cases out; cases "tl out") auto
  have n: "hex_digits ! unat (x div 16) = hex_digit (x div 16)" "hex_digits ! unat (x mod 16) = hex_digit (x mod 16)"
    by (intro hex_digits_nth div_mod_16)+
  have "hex_loop xs (Suc i) ((a @ [hex_digit (x div 16), hex_digit (x mod 16)]) @ out') =
      Some (Suc i + length xs, (a @ [hex_digit (x div 16), hex_digit (x mod 16)]) @ to_hex xs @ drop (2 * length xs) out')"
    using Cons.prems out by (intro Cons.IH) simp_all
  then show ?case
    unfolding hex_loop.simps nibbles Let_def using Cons.prems out n by (simp add: put_def list_update_append)
qed simp

lemma format_hex_eq:
  assumes "2 * length inp < length out"
  shows "format_hex inp out = Some (int (2 * length inp) + 1, to_hex inp @ 0 # drop (2 * length inp + 1) out)"
proof -
  obtain c where c: "drop (2 * length inp) out = c # drop (2 * length inp + 1) out"
    using assms by (metis Cons_nth_drop_Suc Suc_eq_plus1)
  have "hex_loop inp 0 out = Some (length inp, to_hex inp @ drop (2 * length inp) out)"
    using hex_loop_eq [of out inp "length out - 2 * length inp" 0 "[]"] assms by simp
  moreover have "put (2 * length inp) 0 (to_hex inp @ c # r) = Some (to_hex inp @ 0 # r)" for r
    by (simp add: put_def list_update_append)
  ultimately show ?thesis
    using assms c by (simp add: format_hex_def)
qed

section \<open>Shifting bits into decimal digits\<close>

text \<open>The value of the digits, and the digits in use.\<close>

definition bcd_value :: "u16 list \<Rightarrow> nat" where
  "bcd_value s = foldl (\<lambda>v d. 10 * v + unat d) 0 s"

lemma bcd_value_append: "bcd_value (xs @ ys) = bcd_value xs * 10 ^ length ys + bcd_value ys"
proof -
  have "foldl (\<lambda>v d. 10 * v + unat d) a ys = a * 10 ^ length ys + foldl (\<lambda>v d. 10 * v + unat d) 0 ys" for a and ys :: "u16 list"
  proof (induction ys arbitrary: a)
    case (Cons y ys)
    show ?case unfolding foldl_Cons by (subst (1 2) Cons.IH) (simp add: algebra_simps)
  qed simp
  then show ?thesis unfolding bcd_value_def foldl_append .
qed

lemma bcd_value_Cons: "bcd_value (x # xs) = unat x * 10 ^ length xs + bcd_value xs"
  using bcd_value_append [of "[x]" xs] by (simp add: bcd_value_def)

text \<open>The loops as maps over the digits from \<open>smin\<close> on.\<close>

lemma fold_update_map:
  assumes "length a + length b = n"
  shows "fold (\<lambda>k s. s[k := f (s ! k)]) [length a..<n] (a @ b) = a @ map f b"
  using assms
proof (induction b arbitrary: a)
  case (Cons x b)
  then have "fold (\<lambda>k s. s[k := f (s ! k)]) [length (a @ [f x])..<n] ((a @ [f x]) @ b) = (a @ [f x]) @ map f b"
    by (intro Cons.IH) simp
  then show ?case using Cons.prems by (simp add: upt_conv_Cons)
qed simp

fun carry_map :: "('a \<Rightarrow> 'a \<Rightarrow> 'a) \<Rightarrow> 'a list \<Rightarrow> 'a list" where
  "carry_map f (x # y # zs) = f x y # carry_map f (y # zs)"
| "carry_map f zs = zs"

lemma fold_update_carry:
  assumes "length a + length b = n" "b \<noteq> []"
  shows "fold (\<lambda>k s. s[k := f (s ! k) (s ! (k + 1))]) [length a..<n - 1] (a @ b) = a @ carry_map f b"
  using assms
proof (induction f b arbitrary: a rule: carry_map.induct)
  case (1 f x y zs)
  have "fold (\<lambda>k s. s[k := f (s ! k) (s ! (k + 1))]) [length (a @ [f x y])..<n - 1] ((a @ [f x y]) @ y # zs) = (a @ [f x y]) @ carry_map f (y # zs)"
    using "1.prems" by (intro "1.IH") simp_all
  then show ?case using "1.prems" by (simp add: upt_conv_Cons nth_append)
qed auto

text \<open>One digit: adding three to digits of at least five makes doubling produce a decimal carry.\<close>

definition add3 :: "u16 \<Rightarrow> u16" where
  "add3 x = x + (if x \<ge> 5 then 3 else 0)"

definition double :: "u16 \<Rightarrow> bool \<Rightarrow> u16" where
  "double x c = (push_bit 1 x AND 0xF) OR (if c then 1 else 0)"

lemma double_add3: "unat x < 10 \<Longrightarrow> unat (double (add3 x) c) = (2 * unat x) mod 10 + of_bool c \<and> (add3 x \<ge> 8) = (unat x \<ge> 5)"
proof -
  assume "unat x < 10"
  then have "unat x \<in> set [0..<10]" by simp
  moreover have "\<forall>n\<in>set [0..<10]. \<forall>c. unat (double (add3 (of_nat n)) c) = (2 * n) mod 10 + of_bool c \<and> (add3 (of_nat n) \<ge> 8) = (n \<ge> 5)"
    by code_simp
  ultimately show ?thesis by (metis of_nat_unat ucast_id)
qed

fun shl :: "u16 list \<Rightarrow> bool \<Rightarrow> u16 list" where
  "shl (x # y # zs) c = double (add3 x) (add3 y \<ge> 8) # shl (y # zs) c"
| "shl [x] c = [double (add3 x) c]"
| "shl [] c = []"

lemma shl_correct:
  assumes "\<forall>d\<in>set ds. unat d < 10" "ds \<noteq> []"
  shows "length (shl ds c) = length ds \<and> (\<forall>d\<in>set (shl ds c). unat d < 10) \<and>
    bcd_value (shl ds c) + of_bool (unat (hd ds) \<ge> 5) * 10 ^ length ds = 2 * bcd_value ds + of_bool c"
  using assms
proof (induction ds c rule: shl.induct)
  case (1 x y zs c)
  have ih: "length (shl (y # zs) c) = Suc (length zs)" "\<forall>d\<in>set (shl (y # zs) c). unat d < 10"
    "bcd_value (shl (y # zs) c) + of_bool (unat y \<ge> 5) * 10 ^ Suc (length zs) = 2 * bcd_value (y # zs) + of_bool c"
    using 1 by auto
  have x: "unat (double (add3 x) (add3 y \<ge> 8)) = (2 * unat x) mod 10 + of_bool (unat y \<ge> 5)"
    using double_add3 [of x "add3 y \<ge> 8"] double_add3 [of y c] "1.prems" by simp
  have q: "(2 * unat x) mod 10 + of_bool (unat x \<ge> 5) * 10 = 2 * unat x" "(2 * unat x) mod 10 \<le> 8"
    using "1.prems"(1) by (auto simp: not_le le_mod_geq) presburger
  have "bcd_value (shl (x # y # zs) c) + of_bool (unat x \<ge> 5) * 10 ^ length (x # y # zs) =
      ((2 * unat x) mod 10 + of_bool (unat x \<ge> 5) * 10) * 10 ^ Suc (length zs) +
      (bcd_value (shl (y # zs) c) + of_bool (unat y \<ge> 5) * 10 ^ Suc (length zs))"
    using ih(1) x by (simp add: bcd_value_Cons [of "double _ _"] algebra_simps)
  also have "\<dots> = 2 * bcd_value (x # y # zs) + of_bool c"
    unfolding q(1) ih(3) by (simp add: bcd_value_Cons [of x] algebra_simps)
  finally show ?case using ih(1,2) x q(2) by auto
next
  case (2 x c)
  then show ?case using double_add3 [of x c] by (auto simp: bcd_value_def not_le le_mod_geq)
qed simp

lemma carry_map_shl:
  assumes "b \<noteq> []"
  shows "(carry_map (\<lambda>x y. double x (y \<ge> 8)) (map add3 b))[length b - 1 := double (add3 (last b)) c] = shl b c"
  using assms by (induction b c rule: shl.induct) auto

lemma carry_map_last: "b \<noteq> [] \<Longrightarrow> carry_map f b ! (length b - 1) = last b \<and> length (carry_map f b) = length b"
  by (induction f b rule: carry_map.induct) auto

definition bcd_inv :: "nat \<Rightarrow> nat \<times> u16 list \<Rightarrow> bool" where
  "bcd_inv N st \<longleftrightarrow> (\<exists>b. snd st = replicate (fst st) 0 @ b \<and> fst st < SCRATCH_SIZE - 1 \<and> length (snd st) = SCRATCH_SIZE \<and>
     (\<forall>d\<in>set b. unat d < 10) \<and> bcd_value (snd st) = N)"

lemma bcd_value_zeros: "bcd_value (replicate n 0 @ b) = bcd_value b"
proof -
  have "bcd_value (replicate n 0) = 0" by (induction n) (simp_all add: bcd_value_Cons bcd_value_def)
  then show ?thesis by (simp add: bcd_value_append)
qed

text \<open>The loops of one shift, and their effect when the digits in use are \<open>b\<close>.\<close>

definition add3_loop :: "nat \<Rightarrow> u16 list \<Rightarrow> u16 list" where
  "add3_loop m s = fold (\<lambda>k s. s[k := add3 (s ! k)]) [m..<SCRATCH_SIZE] s"

definition double_loop :: "bool \<Rightarrow> nat \<Rightarrow> u16 list \<Rightarrow> u16 list" where
  "double_loop c m s = (let s = fold (\<lambda>k s. s[k := double (s ! k) (s ! (k + 1) \<ge> 8)]) [m..<SCRATCH_SIZE - 1] s
     in s[SCRATCH_SIZE - 1 := double (s ! (SCRATCH_SIZE - 1)) c])"

lemma bcd_shift_eq:
  "bcd_shift (if c then 1 else 0) (m, s) =
     (let s = add3_loop m s; m = (if s ! m \<ge> 8 then m - 1 else m) in (m, double_loop c m s))"
  by (simp add: bcd_shift_def add3_loop_def double_loop_def double_def add3_def Let_def)

lemma add3_loop_eq: "length a + length b = SCRATCH_SIZE \<Longrightarrow> add3_loop (length a) (a @ b) = a @ map add3 b"
  unfolding add3_loop_def by (rule fold_update_map)

lemma double_loop_eq:
  assumes "length a + length b = SCRATCH_SIZE" "b \<noteq> []"
  shows "double_loop c (length a) (a @ map add3 b) = a @ shl b c"
proof -
  have f: "fold (\<lambda>k s. s[k := double (s ! k) (s ! (k + 1) \<ge> 8)]) [length a..<SCRATCH_SIZE - 1] (a @ map add3 b) =
      a @ carry_map (\<lambda>x y. double x (y \<ge> 8)) (map add3 b)"
    using fold_update_carry [of a "map add3 b" SCRATCH_SIZE "\<lambda>x y. double x (y \<ge> 8)"] assms by simp
  have n: "SCRATCH_SIZE - 1 = length a + (length b - 1)" using assms by (cases b) auto
  show ?thesis
    unfolding double_loop_def f Let_def unfolding n
    using carry_map_last [of "map add3 b" "\<lambda>x y. double x (y \<ge> 8)"] carry_map_shl [of b c] assms(2)
    by (simp add: nth_append list_update_append last_map)
qed

lemma bcd_shift_inv:
  assumes "bcd_inv N st" "N < 2 ^ 63"
  shows "bcd_inv (2 * N + of_bool c) (bcd_shift (if c then 1 else 0) st)"
proof -
  obtain m b where st: "st = (m, replicate m 0 @ b)" and b: "m < SCRATCH_SIZE - 1" "m + length b = SCRATCH_SIZE" "\<forall>d\<in>set b. unat d < 10" "bcd_value b = N"
    using assms(1) by (cases st) (auto simp: bcd_inv_def bcd_value_zeros)
  then obtain x b' where x: "b = x # b'" by (cases b) auto
  have add3: "add3_loop m (replicate m 0 @ b) = replicate m 0 @ map add3 b"
    using add3_loop_eq [of "replicate m 0" b] b(2) by simp
  have carry: "add3 x \<ge> 8 \<longleftrightarrow> unat x \<ge> 5" using double_add3 [of x c] b(3) x by simp
  show ?thesis
  proof (cases "unat x \<ge> 5")
    case False
    then have "bcd_shift (if c then 1 else 0) st = (m, replicate m 0 @ shl b c)"
      using double_loop_eq [of "replicate m 0" b c] add3 carry st x b(2) by (simp add: bcd_shift_eq Let_def nth_append)
    then show ?thesis
      using shl_correct [OF b(3), of c] False b x by (simp add: bcd_inv_def bcd_value_zeros)
  next
    case True
    have "m \<noteq> 0"
    proof
      assume "m = 0"
      then have "5 * 10 ^ 20 \<le> N" using True b(2,4) x mult_le_mono [of 5 "unat x" "10 ^ 20" "10 ^ 20"] by (simp add: bcd_value_Cons SCRATCH_SIZE_def)
      then show False using assms(2) by simp
    qed
    then obtain m' where m: "m = Suc m'" by (cases m) auto
    have z: "(0 :: u16) # replicate m' 0 @ y = replicate m' 0 @ add3 0 # y" for y
      by (simp add: add3_def replicate_app_Cons_same)
    have "bcd_shift (if c then 1 else 0) st = (m', replicate m' 0 @ shl (0 # b) c)"
      using double_loop_eq [of "replicate m' 0" "0 # b" c] add3 carry st x b(2) True m z by (simp add: bcd_shift_eq Let_def nth_append)
    moreover have "bcd_value (0 # b) = N" using b(4) by (simp add: bcd_value_Cons [of 0])
    ultimately show ?thesis
      using shl_correct [of "0 # b" c] b m by (simp add: bcd_inv_def bcd_value_zeros)
  qed
qed

text \<open>All bits of the amount.\<close>

lemma bcd_byte:
  fixes x :: u8
  assumes "bcd_inv N st" "N < 2 ^ 56" "j \<le> 8"
  shows "bcd_inv (N * 2 ^ j + unat x div 2 ^ (8 - j))
    (fold (\<lambda>j. bcd_shift (if (x AND push_bit (7 - j) 1) \<noteq> 0 then 1 else 0)) [0..<j] st)"
  using assms(3)
proof (induction j)
  case 0
  then show ?case using assms(1) unsigned_less [of x, where 'a = nat] by simp
next
  case (Suc j)
  let ?M = "N * 2 ^ j + unat x div 2 ^ (8 - j)"
  define c where "c = bit x (7 - j)"
  have c: "(x AND push_bit (7 - j) 1) \<noteq> 0 \<longleftrightarrow> c"
    by (simp add: c_def bit_iff_and_push_bit_not_eq_0)
  have "unat x < 2 ^ j * 2 ^ (8 - j)" using unsigned_less [of x, where 'a = nat] Suc.prems by (simp flip: power_add)
  then have "unat x div 2 ^ (8 - j) < 2 ^ j" by (rule less_mult_imp_div_less)
  then have "?M < (N + 1) * 2 ^ j" by simp
  also have "\<dots> \<le> 2 ^ 56 * 2 ^ 7" using assms(2) Suc.prems by (intro mult_le_mono power_increasing) simp_all
  finally have M: "?M < 2 ^ 63" by simp
  have "unat x div 2 ^ (7 - j) = 2 * (unat x div 2 ^ (8 - j)) + of_bool c"
  proof -
    have "8 - j = Suc (7 - j)" using Suc.prems by simp
    then have "unat x div 2 ^ (8 - j) = unat x div 2 ^ (7 - j) div 2" by (simp add: div_mult2_eq [symmetric] mult.commute)
    moreover have "c \<longleftrightarrow> odd (unat x div 2 ^ (7 - j))" by (simp add: c_def bit_unsigned_iff flip: bit_iff_odd)
    ultimately show ?thesis by (simp add: of_bool_odd_eq_mod_2)
  qed
  then show ?case
    using bcd_shift_inv [OF Suc.IH M, of c] Suc.prems c by (simp add: algebra_simps)
qed

definition amount_value :: "bytes \<Rightarrow> nat" where
  "amount_value bs = foldl (\<lambda>v b. 256 * v + unat b) 0 bs"

lemma amount_value_snoc: "amount_value (bs @ [b]) = 256 * amount_value bs + unat b"
  by (simp add: amount_value_def)

lemma amount_value_less: "amount_value bs < 256 ^ length bs"
proof (induction bs rule: rev_induct)
  case (snoc b bs)
  have "256 * amount_value bs + unat b < 256 * (amount_value bs + 1)" using unsigned_less [of b, where 'a = nat] by simp
  also have "\<dots> \<le> 256 * 256 ^ length bs" using snoc.IH by (intro mult_le_mono2) simp
  finally show ?case by (simp add: amount_value_snoc)
qed (simp add: amount_value_def)

lemma bcd_digits_inv:
  assumes "length amount = 8"
  shows "bcd_inv (amount_value amount) (bcd_digits amount)"
proof -
  let ?f = "\<lambda>i. fold (\<lambda>j. bcd_shift (if (amount ! i AND push_bit (7 - j) 1) \<noteq> 0 then 1 else 0)) [0..<8]"
  have "bcd_inv (amount_value (take n amount)) (fold ?f [0..<n] (SCRATCH_SIZE - 2, replicate SCRATCH_SIZE 0))" if "n \<le> 8" for n
    using that
  proof (induction n)
    case 0
    have "replicate SCRATCH_SIZE (0 :: u16) = replicate (SCRATCH_SIZE - 2) 0 @ [0, 0]" by (simp add: SCRATCH_SIZE_def numeral_eq_Suc)
    moreover have "bcd_value (replicate SCRATCH_SIZE 0) = 0" using bcd_value_zeros [of SCRATCH_SIZE "[]"] by (simp add: bcd_value_def)
    ultimately show ?case by (auto simp: bcd_inv_def SCRATCH_SIZE_def amount_value_def intro!: exI [of _ "[0, 0]"])
  next
    case (Suc n)
    have "amount_value (take n amount) < 256 ^ n" using amount_value_less [of "take n amount"] Suc.prems assms by simp
    also have "(256 :: nat) ^ n \<le> 256 ^ 7" using Suc.prems by (intro power_increasing) simp_all
    finally have "amount_value (take n amount) < 2 ^ 56" by simp
    then show ?case
      using bcd_byte [of _ _ 8 "amount ! n"] Suc assms by (simp add: take_Suc_conv_app_nth amount_value_snoc mult.commute)
  qed
  from this [of 8] show ?thesis using assms by (simp add: bcd_digits_def)
qed

section \<open>The text of the digits\<close>

abbreviation digit_text :: "u16 list \<Rightarrow> bytes" where
  "digit_text ds \<equiv> map (\<lambda>d. ucast (d + 48)) ds"

lemma digit_text_char: "unat d < 10 \<Longrightarrow> (ucast (d + 48 :: u16) :: u8) = of_nat (48 + unat d)"
  by (simp add: word_unat_eq_iff unsigned_ucast_eq take_bit_eq_mod unat_of_nat unat_word_ariths)

lemma decimal_digit_text:
  assumes "\<forall>d\<in>set ds. unat d < 10"
  shows "digit_text (dropWhile (\<lambda>d. d = 0) ds) = (if bcd_value ds = 0 then [] else decimal (bcd_value ds))"
  using assms
proof (induction ds rule: rev_induct)
  case (snoc d ds)
  then have d: "unat d < 10" and ih: "digit_text (dropWhile (\<lambda>d. d = 0) ds) = (if bcd_value ds = 0 then [] else decimal (bcd_value ds))" by auto
  have v: "bcd_value (ds @ [d]) = 10 * bcd_value ds + unat d" by (simp add: bcd_value_def)
  have ne: "decimal (bcd_value ds) \<noteq> []" using decimal_length_pos [of "bcd_value ds"] by auto
  show ?case
  proof (cases "bcd_value ds = 0")
    case True
    then have "\<forall>x\<in>set ds. x = 0" using ih by simp
    then show ?thesis
      using True v d digit_text_char [OF d] by (auto simp: dropWhile_append unat_eq_zero decimal.simps [of "unat d"])
  next
    case False
    then have "dropWhile (\<lambda>d. d = 0) ds \<noteq> []" using ih ne by (metis list.map(1))
    then have "dropWhile (\<lambda>d. d = 0) (ds @ [d]) = dropWhile (\<lambda>d. d = 0) ds @ [d]" by (auto simp: dropWhile_append)
    then show ?thesis
      using False ih v d digit_text_char [OF d] by (simp add: decimal.simps [of "10 * bcd_value ds + unat d"])
  qed
qed (simp add: bcd_value_def)

lemma bcd_integral_eq:
  assumes "offset + n \<le> length scratch"
  shows "bcd_integral scratch n nonZero offset out =
    out @ digit_text ((if nonZero then id else dropWhile (\<lambda>d. d = 0)) (take n (drop offset scratch)))"
  using assms
proof (induction n arbitrary: nonZero offset out)
  case (Suc n)
  have "take (Suc n) (drop offset scratch) = scratch ! offset # take n (drop (Suc offset) scratch)"
    using Suc.prems by (simp add: Cons_nth_drop_Suc [symmetric])
  then show ?case using Suc by simp
qed simp

lemma strip_zeros_right_Cons:
  "strip_zeros_right (x # xs) = (if \<forall>c\<in>set (x # xs). c = 48 then [] else x # strip_zeros_right xs)"
  by (auto simp: strip_zeros_right_def dropWhile_append)

lemma digit_text_zero: "unat d < 10 \<Longrightarrow> (ucast (d + 48 :: u16) :: u8) = 48 \<longleftrightarrow> d = 0"
  by (simp only: digit_text_char) (simp add: word_unat_eq_iff unat_of_nat del: of_nat_add)

lemma bcd_fraction_eq:
  assumes "length scratch = offset + n" "\<forall>d\<in>set (drop offset scratch). unat d < 10"
  shows "bcd_fraction scratch n comma offset out =
    out @ (if \<forall>d\<in>set (drop offset scratch). d = 0 then []
           else (if comma then [] else [ch CHR ''.'']) @ strip_zeros_right (digit_text (drop offset scratch)))"
  using assms
proof (induction n arbitrary: comma offset out)
  case (Suc n)
  let ?x = "scratch ! offset" and ?r = "drop (Suc offset) scratch"
  have r: "drop offset scratch = ?x # ?r" using Suc.prems(1) by (simp add: Cons_nth_drop_Suc)
  have all: "(\<forall>j<Suc n. scratch ! (offset + j) = 0) \<longleftrightarrow> (\<forall>d\<in>set (drop offset scratch). d = 0)"
    using Suc.prems(1) by (simp add: all_set_conv_all_nth)
  have "unat ?x < 10" "\<forall>d\<in>set ?r. unat d < 10" using Suc.prems(2) r by simp_all
  then have z: "(\<forall>c\<in>set (digit_text (?x # ?r)). c = 48) \<longleftrightarrow> (\<forall>d\<in>set (?x # ?r). d = 0)"
    using digit_text_zero by auto
  show ?case
  proof (cases "\<forall>d\<in>set (drop offset scratch). d = 0")
    case True
    then show ?thesis unfolding bcd_fraction.simps all by simp
  next
    case False
    then have nz: "\<not> (\<forall>d\<in>set (?x # ?r). d = 0)" unfolding r .
    have ih: "bcd_fraction scratch n True (offset + 1) o' = o' @ (if \<forall>d\<in>set ?r. d = 0 then [] else strip_zeros_right (digit_text ?r))" for o'
      using Suc.IH [of "offset + 1" True o'] Suc.prems \<open>\<forall>d\<in>set ?r. unat d < 10\<close> by simp
    have e: "strip_zeros_right (digit_text ?r) = []" if "\<forall>d\<in>set ?r. d = 0"
      using that by (auto simp: strip_zeros_right_def dest: bspec)
    have "strip_zeros_right (digit_text (?x # ?r)) = ucast (?x + 48) # (if \<forall>d\<in>set ?r. d = 0 then [] else strip_zeros_right (digit_text ?r))"
      using z nz e strip_zeros_right_Cons [of "ucast (?x + 48)" "digit_text ?r"] by auto
    then show ?thesis
      unfolding bcd_fraction.simps all if_not_P [OF False] ih r using nz by simp
  qed
qed simp

lemma bcd_value_0: "bcd_value ds = 0 \<longleftrightarrow> (\<forall>d\<in>set ds. d = 0)"
  by (induction ds) (auto simp: bcd_value_Cons unat_eq_zero, simp add: bcd_value_def)

lemma pad8_digit_text:
  assumes "\<forall>d\<in>set ds. unat d < 10" "length ds = 8"
  shows "digit_text ds = pad8 (bcd_value ds)"
proof -
  have ds: "ds = takeWhile (\<lambda>d. d = 0) ds @ dropWhile (\<lambda>d. d = 0) ds" by simp
  have tw: "takeWhile (\<lambda>d. d = 0) ds = replicate (length (takeWhile (\<lambda>d. d = 0) ds)) 0"
    by (rule replicate_length_same [symmetric]) (auto dest: set_takeWhileD)
  have z: "digit_text (takeWhile (\<lambda>d. d = 0) ds) = replicate (length (takeWhile (\<lambda>d. d = 0) ds)) 48"
    by (subst tw) simp
  have "digit_text ds = replicate (8 - length (dropWhile (\<lambda>d. d = 0) ds)) 48 @ digit_text (dropWhile (\<lambda>d. d = 0) ds)"
    using z arg_cong [OF ds, of length] assms(2) by (subst ds) (simp only: map_append length_append add_diff_cancel_right')
  also have "\<dots> = pad8 (bcd_value ds)"
  proof (cases "bcd_value ds = 0")
    case True
    then have dw: "dropWhile (\<lambda>d. d = 0) ds = []" by (simp add: bcd_value_0)
    show ?thesis unfolding dw using True by (simp add: pad8_def decimal.simps numeral_eq_Suc)
  next
    case False
    then show ?thesis using decimal_digit_text [OF assms(1)] by (simp add: pad8_def) (metis length_map)
  qed
  finally show ?thesis .
qed

lemma btchip_convert_eq:
  assumes "length amount = 8"
  shows "btchip_convert_hex_amount_to_displayable_no_globals amount = amount_text (amount_value amount)"
proof -
  define s where "s = snd (bcd_digits amount)"
  obtain m b where s: "s = replicate m 0 @ b" "length s = 21" "\<forall>d\<in>set b. unat d < 10" "bcd_value s = amount_value amount"
    using bcd_digits_inv [OF assms] by (auto simp: bcd_inv_def s_def SCRATCH_SIZE_def)
  have d: "\<forall>d\<in>set s. unat d < 10" using s(1,3) by auto
  let ?i = "take 13 s" and ?f = "drop 13 s"
  have di: "\<forall>d\<in>set ?i. unat d < 10" and df: "\<forall>d\<in>set ?f. unat d < 10"
    using d by (auto dest: in_set_takeD in_set_dropD)
  have v: "amount_value amount = bcd_value ?i * 10 ^ 8 + bcd_value ?f"
    using bcd_value_append [of ?i ?f] s(2,4) by simp
  have f: "digit_text ?f = pad8 (bcd_value ?f)" using pad8_digit_text [OF df] s(2) by simp
  have lt: "bcd_value ds < 10 ^ length ds" if "\<forall>d\<in>set ds. unat d < 10" for ds
    using that
  proof (induction ds)
    case (Cons x xs)
    have "unat x * 10 ^ length xs + bcd_value xs < (unat x + 1) * 10 ^ length xs" using Cons by simp
    also have "\<dots> \<le> 10 * 10 ^ length xs" using Cons.prems by (intro mult_le_mono1) simp
    finally show ?case by (simp add: bcd_value_Cons)
  qed (simp add: bcd_value_def)
  have q: "amount_value amount div 10 ^ 8 = bcd_value ?i" "amount_value amount mod 10 ^ 8 = bcd_value ?f"
    using v lt [OF df] s(2) by simp_all
  have int: "(if bcd_integral s 13 False 0 [] = [] then [ch CHR ''0''] else bcd_integral s 13 False 0 []) = decimal (bcd_value ?i)"
    using bcd_integral_eq [of 0 13 s False "[]"] s(2) decimal_digit_text [OF di] decimal_length_pos [of "bcd_value ?i"]
    by (auto simp: decimal.simps [of 0] ch_def)
  show ?thesis
    unfolding btchip_convert_hex_amount_to_displayable_no_globals_def s_def [symmetric] Let_def int amount_text_def q
    using bcd_fraction_eq [of s 13 8 False] s(2) df f by (simp add: bcd_value_0)
qed

section \<open>Properties\<close>

lemma amount_value_enc: "amount_value (enc_u64_be v) = unat v"
proof -
  have lt: "unat v < 2 ^ 64" using unsigned_less [of v, where 'a = nat] by simp
  have u: "unat (ucast (drop_bit n v) :: u8) = unat v div 2 ^ n mod 256" for n
    using lt by (simp add: unsigned_ucast_eq unsigned_drop_bit_eq drop_bit_eq_div [where 'a = nat] take_bit_eq_mod)
  from lt have top: "unat v div 2 ^ 56 mod 256 = unat v div 2 ^ 56" by simp
  have s: "256 * (unat v div 2 ^ (n + 8)) + unat v div 2 ^ n mod 256 = unat v div 2 ^ n" for n
    using mult_div_mod_eq [of 256 "unat v div 2 ^ n"] by (simp add: div_mult2_eq [symmetric] power_add)
  show ?thesis
    unfolding amount_value_def enc_u64_be_def foldl.simps u top
    using s [of 48] s [of 40] s [of 32] s [of 24] s [of 16] s [of 8] s [of 0] u [of 0] by simp
qed

lemma amount_text_no_zero: "0 \<notin> set (amount_text n)"
proof -
  have "0 \<notin> set (decimal k)" for k using decimal_correct [of k] by auto
  then show ?thesis
    by (auto simp: amount_text_def strip_zeros_right_def pad8_def ch_def dest!: set_dropWhileD)
qed

text \<open>C27: The screens show an amount, after the name of the coin and a space, as a decimal number in
  units of ten to the power of eight, which is exactly the amount; the text that the exchange
  application shows for the same amount, computed without division, is the same.\<close>
theorem displayed_amounts_correct:
  assumes "length coin_name \<le> 5" "length out = MAX_AMOUNT_LENGTH + 1"
  shows "\<exists>t rest. format_sats_amount coin_name amount out = Some (coin_name @ ch CHR '' '' # t @ 0 # rest) \<and> 0 \<notin> set t \<and>
    text_amount t = unat amount \<and> btchip_convert_hex_amount_to_displayable_no_globals (enc_u64_be amount) = t"
  using format_sats_amount_eq [OF assms, of amount] btchip_convert_eq [of "enc_u64_be amount"] text_amount_text [of "unat amount"]
    amount_text_no_zero [of "unat amount"]
  by (auto simp: amount_value_enc bytes_simps)

theorem displayed_amounts_correct_witness:
  "\<exists>t rest. format_sats_amount (str ''SYS'') 150000000 (replicate 28 7) = Some (str ''SYS'' @ ch CHR '' '' # t @ 0 # rest) \<and>
     text_amount t = 150000000"
  using displayed_amounts_correct [of "str ''SYS''" "replicate 28 7" 150000000] by (auto simp: MAX_AMOUNT_LENGTH_def str_def)



text \<open>\<open>format_fpu64\<close> reports success for a text that it has cut off.\<close>

lemma format_fpu64_truncates: "format_fpu64 [7, 7, 7] 12 2 = Some (True, str ''0.1'')"
proof -
  have d: "decimal (unat (12 :: u64)) = [49, 50]" by (simp add: decimal.simps)
  obtain r where "format_u64 (replicate 21 0) 12 = Some (True, 49 # 50 # 0 # r)"
    using format_u64_eq [of "replicate 21 0" 12] unfolding d by simp
  moreover have "strlen (49 # 50 # 0 # r) = 2" by (simp add: strlen_def)
  ultimately show ?thesis
    by (simp add: format_fpu64_def Let_def put_all_def strncpy_def splice_def str_def ch_def)
qed

text \<open>C31: The hexadecimal text of bytes, as \<open>format_hex\<close> writes it, is read back by
  \<open>buffer_read_hex_hash\<close>.\<close>
theorem format_hex_read_back:
  assumes "2 * length inp < length out" "length out < 2 ^ 32" "format_hex inp out = Some (n, out')"
  shows "buffer_read_hex_hash (buffer_create 0 out' (of_nat (length out'))) (of_nat (length inp)) =
    Some (inp, adv (buffer_create 0 out' (of_nat (length out'))) (2 * length inp)) \<and> n = 2 * int (length inp) + 1"
proof -
  let ?b = "buffer_create 0 out' (of_nat (length out'))"
  have out': "out' = to_hex inp @ 0 # drop (2 * length inp + 1) out" "n = 2 * int (length inp) + 1"
    using format_hex_eq [OF assms(1)] assms(3) by simp_all
  then have l: "length out' = length out" using assms(1) by simp
  have ok: "buf_ok ?b" "buf_rest ?b = out'"
    using assms(2) l by (simp_all add: buffer_create_def buf_ok_def buf_rest_def unat_of_nat)
  moreover have "unat (2 * of_nat (length inp) :: size_t) = 2 * length inp" "unat (of_nat (length inp) :: size_t) = length inp"
    using assms(1,2) by (simp_all add: unat_word_ariths unat_of_nat)
  ultimately show ?thesis
    using read_hex_loop_to_hex [OF ok(1), of inp] out' assms(1) l by (simp add: buffer_read_hex_hash_def buffer_can_read_iff)
qed

theorem format_hex_read_back_witness:
  "buffer_read_hex_hash (buffer_create 0 (to_hex [0xAB] @ [0]) 3) 1 = Some ([0xAB], adv (buffer_create 0 (to_hex [0xAB] @ [0]) 3) 2)"
  using format_hex_read_back [of "[0xAB]" "[7, 7, 7]" 3 "to_hex [0xAB] @ [0]"] format_hex_eq [of "[0xAB]" "[7, 7, 7]"] by simp

end
