(* ===== verification/Bip32.thy ===== *)
theory Bip32
  imports Text_Format
begin

text \<open>
  Derivation paths: reading, formatting and checking them (\<open>src/common/bip32.c\<close>,
  \<open>buffer_read_bip32_path\<close> of \<open>src/common/buffer.c\<close>, \<open>src/swap/bip32_path.c\<close>).
\<close>

section \<open>Model\<close>

definition MAX_BIP32_PATH_STEPS :: nat where "MAX_BIP32_PATH_STEPS = 8"
definition MAX_SERIALIZED_BIP32_PATH_LENGTH :: nat where "MAX_SERIALIZED_BIP32_PATH_LENGTH = 12 * MAX_BIP32_PATH_STEPS"
definition BIP44_PURPOSE_OFFSET :: nat where "BIP44_PURPOSE_OFFSET = 0"
definition BIP44_COIN_TYPE_OFFSET :: nat where "BIP44_COIN_TYPE_OFFSET = 1"
definition BIP44_ACCOUNT_OFFSET :: nat where "BIP44_ACCOUNT_OFFSET = 2"
definition BIP44_CHANGE_OFFSET :: nat where "BIP44_CHANGE_OFFSET = 3"
definition BIP44_ADDRESS_INDEX_OFFSET :: nat where "BIP44_ADDRESS_INDEX_OFFSET = 4"
definition MAX_BIP44_ACCOUNT_RECOMMENDED :: u32 where "MAX_BIP44_ACCOUNT_RECOMMENDED = 100"
definition MAX_BIP44_ADDRESS_INDEX_RECOMMENDED :: u32 where "MAX_BIP44_ADDRESS_INDEX_RECOMMENDED = 50000"

text \<open>
  \<open>inp\<close> is the memory from the pointer on, of which \<open>in_len\<close> bytes are the input; \<open>None\<close> is a read
  behind the memory. The first argument of the loop counts the steps that are left.
\<close>

primrec path_read_loop :: "nat \<Rightarrow> nat \<Rightarrow> bytes \<Rightarrow> nat \<Rightarrow> u32 list \<Rightarrow> (bool \<times> u32 list) option" where
  "path_read_loop 0 offset inp in_len out = Some (True, out)"
| "path_read_loop (Suc n) offset inp in_len out =
     (if offset > in_len then Some (False, out)
      else if offset + 4 > length inp then None
      else path_read_loop n (offset + 4) inp in_len (out @ [read_u32_be inp offset]))"

definition bip32_path_read :: "bytes \<Rightarrow> nat \<Rightarrow> nat \<Rightarrow> (bool \<times> u32 list) option" where
  "bip32_path_read inp in_len out_len =
     (if out_len > MAX_BIP32_PATH_STEPS then Some (False, []) else path_read_loop out_len 0 inp in_len [])"

definition buffer_read_bip32_path :: "buffer_t \<Rightarrow> nat \<Rightarrow> (bool \<times> u32 list \<times> buffer_t) option" where
  "buffer_read_bip32_path buffer out_len = do {
     (ok, out) \<leftarrow> bip32_path_read (drop (unat (buf_offset buffer)) (buf_ptr buffer))
       (unat (buf_size buffer - buf_offset buffer)) out_len;
     if \<not> ok then Some (False, out, buffer)
     else Some (True, out, snd (buffer_seek_cur buffer (of_nat (4 * out_len))))
   }"

text \<open>
  \<open>snprintf\<close> into the array at an offset, and the length of the string there; \<open>put_text\<close> is both,
  with the test of the length. The array is cleared on failure.
\<close>

definition snprintf :: "nat \<Rightarrow> bytes \<Rightarrow> bytes \<Rightarrow> bytes" where
  "snprintf offset text out =
     (if length out \<le> offset then out
      else splice out offset (take (length out - offset - 1) text @ [0]))"

definition put_text :: "bytes \<Rightarrow> nat \<times> bytes \<Rightarrow> (bytes + nat \<times> bytes)" where
  "put_text text st = (case st of (offset, out) \<Rightarrow>
     let out = snprintf offset text out; written = strlen (drop offset out)
     in if written = 0 \<or> written \<ge> length out - offset then Inl (replicate (length out) 0)
        else Inr (offset + written, out))"

primrec path_format_loop :: "u32 list \<Rightarrow> nat \<times> bytes \<Rightarrow> bool \<times> bytes" where
  "path_format_loop [] st = (True, snd st)"
| "path_format_loop (step # rest) st =
     (case put_text (decimal (unat (step AND 0x7FFFFFFF))) st of Inl out \<Rightarrow> (False, out)
      | Inr st \<Rightarrow>
     (case (if step AND BIP32_FIRST_HARDENED_CHILD \<noteq> 0 then put_text [ch (CHR 0x27)] st else Inr st) of Inl out \<Rightarrow> (False, out)
      | Inr st \<Rightarrow>
     (case (if rest \<noteq> [] then put_text [ch CHR ''/''] st else Inr st) of Inl out \<Rightarrow> (False, out)
      | Inr st \<Rightarrow> path_format_loop rest st)))"

definition bip32_path_format :: "u32 list \<Rightarrow> bytes \<Rightarrow> bool \<times> bytes" where
  "bip32_path_format bip32_path out =
     (if length bip32_path > MAX_BIP32_PATH_STEPS \<or> length out < 1 then (False, out)
      else path_format_loop bip32_path (0, if bip32_path = [] then out[0 := 0] else out))"

definition is_pubkey_path_standard :: "u32 list \<Rightarrow> u32 \<Rightarrow> u32 list \<Rightarrow> bool" where
  "is_pubkey_path_standard bip32_path expected_purpose expected_coin_types =
     (if length bip32_path < 2 \<or> length bip32_path > 3 then False
      else if bip32_path ! BIP44_PURPOSE_OFFSET \<noteq> (expected_purpose XOR BIP32_FIRST_HARDENED_CHILD) then False
      else let coin_type = bip32_path ! BIP44_COIN_TYPE_OFFSET in
      if coin_type < BIP32_FIRST_HARDENED_CHILD then False
      else if length expected_coin_types > 0 \<and>
        \<not> list_ex (\<lambda>c. coin_type = (c XOR BIP32_FIRST_HARDENED_CHILD)) expected_coin_types then False
      else if length bip32_path = 2 then True
      else let account_number = bip32_path ! BIP44_ACCOUNT_OFFSET in
      if (account_number XOR BIP32_FIRST_HARDENED_CHILD) > MAX_BIP44_ACCOUNT_RECOMMENDED then False
      else True)"

definition MAX_BIP32_PATH :: u8 where "MAX_BIP32_PATH = 10"

record bip32_path_t =
  path_length :: u8
  path_path :: "u32 list"

text \<open>\<open>None\<close> is a read behind the memory at \<open>serialized_path\<close>.\<close>

primrec serialized_path_loop :: "nat \<Rightarrow> bytes \<Rightarrow> u32 list option" where
  "serialized_path_loop 0 p = Some []"
| "serialized_path_loop (Suc n) p =
     (if length p < 4 then None else map_option (Cons (read_u32_be p 0)) (serialized_path_loop n (drop 4 p)))"

definition parse_serialized_path :: "bytes \<Rightarrow> u8 \<Rightarrow> bip32_path_t option option" where
  "parse_serialized_path serialized_path serialized_path_length =
     (if serialized_path_length < 1 then Some None
      else if serialized_path = [] then None
      else if serialized_path ! 0 > MAX_BIP32_PATH \<or>
        int (unat (serialized_path ! 0)) * 4 + 1 > int (unat serialized_path_length) then Some None
      else map_option (\<lambda>ps. Some \<lparr>path_length = serialized_path ! 0, path_path = ps\<rparr>)
        (serialized_path_loop (unat (serialized_path ! 0)) (drop 1 serialized_path)))"

section \<open>Reading\<close>

lemma path_read_loop_eq:
  assumes "offset + 4 * n \<le> length inp"
  shows "\<exists>ps. path_read_loop n offset inp in_len out = Some (n = 0 \<or> offset + 4 * (n - 1) \<le> in_len, ps) \<and>
    (n = 0 \<or> offset + 4 * (n - 1) \<le> in_len \<longrightarrow> ps = out @ map (\<lambda>i. read_u32_be inp (offset + 4 * i)) [0..<n])"
  using assms
proof (induction n arbitrary: offset out)
  case (Suc n)
  have m: "map (\<lambda>i. read_u32_be inp (offset + 4 * i)) [0..<Suc n] =
      read_u32_be inp offset # map (\<lambda>i. read_u32_be inp (offset + 4 + 4 * i)) [0..<n]"
    by (simp add: upt_conv_Cons map_Suc_upt [symmetric] add.assoc del: upt_Suc)
  show ?case
  proof (cases "offset > in_len")
    case True
    then show ?thesis by (cases n) simp_all
  next
    case False
    then show ?thesis
      using Suc.IH [of "offset + 4" "out @ [read_u32_be inp offset]"] Suc.prems m by (cases n) auto
  qed
qed simp

section \<open>Formatting\<close>

definition step_text :: "u32 \<Rightarrow> bytes" where
  "step_text s = decimal (unat (s AND 0x7FFFFFFF)) @ (if s AND BIP32_FIRST_HARDENED_CHILD \<noteq> 0 then [ch (CHR 0x27)] else [])"

fun path_text :: "u32 list \<Rightarrow> bytes" where
  "path_text [] = []"
| "path_text [s] = step_text s"
| "path_text (s # t # ps) = step_text s @ ch CHR ''/'' # path_text (t # ps)"

lemma put_text_fits:
  assumes "length a + length tx < length (a @ b)" "tx \<noteq> []" "0 \<notin> set tx"
  shows "\<exists>b'. put_text tx (length a, a @ b) = Inr (length (a @ tx), (a @ tx) @ b') \<and> length (tx @ b') = length b \<and> hd b' = 0 \<and> b' \<noteq> []"
proof -
  have sp: "snprintf (length a) tx (a @ b) = (a @ tx) @ 0 # drop (Suc (length tx)) b"
    using assms(1) by (cases b) (simp_all add: snprintf_def splice_def)
  have len: "strlen (drop (length a) ((a @ tx) @ 0 # drop (Suc (length tx)) b)) = length tx"
    using assms(3) by (subst drop_append) (simp add: strlen_def takeWhile_append)
  show ?thesis
    using assms(1,2) sp len by (intro exI [of _ "0 # drop (Suc (length tx)) b"]) (simp add: put_text_def Let_def)
qed

lemma path_format_loop_eq:
  assumes "length a + length (path_text path) < length (a @ b)" "b \<noteq> []" "path = [] \<Longrightarrow> hd b = 0"
  shows "\<exists>b'. path_format_loop path (length a, a @ b) = (True, (a @ path_text path) @ 0 # b')"
  using assms
proof (induction path arbitrary: a b)
  case Nil
  then show ?case by (cases b) auto
next
  case (Cons s ps)
  have dec: "decimal n \<noteq> []" "0 \<notin> set (decimal n)" for n
    using decimal_length_pos [of n] decimal_correct [of n] by auto
  let ?d = "decimal (unat (s AND 0x7FFFFFFF))" and ?h = "s AND BIP32_FIRST_HARDENED_CHILD \<noteq> 0"
  have pt: "path_text (s # ps) = step_text s @ (if ps \<noteq> [] then ch CHR ''/'' # path_text ps else [])"
    by (cases ps) simp_all
  have l: "length a + length ?d < length (a @ b)" using Cons.prems(1) by (simp add: pt step_text_def)
  obtain b1 where 1: "put_text ?d (length a, a @ b) = Inr (length (a @ ?d), (a @ ?d) @ b1)" "length (?d @ b1) = length b" "hd b1 = 0" "b1 \<noteq> []"
    using put_text_fits [OF l dec] by auto
  obtain b2 where 2: "(if ?h then put_text [ch (CHR 0x27)] (length (a @ ?d), (a @ ?d) @ b1) else Inr (length (a @ ?d), (a @ ?d) @ b1)) =
      Inr (length (a @ step_text s), (a @ step_text s) @ b2)" "length (step_text s @ b2) = length b" "hd b2 = 0" "b2 \<noteq> []"
  proof (cases ?h)
    case True
    then have "length (a @ ?d) + length [ch (CHR 0x27)] < length ((a @ ?d) @ b1)"
      using Cons.prems(1) 1(2) by (simp add: pt step_text_def)
    then show ?thesis
      using put_text_fits [of "a @ ?d" "[ch (CHR 0x27)]" b1] True 1(2) that by (auto simp: step_text_def ch_def)
  qed (use 1 that in \<open>auto simp: step_text_def\<close>)
  show ?case
  proof (cases "ps = []")
    case True
    then show ?thesis unfolding path_format_loop.simps 1(1) sum.case 2(1) using 2(3,4) pt by (cases b2) auto
  next
    case False
    then have "length (a @ step_text s) + length [ch CHR ''/''] < length ((a @ step_text s) @ b2)"
      using Cons.prems(1) 2(2) by (simp add: pt)
    then obtain b3 where 3: "put_text [ch CHR ''/''] (length (a @ step_text s), (a @ step_text s) @ b2) =
        Inr (length (a @ step_text s @ [ch CHR ''/'']), (a @ step_text s @ [ch CHR ''/'']) @ b3)" "Suc (length b3) = length b2" "b3 \<noteq> []"
      using put_text_fits [of "a @ step_text s" "[ch CHR ''/'']" b2] by (auto simp: ch_def)
    then obtain b' where "path_format_loop ps (length (a @ step_text s @ [ch CHR ''/'']), (a @ step_text s @ [ch CHR ''/'']) @ b3) =
        (True, ((a @ step_text s @ [ch CHR ''/'']) @ path_text ps) @ 0 # b')"
      using Cons.IH [of "a @ step_text s @ [ch CHR ''/'']" b3] Cons.prems(1) False 2(2) pt by auto
    then show ?thesis unfolding path_format_loop.simps 1(1) sum.case 2(1) using 3(1) False pt by simp
  qed
qed

lemma step_number: "unat (s AND 0x7FFFFFFF :: u32) = unat s mod 2 ^ 31" "(s AND BIP32_FIRST_HARDENED_CHILD \<noteq> 0) = (2 ^ 31 \<le> unat s)"
proof -
  have m: "(0x7FFFFFFF :: u32) = mask 31" by (simp add: mask_eq_exp_minus_1)
  show "unat (s AND 0x7FFFFFFF :: u32) = unat s mod 2 ^ 31"
    unfolding m take_bit_eq_mask [symmetric] by (simp add: take_bit_eq_mod unat_mod)
  have h: "BIP32_FIRST_HARDENED_CHILD = push_bit 31 1" by (simp add: BIP32_FIRST_HARDENED_CHILD_def)
  have "(s AND BIP32_FIRST_HARDENED_CHILD \<noteq> 0) = bit s 31" unfolding h by (simp add: bit_iff_and_push_bit_not_eq_0)
  also have "\<dots> = bit (unat s) 31" by (simp add: bit_unsigned_iff)
  also have "\<dots> = odd (unat s div 2 ^ 31)" by (rule bit_iff_odd)
  also have "\<dots> = (2 ^ 31 \<le> unat s)"
  proof -
    have "unat s div 2 ^ 31 < 2" using unsigned_less [of s, where 'a = nat] by (intro less_mult_imp_div_less) simp
    then show ?thesis by (auto simp: less_2_cases_iff div_greater_zero_iff)
  qed
  finally show "(s AND BIP32_FIRST_HARDENED_CHILD \<noteq> 0) = (2 ^ 31 \<le> unat s)" .
qed

lemma step_text_length: "length (step_text s) \<le> 11"
proof -
  have "unat s mod 2 ^ 31 < 10 ^ 10" by (rule less_trans [OF mod_less_divisor]) simp_all
  then have "length (decimal (unat (s AND 0x7FFFFFFF))) \<le> 10" unfolding step_number by (rule decimal_less) simp
  then show ?thesis by (simp add: step_text_def)
qed

lemma path_text_length: "length (path_text path) \<le> 12 * length path"
proof (induction path rule: path_text.induct)
  case (2 s)
  then show ?case using step_text_length [of s] by simp
next
  case (3 s t ps)
  then show ?case using step_text_length [of s] by simp
qed simp

text \<open>The text determines the path.\<close>

lemma step_text_inj:
  assumes "step_text s @ x = step_text t @ y" "x = [] \<or> hd x = ch CHR ''/''" "y = [] \<or> hd y = ch CHR ''/''"
  shows "s = t \<and> x = y"
proof -
  let ?n = "\<lambda>s :: u32. unat s mod 2 ^ 31" and ?h = "\<lambda>s :: u32. 2 ^ 31 \<le> unat s"
  have st: "step_text u = decimal (?n u) @ (if ?h u then [ch (CHR 0x27)] else [])" for u
    unfolding step_text_def step_number by simp
  have tw: "takeWhile is_digit (step_text u @ z) = decimal (?n u)" if "z = [] \<or> hd z = ch CHR ''/''" for u z
  proof -
    have "\<forall>c\<in>set (decimal k). is_digit c" for k using decimal_correct by blast
    then show ?thesis
      using that unfolding st by (cases z) (auto simp: takeWhile_append is_digit_def ch_def)
  qed
  have d: "decimal (?n s) = decimal (?n t)" using tw [OF assms(2), of s] tw [OF assms(3), of t] assms(1) by simp
  then have n: "?n s = ?n t" using decimal_correct [of "?n s"] decimal_correct [of "?n t"] by simp
  have r: "(if ?h s then [ch (CHR 0x27)] else []) @ x = (if ?h t then [ch (CHR 0x27)] else []) @ y"
    using assms(1) d unfolding st by simp
  have "ch (CHR 0x27) \<noteq> ch CHR ''/''" by (simp add: ch_def)
  then have h: "?h s = ?h t" using r assms(2,3) by (auto split: if_splits)
  have eq: "unat u = ?n u + (if ?h u then 2 ^ 31 else 0)" for u :: u32
  proof -
    have "unat u - 2147483648 < 2147483648" using unat_size_t_less [of u] by linarith
    then show ?thesis by (auto simp: le_mod_geq)
  qed
  have "unat s = unat t" using eq [of s] eq [of t] unfolding n h by simp
  then show ?thesis using r h by (simp add: word_unat_eq_iff)
qed

lemma path_text_Cons: "path_text (s # ps) = step_text s @ (if ps \<noteq> [] then ch CHR ''/'' # path_text ps else [])"
  by (cases ps) simp_all

lemma step_text_ne: "step_text s \<noteq> []"
  using decimal_length_pos [of "unat (s AND 0x7FFFFFFF)"] by (auto simp: step_text_def)

lemma path_text_inj: "path_text p = path_text q \<Longrightarrow> p = q"
proof (induction p arbitrary: q)
  case Nil
  then show ?case by (cases q) (simp_all add: path_text_Cons step_text_ne)
next
  case (Cons s ps)
  then obtain t qs where q: "q = t # qs" by (cases q) (simp_all add: path_text_Cons step_text_ne)
  have "s = t \<and> (if ps \<noteq> [] then ch CHR ''/'' # path_text ps else []) = (if qs \<noteq> [] then ch CHR ''/'' # path_text qs else [])"
    using Cons.prems unfolding q path_text_Cons by (intro step_text_inj) simp_all
  then show ?case using Cons.IH [of qs] q by (auto split: if_splits)
qed

lemma path_text_no_zero: "0 \<notin> set (path_text p)"
proof -
  have "0 \<notin> set (step_text s)" for s
    using decimal_correct [of "unat (s AND 0x7FFFFFFF)"] by (auto simp: step_text_def ch_def)
  then show ?thesis by (induction p rule: path_text.induct) (auto simp: ch_def)
qed

lemma bip32_path_format_eq:
  assumes "length path \<le> MAX_BIP32_PATH_STEPS" "length out = MAX_SERIALIZED_BIP32_PATH_LENGTH + 1"
  shows "\<exists>rest. bip32_path_format path out = (True, path_text path @ 0 # rest)"
proof -
  let ?out = "if path = [] then out[0 := 0] else out"
  have "out \<noteq> []" using assms(2) by auto
  then have "hd ?out = 0" if "path = []" using that by (cases out) simp_all
  moreover have "length (path_text path) < length ?out"
    using path_text_length [of path] assms by (simp add: MAX_SERIALIZED_BIP32_PATH_LENGTH_def MAX_BIP32_PATH_STEPS_def)
  moreover have "?out \<noteq> []" using \<open>out \<noteq> []\<close> by simp
  ultimately show ?thesis
    using path_format_loop_eq [of "[]" path ?out] assms by (simp add: bip32_path_format_def)
qed

section \<open>Properties\<close>



text \<open>C29: \<open>bip32_path_read\<close> tests the start of each step, not its end: it accepts a path whose last
  step lies behind the end of the input, and reads four bytes that do not belong to it.\<close>
theorem bip32_path_read_bounds:
  assumes "out_len \<le> MAX_BIP32_PATH_STEPS" "4 * out_len \<le> length inp"
  shows "\<exists>ps. bip32_path_read inp in_len out_len = Some (out_len = 0 \<or> 4 * (out_len - 1) \<le> in_len, ps) \<and>
    (out_len = 0 \<or> 4 * (out_len - 1) \<le> in_len \<longrightarrow> ps = map (\<lambda>i. read_u32_be inp (4 * i)) [0..<out_len])"
  using path_read_loop_eq [of 0 out_len inp in_len "[]"] assms by (simp add: bip32_path_read_def)

theorem bip32_path_read_bounds_witness:
  "\<exists>ps. bip32_path_read [0, 0, 0, 44, 1, 2, 3, 4] 4 2 = Some (True, ps)"
  using bip32_path_read_bounds [of 2 "[0, 0, 0, 44, 1, 2, 3, 4]" 4] by (auto simp: MAX_BIP32_PATH_STEPS_def)

end
