(* ===== verification/Crypto_Taproot.thy ===== *)
theory Crypto_Taproot
  imports Crypto_Hash "HOL-Library.List_Lexorder"
begin

text \<open>
  The taproot helpers of \<open>src/crypto.c\<close>: tagged hashes (BIP-340), the combination of the hashes of
  two subtrees and the tweaks of public and secret keys (BIP-341). SHA-256 is the parameter \<open>H\<close>; the
  modular arithmetic and the curve operations of the operating system are the fields of a record,
  with \<open>None\<close> where they report an error.
\<close>

record cx_ops =
  cx_math_powm :: "bytes \<Rightarrow> bytes \<Rightarrow> bytes \<Rightarrow> bytes option"
  cx_math_addm :: "bytes \<Rightarrow> bytes \<Rightarrow> bytes \<Rightarrow> bytes option"
  cx_math_sub :: "bytes \<Rightarrow> bytes \<Rightarrow> bytes option"
  cx_math_cmp :: "bytes \<Rightarrow> bytes \<Rightarrow> int option"
  cx_ecfp_scalar_mult :: "bytes \<Rightarrow> bytes \<Rightarrow> bytes option"
  cx_ecfp_add_point :: "bytes \<Rightarrow> bytes \<Rightarrow> bytes option"

section \<open>Constants\<close>

definition secp256k1_generator :: bytes where
  "secp256k1_generator =
    [0x04,
     0x79, 0xbe, 0x66, 0x7e, 0xf9, 0xdc, 0xbb, 0xac, 0x55, 0xa0, 0x62, 0x95, 0xce, 0x87, 0x0b, 0x07,
     0x02, 0x9b, 0xfc, 0xdb, 0x2d, 0xce, 0x28, 0xd9, 0x59, 0xf2, 0x81, 0x5b, 0x16, 0xf8, 0x17, 0x98,
     0x48, 0x3a, 0xda, 0x77, 0x26, 0xa3, 0xc4, 0x65, 0x5d, 0xa4, 0xfb, 0xfc, 0x0e, 0x11, 0x08, 0xa8,
     0xfd, 0x17, 0xb4, 0x48, 0xa6, 0x85, 0x54, 0x19, 0x9c, 0x47, 0xd0, 0x8f, 0xfb, 0x10, 0xd4, 0xb8]"

definition secp256k1_p :: bytes where
  "secp256k1_p =
    [0xff, 0xff, 0xff, 0xff, 0xff, 0xff, 0xff, 0xff, 0xff, 0xff, 0xff, 0xff, 0xff, 0xff, 0xff, 0xff,
     0xff, 0xff, 0xff, 0xff, 0xff, 0xff, 0xff, 0xff, 0xff, 0xff, 0xff, 0xfe, 0xff, 0xff, 0xfc, 0x2f]"

definition secp256k1_n :: bytes where
  "secp256k1_n =
    [0xff, 0xff, 0xff, 0xff, 0xff, 0xff, 0xff, 0xff, 0xff, 0xff, 0xff, 0xff, 0xff, 0xff, 0xff, 0xfe,
     0xba, 0xae, 0xdc, 0xe6, 0xaf, 0x48, 0xa0, 0x3b, 0xbf, 0xd2, 0x5e, 0x8c, 0xd0, 0x36, 0x41, 0x41]"

definition secp256k1_sqr_exponent :: bytes where
  "secp256k1_sqr_exponent =
    [0x3f, 0xff, 0xff, 0xff, 0xff, 0xff, 0xff, 0xff, 0xff, 0xff, 0xff, 0xff, 0xff, 0xff, 0xff, 0xff,
     0xff, 0xff, 0xff, 0xff, 0xff, 0xff, 0xff, 0xff, 0xff, 0xff, 0xff, 0xff, 0xbf, 0xff, 0xff, 0x0c]"

definition BIP0341_taptweak_tag :: bytes where
  "BIP0341_taptweak_tag = str ''TapTweak''"

definition BIP0341_tapbranch_tag :: bytes where
  "BIP0341_tapbranch_tag = str ''TapBranch''"

definition BIP0341_tapleaf_tag :: bytes where
  "BIP0341_tapleaf_tag = str ''TapLeaf''"

section \<open>Operations\<close>

definition secp256k1_point :: "cx_ops \<Rightarrow> bytes \<Rightarrow> bytes option" where
  "secp256k1_point cx k = cx_ecfp_scalar_mult cx secp256k1_generator k"

definition crypto_tr_tagged_hash_init :: "(bytes \<Rightarrow> bytes) \<Rightarrow> bytes \<Rightarrow> hash_context" where
  "crypto_tr_tagged_hash_init H tag =
     (let hashtag = crypto_hash_digest H (crypto_hash_update [] tag)
      in crypto_hash_update (crypto_hash_update [] hashtag) hashtag)"

definition crypto_tr_tapleaf_hash_init :: "(bytes \<Rightarrow> bytes) \<Rightarrow> hash_context" where
  "crypto_tr_tapleaf_hash_init H = crypto_tr_tagged_hash_init H BIP0341_tapleaf_tag"

definition crypto_tr_lift_x :: "cx_ops \<Rightarrow> bytes \<Rightarrow> bytes option" where
  "crypto_tr_lift_x cx x = do {
     c \<leftarrow> cx_math_powm cx x [3] secp256k1_p;
     c \<leftarrow> cx_math_addm cx c (replicate 31 0 @ [7]) secp256k1_p;
     y \<leftarrow> cx_math_powm cx c secp256k1_sqr_exponent secp256k1_p;
     y_2 \<leftarrow> cx_math_powm cx y [2] secp256k1_p;
     diff \<leftarrow> cx_math_cmp cx y_2 c;
     guard (diff = 0);
     y \<leftarrow> (if y ! 31 AND 1 \<noteq> 0 then cx_math_sub cx secp256k1_p y else Some y);
     Some ([0x04] @ x @ y)
   }"

definition crypto_tr_tagged_hash :: "(bytes \<Rightarrow> bytes) \<Rightarrow> bytes \<Rightarrow> bytes \<Rightarrow> bytes \<Rightarrow> bytes" where
  "crypto_tr_tagged_hash H tag data data2 =
     (let ctx = crypto_hash_update (crypto_tr_tagged_hash_init H tag) data;
          ctx = (if length data2 > 0 then crypto_hash_update ctx data2 else ctx)
      in crypto_hash_digest H ctx)"

definition crypto_tr_combine_taptree_hashes :: "(bytes \<Rightarrow> bytes) \<Rightarrow> bytes \<Rightarrow> bytes \<Rightarrow> bytes" where
  "crypto_tr_combine_taptree_hashes H left_h right_h =
     (if left_h < right_h then crypto_tr_tagged_hash H BIP0341_tapbranch_tag left_h right_h
      else crypto_tr_tagged_hash H BIP0341_tapbranch_tag right_h left_h)"

text \<open>The parity of the y coordinate and the x coordinate of the tweaked key.\<close>

definition crypto_tr_tweak_pubkey :: "cx_ops \<Rightarrow> (bytes \<Rightarrow> bytes) \<Rightarrow> bytes \<Rightarrow> bytes \<Rightarrow> (bool \<times> bytes) option" where
  "crypto_tr_tweak_pubkey cx H pubkey h = do {
     let t = crypto_tr_tagged_hash H BIP0341_taptweak_tag pubkey h;
     diff \<leftarrow> cx_math_cmp cx t secp256k1_n;
     guard (diff < 0);
     lifted_pubkey \<leftarrow> crypto_tr_lift_x cx pubkey;
     Q \<leftarrow> secp256k1_point cx t;
     Q \<leftarrow> cx_ecfp_add_point cx Q lifted_pubkey;
     Some (Q ! 64 AND 1 \<noteq> 0, take 32 (drop 1 Q))
   }"

definition crypto_tr_tweak_seckey :: "cx_ops \<Rightarrow> (bytes \<Rightarrow> bytes) \<Rightarrow> bytes \<Rightarrow> bytes \<Rightarrow> bytes option" where
  "crypto_tr_tweak_seckey cx H seckey h = do {
     P \<leftarrow> secp256k1_point cx seckey;
     out \<leftarrow> (if P ! 64 AND 1 \<noteq> 0 then cx_math_sub cx secp256k1_n seckey else Some seckey);
     let t = crypto_tr_tagged_hash H BIP0341_taptweak_tag (take 32 (drop 1 P)) h;
     diff \<leftarrow> cx_math_cmp cx t secp256k1_n;
     guard (diff < 0);
     cx_math_addm cx out t secp256k1_n
   }"

section \<open>Properties\<close>

text \<open>The hash of a branch of a taproot tree does not depend on the order of its two subtrees.\<close>

theorem combine_taptree_hashes_commute:
  "crypto_tr_combine_taptree_hashes H l r = crypto_tr_combine_taptree_hashes H r l"
  by (cases l r rule: linorder_cases) (auto simp: crypto_tr_combine_taptree_hashes_def)

text \<open>The number that a big-endian array stands for.\<close>

definition be_value :: "bytes \<Rightarrow> nat" where
  "be_value bs = foldl (\<lambda>v b. 256 * v + unat b) 0 bs"

lemma be_value_snoc: "be_value (bs @ [b]) = 256 * be_value bs + unat b"
  by (simp add: be_value_def)

lemma be_value_zeros: "be_value (replicate n 0 @ bs) = be_value bs"
  by (induction n) (simp_all add: be_value_def)

lemma be_value_even:
  assumes "length bs = 32"
  shows "even (be_value bs) \<longleftrightarrow> \<not> (bs ! 31 AND 1 \<noteq> 0)"
proof -
  obtain cs b where bs: "bs = cs @ [b]" using assms by (cases bs rule: rev_cases) auto
  then have "length cs = 31" using assms by simp
  then have "bs ! 31 = b" using bs nth_append_length by metis
  moreover have "b AND 1 \<noteq> 0 \<longleftrightarrow> odd (unat b)"
    by (simp add: and_one_eq odd_iff_mod_2_eq_one [symmetric] bit_0 [symmetric] bit_unsigned_iff)
  ultimately show ?thesis by (simp add: bs be_value_snoc)
qed

text \<open>
  What the documentation of the operating system says of the arithmetic operations: where they
  succeed, they compute powers and sums modulo \<open>m\<close>, differences, and the order of two arrays of
  the same length.
\<close>

definition cx_math_ok :: "cx_ops \<Rightarrow> bool" where
  "cx_math_ok cx \<longleftrightarrow>
     (\<forall>a e m r. cx_math_powm cx a e m = Some r \<longrightarrow>
        length r = length m \<and> be_value r = be_value a ^ be_value e mod be_value m) \<and>
     (\<forall>a b m r. cx_math_addm cx a b m = Some r \<longrightarrow>
        length r = length m \<and> be_value r = (be_value a + be_value b) mod be_value m) \<and>
     (\<forall>a b r. cx_math_sub cx a b = Some r \<longrightarrow> be_value b \<le> be_value a \<longrightarrow>
        length r = length a \<and> be_value r = be_value a - be_value b) \<and>
     (\<forall>a b d. cx_math_cmp cx a b = Some d \<longrightarrow> (d = 0 \<longleftrightarrow> be_value a = be_value b) \<and> (d < 0 \<longleftrightarrow> be_value a < be_value b))"

lemma secp256k1_p_value: "be_value secp256k1_p = 2 ^ 256 - 2 ^ 32 - 977"
  by (simp add: secp256k1_p_def be_value_def)

lemma neg_square_mod: "y < p \<Longrightarrow> (p - y)\<^sup>2 mod p = y\<^sup>2 mod (p :: nat)"
proof -
  assume "y < p"
  then have "int (p - y) = int p - int y" by simp
  then have "int ((p - y)\<^sup>2) = int (y\<^sup>2) + int p * (int p - 2 * int y)"
    by (simp only: of_nat_power) (simp add: power2_eq_square algebra_simps)
  then have "int ((p - y)\<^sup>2) mod int p = int (y\<^sup>2) mod int p" by simp
  then show ?thesis by (metis zmod_int of_nat_eq_iff)
qed

text \<open>C13: \<open>crypto_tr_lift_x\<close> returns the uncompressed encoding of a point of the curve with the given
  x coordinate and an even y coordinate.\<close>

theorem crypto_tr_lift_x_on_curve:
  assumes "cx_math_ok cx" and "crypto_tr_lift_x cx x = Some P"
  shows "\<exists>y. P = 0x04 # x @ y \<and> length y = 32 \<and> even (be_value y) \<and>
    (be_value y)\<^sup>2 mod be_value secp256k1_p = (be_value x ^ 3 + 7) mod be_value secp256k1_p"
proof -
  let ?p = "be_value secp256k1_p"
  have p: "odd ?p" "?p > 7" "length secp256k1_p = 32" by (simp_all add: secp256k1_p_value) (simp add: secp256k1_p_def)
  obtain c0 c y y2 y' where s: "cx_math_powm cx x [3] secp256k1_p = Some c0"
      "cx_math_addm cx c0 (replicate 31 0 @ [7]) secp256k1_p = Some c"
      "cx_math_powm cx c secp256k1_sqr_exponent secp256k1_p = Some y"
      "cx_math_powm cx y [2] secp256k1_p = Some y2" "cx_math_cmp cx y2 c = Some 0"
      "(if y ! 31 AND 1 \<noteq> 0 then cx_math_sub cx secp256k1_p y else Some y) = Some y'" "P = 0x04 # x @ y'"
    using assms(2) by (auto simp: crypto_tr_lift_x_def bind_eq_Some_conv simp del: bind_guard)
  have v: "be_value [3] = 3" "be_value [2] = 2" "be_value (replicate 31 0 @ [7]) = 7"
    by (simp_all add: be_value_zeros) (simp_all add: be_value_def)
  have y: "length y = 32" "be_value y < ?p"
    using assms(1) s(3) p unfolding cx_math_ok_def by auto
  have sq: "(be_value y)\<^sup>2 mod ?p = (be_value x ^ 3 + 7) mod ?p"
    using assms(1) s(1,2,4,5) v unfolding cx_math_ok_def by (metis mod_add_left_eq)
  show ?thesis
  proof (cases "y ! 31 AND 1 \<noteq> 0")
    case True
    then have "length y' = 32 \<and> be_value y' = ?p - be_value y"
      using assms(1) s(6) p y unfolding cx_math_ok_def by auto
    then show ?thesis using neg_square_mod [OF y(2)] sq be_value_even [OF y(1)] True p y s(7) by auto
  next
    case False
    then show ?thesis using s sq y be_value_even [OF y(1)] by auto
  qed
qed

text \<open>An exact implementation of the arithmetic, and the point whose y coordinate is -1.\<close>

primrec be_bytes :: "nat \<Rightarrow> nat \<Rightarrow> bytes" where
  "be_bytes 0 v = []"
| "be_bytes (Suc n) v = be_bytes n (v div 256) @ [of_nat v]"

lemma be_bytes_length [simp]: "length (be_bytes n v) = n"
  by (induction n arbitrary: v) simp_all

lemma be_value_be_bytes: "be_value (be_bytes n v) = v mod 256 ^ n"
  by (induction n arbitrary: v) (simp_all add: be_value_snoc unat_of_nat mod_mult2_eq, simp add: be_value_def)

lemma be_value_less: "be_value bs < 256 ^ length bs"
proof (induction bs rule: rev_induct)
  case (snoc b bs)
  then show ?case using unsigned_less [of b, where ?'a = nat] by (simp add: be_value_snoc)
qed (simp add: be_value_def)

definition exact_cx :: cx_ops where
  "exact_cx = \<lparr>
     cx_math_powm = (\<lambda>a e m. if be_value m = 0 then None else Some (be_bytes (length m) (be_value a ^ be_value e mod be_value m))),
     cx_math_addm = (\<lambda>a b m. if be_value m = 0 then None else Some (be_bytes (length m) ((be_value a + be_value b) mod be_value m))),
     cx_math_sub = (\<lambda>a b. Some (be_bytes (length a) (be_value a - be_value b))),
     cx_math_cmp = (\<lambda>a b. Some (int (be_value a) - int (be_value b))),
     cx_ecfp_scalar_mult = (\<lambda>_ _. None), cx_ecfp_add_point = (\<lambda>_ _. None)\<rparr>"

lemma exact_cx_ok: "cx_math_ok exact_cx"
proof -
  have m: "v mod be_value m mod 256 ^ length m = v mod be_value m" if "be_value m \<noteq> 0" for v m
    using that be_value_less [of m] by (meson mod_less mod_less_divisor less_trans neq0_conv)
  have d: "(be_value a - v) mod 256 ^ length a = be_value a - v" for a v
    using be_value_less [of a] by (meson less_imp_diff_less mod_less)
  show ?thesis by (auto simp: cx_math_ok_def exact_cx_def be_value_be_bytes m d split: if_splits)
qed

definition minus_one_x :: bytes where
  "minus_one_x =
    [0x1f, 0xe1, 0xe5, 0xef, 0x3f, 0xce, 0xb5, 0xc1, 0x35, 0xab, 0x77, 0x41, 0x33, 0x3c, 0xe5, 0xa6,
     0xe8, 0x0d, 0x68, 0x16, 0x76, 0x53, 0xf6, 0xb2, 0xb2, 0x4b, 0xcb, 0xcf, 0xaa, 0xaf, 0xf5, 0x07]"

lemma minus_one_x_cube: "(be_value minus_one_x ^ 3 + 7) mod be_value secp256k1_p = 1"
proof -
  have "be_value minus_one_x = 14420825845716772930243294451304383010336953996540286189290595400563546912007"
    by (simp add: minus_one_x_def be_value_def)
  then show ?thesis by (simp add: secp256k1_p_value)
qed

lemma lift_minus_one: "crypto_tr_lift_x exact_cx minus_one_x = Some (0x04 # minus_one_x @ be_bytes 32 (be_value secp256k1_p - 1))"
proof -
  have p: "be_value secp256k1_p \<noteq> 0" "be_value secp256k1_p > 1" "be_value secp256k1_p < 256 ^ 32" "length secp256k1_p = 32"
    by (simp_all add: secp256k1_p_value) (simp add: secp256k1_p_def)
  have v: "be_value [3] = 3" "be_value [2] = 2" "be_value (replicate 31 0 @ [7]) = 7"
    by (simp_all add: be_value_zeros) (simp_all add: be_value_def)
  have r: "be_value (be_bytes 32 (v mod be_value secp256k1_p)) = v mod be_value secp256k1_p" for v
    using p by (metis be_value_be_bytes mod_less mod_less_divisor less_trans neq0_conv)
  have c: "(be_value minus_one_x ^ 3 mod be_value secp256k1_p + 7) mod be_value secp256k1_p = 1"
    using minus_one_x_cube by (simp add: mod_add_left_eq)
  have one: "be_value (be_bytes 32 1) = 1" "be_bytes 32 1 ! 31 AND 1 \<noteq> 0"
    using be_value_even [of "be_bytes 32 1"] by (simp_all add: be_value_be_bytes)
  show ?thesis using one p(2)
    by (simp add: crypto_tr_lift_x_def exact_cx_def p v r c)
qed

theorem crypto_tr_lift_x_on_curve_witness:
  "\<exists>y. 0x04 # minus_one_x @ be_bytes 32 (be_value secp256k1_p - 1) = 0x04 # minus_one_x @ y \<and> length y = 32 \<and>
     even (be_value y) \<and> (be_value y)\<^sup>2 mod be_value secp256k1_p = (be_value minus_one_x ^ 3 + 7) mod be_value secp256k1_p"
  by (rule crypto_tr_lift_x_on_curve [OF exact_cx_ok lift_minus_one])

end
