(* ===== verification/Keys.thy ===== *)
theory Keys
  imports Address Bip32 Crypto_Taproot
begin

text \<open>
  Keys (\<open>src/crypto.c\<close>): compressed and uncompressed public keys, extended public keys and their
  unhardened children, fingerprints, and the keys of the device. Derivations from the seed, message
  authentication codes and signatures are operations of the operating system and fields of a record,
  with \<open>None\<close> where they report an error.
\<close>

record key_ops =
  cx_hmac_sha256 :: "bytes \<Rightarrow> bytes \<Rightarrow> bytes"
  cx_hmac_sha512 :: "bytes \<Rightarrow> bytes \<Rightarrow> bytes"
  bip32_derive_get_pubkey_256 :: "u32 list \<Rightarrow> (bytes \<times> bytes) option"
  bip32_derive_init_privkey_256 :: "u32 list \<Rightarrow> bytes option"
  os_derive_slip21 :: "bytes \<Rightarrow> bytes option"
  cx_ecfp_generate_pair :: "bytes \<Rightarrow> bytes option"
  cx_ecdsa_sign :: "bytes \<Rightarrow> bytes \<Rightarrow> (bytes \<times> u32) option"
  cx_ecschnorr_sign :: "bytes \<Rightarrow> bytes \<Rightarrow> bytes option"

text \<open>The packed structure of an extended public key, and its 78 bytes.\<close>

record serialized_extended_pubkey =
  xpub_version :: bytes
  xpub_depth :: u8
  xpub_parent_fingerprint :: bytes
  xpub_child_number :: bytes
  xpub_chain_code :: bytes
  xpub_compressed_pubkey :: bytes

definition xpub_bytes :: "serialized_extended_pubkey \<Rightarrow> bytes" where
  "xpub_bytes k = xpub_version k @ [xpub_depth k] @ xpub_parent_fingerprint k @ xpub_child_number k @
     xpub_chain_code k @ xpub_compressed_pubkey k"

definition xpub_of_bytes :: "bytes \<Rightarrow> serialized_extended_pubkey" where
  "xpub_of_bytes b =
     \<lparr>xpub_version = take 4 b, xpub_depth = b ! 4, xpub_parent_fingerprint = take 4 (drop 5 b),
      xpub_child_number = take 4 (drop 9 b), xpub_chain_code = take 32 (drop 13 b),
      xpub_compressed_pubkey = take 33 (drop 45 b)\<rparr>"

section \<open>Operations\<close>

definition crypto_get_compressed_pubkey :: "bytes \<Rightarrow> bytes option" where
  "crypto_get_compressed_pubkey uncompressed_key =
     (if uncompressed_key ! 0 \<noteq> 0x04 then None
      else Some ((if uncompressed_key ! 64 mod 2 = 1 then 0x03 else 0x02) # take 32 (drop 1 uncompressed_key)))"

definition crypto_get_uncompressed_pubkey :: "cx_ops \<Rightarrow> bytes \<Rightarrow> bytes option" where
  "crypto_get_uncompressed_pubkey cx compressed_key = do {
     let prefix = compressed_key ! 0;
     guard (\<not> (prefix \<noteq> 0x02 \<and> prefix \<noteq> 0x03));
     let x = take 32 (drop 1 compressed_key);
     y \<leftarrow> cx_math_powm cx x [3] secp256k1_p;
     y \<leftarrow> cx_math_addm cx y (replicate 31 0 @ [7]) secp256k1_p;
     y \<leftarrow> cx_math_powm cx y secp256k1_sqr_exponent secp256k1_p;
     y \<leftarrow> (if (prefix XOR y ! 31) AND 1 \<noteq> 0 then cx_math_sub cx secp256k1_p y else Some y);
     Some ([0x04] @ x @ y)
   }"

definition crypto_get_key_fingerprint :: "hash_fns \<Rightarrow> bytes \<Rightarrow> u32" where
  "crypto_get_key_fingerprint hf pub_key = read_u32_be (crypto_hash160 hf (take 33 pub_key)) 0"

text \<open>
  \<open>stale\<close> is the content of the array \<open>K_par\<close> before the call of \<open>crypto_get_uncompressed_pubkey\<close>,
  whose failure is not looked at, and \<open>old\<close> is the key in the structure of the child before, which
  stays there when \<open>crypto_get_compressed_pubkey\<close> fails.
\<close>

definition bip32_CKDpub :: "cx_ops \<Rightarrow> hash_fns \<Rightarrow> key_ops \<Rightarrow> bytes \<Rightarrow> bytes \<Rightarrow> serialized_extended_pubkey \<Rightarrow> u32 \<Rightarrow>
    serialized_extended_pubkey option" where
  "bip32_CKDpub cx hf os stale old parent index = do {
     guard (\<not> index \<ge> BIP32_FIRST_HARDENED_CHILD);
     guard (xpub_depth parent \<noteq> 255);
     let tmp = write_u32_be (xpub_compressed_pubkey parent @ replicate 4 0) 33 index;
     let I = cx_hmac_sha512 os (xpub_chain_code parent) tmp;
     let I_L = take 32 I;
     let I_R = take 32 (drop 32 I);
     diff \<leftarrow> cx_math_cmp cx I_L secp256k1_n;
     guard (\<not> diff \<ge> 0);
     P \<leftarrow> secp256k1_point cx I_L;
     let K_par = (case crypto_get_uncompressed_pubkey cx (xpub_compressed_pubkey parent) of None \<Rightarrow> stale | Some K \<Rightarrow> K);
     child_uncompressed_pubkey \<leftarrow> cx_ecfp_add_point cx P K_par;
     let parent_fingerprint = crypto_get_key_fingerprint hf (xpub_compressed_pubkey parent);
     let child_pubkey = (case crypto_get_compressed_pubkey child_uncompressed_pubkey of None \<Rightarrow> old | Some k \<Rightarrow> k);
     Some \<lparr>xpub_version = xpub_version parent, xpub_depth = xpub_depth parent + 1,
           xpub_parent_fingerprint = write_u32_be (replicate 4 0) 0 parent_fingerprint,
           xpub_child_number = write_u32_be (replicate 4 0) 0 index,
           xpub_chain_code = I_R, xpub_compressed_pubkey = child_pubkey\<rparr>
   }"

definition crypto_get_compressed_pubkey_at_path :: "key_ops \<Rightarrow> u32 list \<Rightarrow> (bytes \<times> bytes) option" where
  "crypto_get_compressed_pubkey_at_path os bip32_path = do {
     (raw_public_key, chain_code) \<leftarrow> bip32_derive_get_pubkey_256 os bip32_path;
     pubkey \<leftarrow> crypto_get_compressed_pubkey raw_public_key;
     Some (pubkey, chain_code)
   }"

definition BIP32_PUBKEY_VERSION_MAINNET :: u32 where "BIP32_PUBKEY_VERSION_MAINNET = 0x0488B21E"
definition BIP32_PUBKEY_VERSION_TESTNET :: u32 where "BIP32_PUBKEY_VERSION_TESTNET = 0x043587CF"

definition crypto_get_master_fingerprint_path :: "coin \<Rightarrow> u32 list" where
  "crypto_get_master_fingerprint_path coin =
     (if BIP32_PUBKEY_VERSION coin = BIP32_PUBKEY_VERSION_MAINNET then [0x8000002c, 0x80000039]
      else if BIP32_PUBKEY_VERSION coin = BIP32_PUBKEY_VERSION_TESTNET then [0x8000002c, 0x80000001]
      else [])"

text \<open>The failure of the derivation is not looked at; \<open>stale\<close> is the array it leaves as it was.\<close>

definition crypto_get_master_key_fingerprint :: "hash_fns \<Rightarrow> key_ops \<Rightarrow> bytes \<Rightarrow> coin \<Rightarrow> u32" where
  "crypto_get_master_key_fingerprint hf os stale coin =
     crypto_get_key_fingerprint hf
       (case crypto_get_compressed_pubkey_at_path os (crypto_get_master_fingerprint_path coin) of
          None \<Rightarrow> stale | Some (pubkey, _) \<Rightarrow> pubkey)"

text \<open>The label is copied to an array of 32 bytes.\<close>

definition crypto_derive_symmetric_key :: "key_ops \<Rightarrow> bytes \<Rightarrow> bytes option" where
  "crypto_derive_symmetric_key os label = os_derive_slip21 os label"

definition get_extended_pubkey_at_path :: "hash_fns \<Rightarrow> key_ops \<Rightarrow> u32 list \<Rightarrow> u32 \<Rightarrow> serialized_extended_pubkey option" where
  "get_extended_pubkey_at_path hf os bip32_path bip32_pubkey_version = do {
     (parent_fingerprint, child_number) \<leftarrow>
       (if bip32_path \<noteq> [] then do {
          (parent_pubkey, _) \<leftarrow> crypto_get_compressed_pubkey_at_path os (butlast bip32_path);
          Some (crypto_get_key_fingerprint hf parent_pubkey, last bip32_path)
        } else Some (0, 0));
     (pubkey, chain_code) \<leftarrow> crypto_get_compressed_pubkey_at_path os bip32_path;
     Some \<lparr>xpub_version = write_u32_be (replicate 4 0) 0 bip32_pubkey_version, xpub_depth = of_nat (length bip32_path),
           xpub_parent_fingerprint = write_u32_be (replicate 4 0) 0 parent_fingerprint,
           xpub_child_number = write_u32_be (replicate 4 0) 0 child_number,
           xpub_chain_code = chain_code, xpub_compressed_pubkey = pubkey\<rparr>
   }"

text \<open>The result has the signature, the public key of the private key when it is asked for, and the value of \<open>info\<close>.\<close>

definition crypto_ecdsa_sign_sha256_hash_with_key :: "key_ops \<Rightarrow> u32 list \<Rightarrow> bytes \<Rightarrow> bool \<Rightarrow> (bytes \<times> bytes option \<times> u32) option" where
  "crypto_ecdsa_sign_sha256_hash_with_key os bip32_path hash want_pubkey = do {
     private_key \<leftarrow> bip32_derive_init_privkey_256 os bip32_path;
     (sig, info) \<leftarrow> cx_ecdsa_sign os private_key (take 32 hash);
     pubkey \<leftarrow> (if want_pubkey then do {
          W \<leftarrow> cx_ecfp_generate_pair os private_key;
          pk \<leftarrow> crypto_get_compressed_pubkey W;
          Some (Some pk)
        } else Some None);
     Some (sig, pubkey, info)
   }"

section \<open>Properties\<close>

lemma take_drop_join: "take n (drop k b) @ drop (k + n) b = drop k b"
  by (metis append_take_drop_id drop_drop add.commute)

lemma xpub_bytes_inverse:
  assumes "length b = 78"
  shows "xpub_bytes (xpub_of_bytes b) = b"
proof -
  have "xpub_bytes (xpub_of_bytes b) = take 4 b @ [b ! 4] @ take 4 (drop 5 b) @ take 4 (drop 9 b) @ take 32 (drop 13 b) @ drop 45 b"
    using assms by (simp add: xpub_bytes_def xpub_of_bytes_def)
  also have "\<dots> = take 4 b @ [b ! 4] @ drop 5 b"
    using take_drop_join [of 32 13 b] take_drop_join [of 4 9 b] take_drop_join [of 4 5 b] by simp
  also have "\<dots> = b"
    using assms Cons_nth_drop_Suc [of 4 b] by simp
  finally show ?thesis .
qed

lemma xpub_of_bytes_inverse:
  assumes "length (xpub_version k) = 4" "length (xpub_parent_fingerprint k) = 4" "length (xpub_child_number k) = 4"
    "length (xpub_chain_code k) = 32" "length (xpub_compressed_pubkey k) = 33"
  shows "xpub_of_bytes (xpub_bytes k) = k"
  using assms by (simp add: xpub_bytes_def xpub_of_bytes_def nth_append)

end
