(* ===== verification/Wallet_Parse.thy ===== *)
theory Wallet_Parse
  imports Wallet_Lex
begin

text \<open>
  The recursive-descent parser of descriptor templates: \<open>parse_script\<close>, \<open>parse_child_scripts\<close>,
  \<open>parse_tree\<close> and \<open>parse_descriptor_template\<close> of \<open>src/common/wallet.c\<close>, with the miniscript type
  rules that they check. The state is the pair of the input buffer and of the output buffer, in
  which the nodes are allocated; a node that does not fit makes the parser fail. The sizes of the
  C structures, which depend on the ABI, are a parameter.

  \<open>parse_script\<close> has one definition per \<open>case\<close> of its \<open>switch\<close>, each with the recursive call as
  its argument \<open>rec\<close>. The recursion of \<open>parse_script\<close> and its loops run on fuel, since they are
  bounded by the length of the input only.
\<close>

section \<open>State\<close>

record node_sizes =
  sizeof_constant :: size_t
  sizeof_with_script :: size_t
  sizeof_with_script2 :: size_t
  sizeof_with_script3 :: size_t
  sizeof_with_key :: size_t
  sizeof_key_placeholder :: size_t
  sizeof_with_uint32 :: size_t
  sizeof_multisig :: size_t
  sizeof_thresh :: size_t
  sizeof_scriptlist :: size_t
  sizeof_with_hash_160 :: size_t
  sizeof_with_hash_256 :: size_t
  sizeof_tree :: size_t
  sizeof_tr :: size_t

record parse_context =
  within_sh :: bool
  within_wsh :: bool
  within_tr :: bool

type_synonym parse_state = "buffer_t \<times> buffer_t"
type_synonym script_parser = "nat \<Rightarrow> parse_context \<Rightarrow> parse_state \<Rightarrow> (policy_node \<times> parse_state) option"

text \<open>\<open>node = buffer_alloc(...); if (node == NULL) return -1;\<close> and the aligning \<open>buffer_alloc\<close> of
  no bytes, whose result the code ignores.\<close>

definition alloc_node :: "buffer_t \<Rightarrow> size_t \<Rightarrow> buffer_t option" where
  "alloc_node out_buf sz = (case buffer_alloc out_buf sz True of (None, _) \<Rightarrow> None | (Some _, b) \<Rightarrow> Some b)"

definition align_cur :: "buffer_t \<Rightarrow> buffer_t" where
  "align_cur out_buf = snd (buffer_alloc out_buf 0 True)"

section \<open>Miniscript type rules\<close>

definition ms :: "miniscript_type \<Rightarrow> bool \<Rightarrow> bool \<Rightarrow> bool \<Rightarrow> bool \<Rightarrow> bool \<Rightarrow> ms_flags" where
  "ms t z o' n d u = \<lparr>ms_type = t, mod_z = z, mod_o = o', mod_n = n, mod_d = d, mod_u = u\<rparr>"

definition type_constant :: "PolicyNodeType \<Rightarrow> ms_flags" where
  "type_constant token =
     (if token = TOKEN_0 then ms MINISCRIPT_TYPE_B True False False True True
      else ms MINISCRIPT_TYPE_B True False False False True)"

definition type_hash :: ms_flags where
  "type_hash = ms MINISCRIPT_TYPE_B False True True True True"

definition type_andor :: "ms_flags \<Rightarrow> ms_flags \<Rightarrow> ms_flags \<Rightarrow> ms_flags option" where
  "type_andor X Y Z = do {
     guard (ms_type X = MINISCRIPT_TYPE_B \<and> mod_d X \<and> mod_u X);
     guard (ms_type Y = ms_type Z);
     guard (ms_type Y \<noteq> MINISCRIPT_TYPE_W);
     Some (ms (ms_type Y)
             (mod_z X \<and> mod_z Y \<and> mod_z Z)
             ((mod_z X \<and> mod_o Y \<and> mod_o Z) \<or> (mod_o X \<and> mod_z Y \<and> mod_z Z))
             False (mod_d Z) (mod_u Y \<and> mod_u Z))
   }"

definition type_and_v :: "ms_flags \<Rightarrow> ms_flags \<Rightarrow> ms_flags option" where
  "type_and_v X Y = do {
     guard (ms_type X = MINISCRIPT_TYPE_V);
     guard (ms_type Y \<noteq> MINISCRIPT_TYPE_W);
     Some (ms (ms_type Y) (mod_z X \<and> mod_z Y)
             ((mod_z X \<and> mod_o Y) \<or> (mod_o X \<and> mod_z Y))
             (mod_n X \<or> (mod_z X \<and> mod_n Y)) False (mod_u Y))
   }"

definition type_and_b :: "ms_flags \<Rightarrow> ms_flags \<Rightarrow> ms_flags option" where
  "type_and_b X Y = do {
     guard (ms_type X = MINISCRIPT_TYPE_B \<and> ms_type Y = MINISCRIPT_TYPE_W);
     Some (ms MINISCRIPT_TYPE_B (mod_z X \<and> mod_z Y)
             ((mod_z X \<and> mod_o Y) \<or> (mod_o X \<and> mod_z Y))
             (mod_n X \<or> (mod_z X \<and> mod_n Y)) (mod_d X \<and> mod_d Y) True)
   }"

definition type_and_n :: "ms_flags \<Rightarrow> ms_flags \<Rightarrow> ms_flags option" where
  "type_and_n X Y = do {
     guard (ms_type X = MINISCRIPT_TYPE_B \<and> mod_d X \<and> mod_u X);
     guard (ms_type Y = MINISCRIPT_TYPE_B);
     Some (ms MINISCRIPT_TYPE_B (mod_z X \<and> mod_z Y) (mod_o X \<and> mod_z Y) False True (mod_u Y))
   }"

definition type_or_b :: "ms_flags \<Rightarrow> ms_flags \<Rightarrow> ms_flags option" where
  "type_or_b X Z = do {
     guard (ms_type X = MINISCRIPT_TYPE_B \<and> mod_d X);
     guard (ms_type Z = MINISCRIPT_TYPE_W \<and> mod_d Z);
     Some (ms MINISCRIPT_TYPE_B (mod_z X \<and> mod_z Z)
             ((mod_z X \<and> mod_o Z) \<or> (mod_o X \<and> mod_z Z)) False True True)
   }"

definition type_or_c :: "ms_flags \<Rightarrow> ms_flags \<Rightarrow> ms_flags option" where
  "type_or_c X Z = do {
     guard (ms_type X = MINISCRIPT_TYPE_B \<and> mod_d X \<and> mod_u X);
     guard (ms_type Z = MINISCRIPT_TYPE_V);
     Some (ms MINISCRIPT_TYPE_V (mod_z X \<and> mod_z Z) (mod_o X \<and> mod_z Z) False False False)
   }"

definition type_or_d :: "ms_flags \<Rightarrow> ms_flags \<Rightarrow> ms_flags option" where
  "type_or_d X Z = do {
     guard (ms_type X = MINISCRIPT_TYPE_B \<and> mod_d X \<and> mod_u X);
     guard (ms_type Z = MINISCRIPT_TYPE_B);
     Some (ms MINISCRIPT_TYPE_B (mod_z X \<and> mod_z Z) (mod_o X \<and> mod_z Z) False (mod_d Z) (mod_u Z))
   }"

definition type_or_i :: "ms_flags \<Rightarrow> ms_flags \<Rightarrow> ms_flags option" where
  "type_or_i X Z = do {
     guard (ms_type X \<noteq> MINISCRIPT_TYPE_W);
     guard (ms_type X = ms_type Z);
     Some (ms (ms_type X) False (mod_z X \<and> mod_z Z) False (mod_d X \<or> mod_d Z) (mod_u X \<and> mod_u Z))
   }"

text \<open>The checks on one child of \<open>thresh\<close>; \<open>first\<close> is \<open>node->n == 1\<close>.\<close>

definition thresh_child_ok :: "bool \<Rightarrow> ms_flags \<Rightarrow> bool" where
  "thresh_child_ok first X \<longleftrightarrow>
     ms_type X = (if first then MINISCRIPT_TYPE_B else MINISCRIPT_TYPE_W) \<and> mod_d X \<and> mod_u X"

definition type_thresh :: "nat \<Rightarrow> nat \<Rightarrow> nat \<Rightarrow> ms_flags" where
  "type_thresh n count_z count_o =
     ms MINISCRIPT_TYPE_B (count_z = n) (int count_z = int n - 1 \<and> count_o = 1) False True True"

definition type_key :: "PolicyNodeType \<Rightarrow> node_flags" where
  "type_key token =
     (case token of
        TOKEN_PK \<Rightarrow> Some (ms MINISCRIPT_TYPE_B False True True True True)
      | TOKEN_PKH \<Rightarrow> Some (ms MINISCRIPT_TYPE_B False False True True True)
      | TOKEN_PK_K \<Rightarrow> Some (ms MINISCRIPT_TYPE_K False True True True True)
      | TOKEN_PK_H \<Rightarrow> Some (ms MINISCRIPT_TYPE_K False False True True True)
      | _ \<Rightarrow> None)"

definition type_timelock :: ms_flags where
  "type_timelock = ms MINISCRIPT_TYPE_B True False False False False"

definition type_multi :: "PolicyNodeType \<Rightarrow> node_flags" where
  "type_multi token =
     (if token = TOKEN_SORTEDMULTI then None
      else Some (ms MINISCRIPT_TYPE_B False False True True True))"

text \<open>The wrappers: the checks and the flags of the last loop of \<open>parse_script\<close>.\<close>

definition type_wrapper :: "PolicyNodeType \<Rightarrow> ms_flags \<Rightarrow> ms_flags option" where
  "type_wrapper token X =
     (case token of
        TOKEN_A \<Rightarrow> do {
          guard (ms_type X = MINISCRIPT_TYPE_B);
          Some (ms MINISCRIPT_TYPE_W False False False (mod_d X) (mod_u X)) }
      | TOKEN_S \<Rightarrow> do {
          guard (ms_type X = MINISCRIPT_TYPE_B \<and> mod_o X);
          Some (ms MINISCRIPT_TYPE_W False False False (mod_d X) (mod_u X)) }
      | TOKEN_C \<Rightarrow> do {
          guard (ms_type X = MINISCRIPT_TYPE_K);
          Some (ms MINISCRIPT_TYPE_B False (mod_o X) (mod_n X) (mod_d X) True) }
      | TOKEN_T \<Rightarrow> do {
          guard (ms_type X = MINISCRIPT_TYPE_V);
          Some (ms MINISCRIPT_TYPE_B (mod_z X) (mod_o X) (mod_n X) False True) }
      | TOKEN_D \<Rightarrow> do {
          guard (ms_type X = MINISCRIPT_TYPE_V \<and> mod_z X);
          Some (ms MINISCRIPT_TYPE_B False True True True False) }
      | TOKEN_V \<Rightarrow> do {
          guard (ms_type X = MINISCRIPT_TYPE_B);
          Some (ms MINISCRIPT_TYPE_V (mod_z X) (mod_o X) (mod_n X) False False) }
      | TOKEN_J \<Rightarrow> do {
          guard (ms_type X = MINISCRIPT_TYPE_B \<and> mod_n X);
          Some (ms MINISCRIPT_TYPE_B False (mod_o X) True True (mod_u X)) }
      | TOKEN_N \<Rightarrow> do {
          guard (ms_type X = MINISCRIPT_TYPE_B);
          Some (ms MINISCRIPT_TYPE_B (mod_z X) (mod_o X) (mod_n X) (mod_d X) True) }
      | TOKEN_L \<Rightarrow> do {
          guard (ms_type X = MINISCRIPT_TYPE_B);
          Some (ms MINISCRIPT_TYPE_B False (mod_z X) False True (mod_u X)) }
      | TOKEN_U \<Rightarrow> do {
          guard (ms_type X = MINISCRIPT_TYPE_B);
          Some (ms MINISCRIPT_TYPE_B False (mod_z X) False True (mod_u X)) }
      | _ \<Rightarrow> None)"

section \<open>Wrappers\<close>

definition is_valid_miniscript_wrapper :: "bool list" where
  "is_valid_miniscript_wrapper =
    [True, False, True, True, False, False, False, False, False, True, False, True, False, True,
     False, False, False, False, True, True, True, True, False, False, False, False]"

definition is_wrapper_char :: "u8 \<Rightarrow> bool" where
  "is_wrapper_char c \<longleftrightarrow> ch CHR ''a'' \<le> c \<and> c \<le> ch CHR ''z'' \<and>
     is_valid_miniscript_wrapper ! unat (c - ch CHR ''a'')"

text \<open>The look-ahead loop: the number of wrapper characters at the cursor.\<close>

primrec count_wrappers :: "nat \<Rightarrow> buffer_t \<Rightarrow> nat \<Rightarrow> nat option" where
  "count_wrappers 0 in_buf n = None"
| "count_wrappers (Suc fuel) in_buf n =
     (case buffer_peek_n in_buf (of_nat n) of
        None \<Rightarrow> Some n
      | Some c \<Rightarrow> if is_wrapper_char c then count_wrappers fuel in_buf (Suc n) else Some n)"

definition wrapper_token :: "u8 \<Rightarrow> PolicyNodeType option" where
  "wrapper_token c =
     (if c = ch CHR ''a'' then Some TOKEN_A else if c = ch CHR ''s'' then Some TOKEN_S
      else if c = ch CHR ''c'' then Some TOKEN_C else if c = ch CHR ''t'' then Some TOKEN_T
      else if c = ch CHR ''d'' then Some TOKEN_D else if c = ch CHR ''v'' then Some TOKEN_V
      else if c = ch CHR ''j'' then Some TOKEN_J else if c = ch CHR ''n'' then Some TOKEN_N
      else if c = ch CHR ''l'' then Some TOKEN_L else if c = ch CHR ''u'' then Some TOKEN_U
      else None)"

primrec parse_wrapper_loop :: "node_sizes \<Rightarrow> nat \<Rightarrow> parse_state \<Rightarrow> (PolicyNodeType list \<times> parse_state) option" where
  "parse_wrapper_loop A 0 st = Some ([], st)"
| "parse_wrapper_loop A (Suc n) st = (case st of (in_buf, out_buf) \<Rightarrow> do {
     out_buf \<leftarrow> alloc_node out_buf (sizeof_with_script A);
     let (_, c, in_buf) = buffer_read_u8 in_buf;
     w \<leftarrow> wrapper_token c;
     (ws, st) \<leftarrow> parse_wrapper_loop A n (in_buf, out_buf);
     Some (w # ws, st)
   })"

text \<open>The wrappers in front of a script, outermost first; only within a top-level \<open>wsh\<close>.\<close>

definition parse_wrappers :: "node_sizes \<Rightarrow> nat \<Rightarrow> parse_context \<Rightarrow> parse_state \<Rightarrow>
    (PolicyNodeType list \<times> parse_state) option" where
  "parse_wrappers A fuel ctx st = (case st of (in_buf, out_buf) \<Rightarrow>
     if within_wsh ctx \<and> \<not> within_sh ctx then do {
       n_wrappers \<leftarrow> count_wrappers fuel in_buf 0;
       if buffer_peek_n in_buf (of_nat n_wrappers) = Some (ch CHR '':'') then do {
         (ws, (in_buf, out_buf)) \<leftarrow> parse_wrapper_loop A n_wrappers (in_buf, out_buf);
         Some (ws, (snd (buffer_seek_cur in_buf 1), out_buf))
       } else Some ([], (in_buf, out_buf))
     } else Some ([], (in_buf, out_buf)))"

text \<open>The last loop, from the innermost wrapper outwards.\<close>

primrec apply_wrappers :: "PolicyNodeType list \<Rightarrow> policy_node \<Rightarrow> policy_node option" where
  "apply_wrappers [] node = Some node"
| "apply_wrappers (w # ws) node = do {
     inner \<leftarrow> apply_wrappers ws node;
     X \<leftarrow> flags_of inner;
     f \<leftarrow> type_wrapper w X;
     Some (Node_with_script w (Some f) inner)
   }"

section \<open>Tokens allowed in a context\<close>

definition token_allowed :: "nat \<Rightarrow> parse_context \<Rightarrow> PolicyNodeType \<Rightarrow> bool" where
  "token_allowed depth ctx token \<longleftrightarrow>
     (within_tr ctx \<longrightarrow> token \<in> {TOKEN_PK, TOKEN_MULTI_A, TOKEN_SORTEDMULTI_A}) \<and>
     (within_sh ctx \<longrightarrow>
        token \<in> {TOKEN_PK, TOKEN_PKH, TOKEN_MULTI, TOKEN_SORTEDMULTI, TOKEN_WPKH, TOKEN_WSH}) \<and>
     (within_sh ctx \<and> within_wsh ctx \<and> depth = 2 \<longrightarrow>
        token \<in> {TOKEN_PK, TOKEN_PKH, TOKEN_MULTI, TOKEN_SORTEDMULTI})"

section \<open>One definition per case of the switch\<close>

primrec parse_child_scripts :: "script_parser \<Rightarrow> nat \<Rightarrow> nat \<Rightarrow> parse_context \<Rightarrow> parse_state \<Rightarrow>
    (policy_node list \<times> parse_state) option" where
  "parse_child_scripts rec 0 depth ctx st = Some ([], st)"
| "parse_child_scripts rec (Suc n) depth ctx st = do {
     (x, (in_buf, out_buf)) \<leftarrow> rec (depth + 1) ctx (fst st, align_cur (snd st));
     in_buf \<leftarrow> (if n \<noteq> 0 then chkb (consume_character in_buf (ch CHR '','')) else Some in_buf);
     (xs, st) \<leftarrow> parse_child_scripts rec n depth ctx (in_buf, out_buf);
     Some (x # xs, st)
   }"

definition parse_constant :: "node_sizes \<Rightarrow> PolicyNodeType \<Rightarrow> parse_state \<Rightarrow> (policy_node \<times> parse_state) option" where
  "parse_constant A token st = (case st of (in_buf, out_buf) \<Rightarrow> do {
     out_buf \<leftarrow> alloc_node out_buf (sizeof_constant A);
     Some (Node_constant token (Some (type_constant token)), (in_buf, out_buf))
   })"

definition parse_sh_wsh :: "node_sizes \<Rightarrow> script_parser \<Rightarrow> PolicyNodeType \<Rightarrow> nat \<Rightarrow> parse_context \<Rightarrow>
    parse_state \<Rightarrow> (policy_node \<times> parse_state) option" where
  "parse_sh_wsh A rec token depth ctx st = (case st of (in_buf, out_buf) \<Rightarrow> do {
     guard (if token = TOKEN_SH then depth = 0 else depth = 0 \<or> within_sh ctx);
     out_buf \<leftarrow> alloc_node out_buf (sizeof_with_script A);
     let inner_ctx = (if token = TOKEN_SH then ctx\<lparr>within_sh := True\<rparr> else ctx\<lparr>within_wsh := True\<rparr>);
     (x, st) \<leftarrow> rec (depth + 1) inner_ctx (in_buf, align_cur out_buf);
     Some (Node_with_script token None x, st)
   })"

definition parse_hash_256 :: "node_sizes \<Rightarrow> PolicyNodeType \<Rightarrow> parse_state \<Rightarrow> (policy_node \<times> parse_state) option" where
  "parse_hash_256 A token st = (case st of (in_buf, out_buf) \<Rightarrow> do {
     out_buf \<leftarrow> alloc_node out_buf (sizeof_with_hash_256 A);
     (h, in_buf) \<leftarrow> buffer_read_hex_hash in_buf 32;
     Some (Node_with_hash_256 token (Some type_hash) h, (in_buf, out_buf))
   })"

definition parse_hash_160 :: "node_sizes \<Rightarrow> PolicyNodeType \<Rightarrow> parse_state \<Rightarrow> (policy_node \<times> parse_state) option" where
  "parse_hash_160 A token st = (case st of (in_buf, out_buf) \<Rightarrow> do {
     out_buf \<leftarrow> alloc_node out_buf (sizeof_with_hash_160 A);
     (h, in_buf) \<leftarrow> buffer_read_hex_hash in_buf 20;
     Some (Node_with_hash_160 token (Some type_hash) h, (in_buf, out_buf))
   })"

definition parse_andor :: "node_sizes \<Rightarrow> script_parser \<Rightarrow> nat \<Rightarrow> parse_context \<Rightarrow> parse_state \<Rightarrow>
    (policy_node \<times> parse_state) option" where
  "parse_andor A rec depth ctx st = do {
     out_buf \<leftarrow> alloc_node (snd st) (sizeof_with_script3 A);
     (scripts, st) \<leftarrow> parse_child_scripts rec 3 depth ctx (fst st, out_buf);
     X \<leftarrow> flags_of (scripts ! 0);
     Y \<leftarrow> flags_of (scripts ! 1);
     Z \<leftarrow> flags_of (scripts ! 2);
     f \<leftarrow> type_andor X Y Z;
     Some (Node_with_script3 TOKEN_ANDOR (Some f) (scripts ! 0) (scripts ! 1) (scripts ! 2), st)
   }"

text \<open>The seven cases with two child scripts differ in their type rule only.\<close>

definition parse_script2 :: "(ms_flags \<Rightarrow> ms_flags \<Rightarrow> ms_flags option) \<Rightarrow> PolicyNodeType \<Rightarrow> node_sizes \<Rightarrow>
    script_parser \<Rightarrow> nat \<Rightarrow> parse_context \<Rightarrow> parse_state \<Rightarrow> (policy_node \<times> parse_state) option" where
  "parse_script2 type_rule token A rec depth ctx st = do {
     out_buf \<leftarrow> alloc_node (snd st) (sizeof_with_script2 A);
     (scripts, st) \<leftarrow> parse_child_scripts rec 2 depth ctx (fst st, out_buf);
     X \<leftarrow> flags_of (scripts ! 0);
     Y \<leftarrow> flags_of (scripts ! 1);
     f \<leftarrow> type_rule X Y;
     Some (Node_with_script2 token (Some f) (scripts ! 0) (scripts ! 1), st)
   }"

text \<open>The loop of \<open>thresh\<close>: the children, and how many of them have \<open>z\<close> and \<open>o\<close>.\<close>

primrec parse_thresh_loop :: "nat \<Rightarrow> node_sizes \<Rightarrow> script_parser \<Rightarrow> nat \<Rightarrow> parse_context \<Rightarrow> bool \<Rightarrow>
    parse_state \<Rightarrow> (policy_node list \<times> nat \<times> nat \<times> parse_state) option" where
  "parse_thresh_loop 0 A rec depth ctx first st = None"
| "parse_thresh_loop (Suc fuel) A rec depth ctx first st = do {
     (x, (in_buf, out_buf)) \<leftarrow> rec (depth + 1) ctx (fst st, align_cur (snd st));
     X \<leftarrow> flags_of x;
     guard (thresh_child_ok first X);
     let z = (if mod_z X then 1 else 0);
     let o' = (if mod_o X then 1 else 0);
     let (more, in_buf) = consume_character in_buf (ch CHR '','');
     if more then do {
       out_buf \<leftarrow> alloc_node out_buf (sizeof_scriptlist A);
       (xs, count_z, count_o, st) \<leftarrow> parse_thresh_loop fuel A rec depth ctx False (in_buf, out_buf);
       Some (x # xs, z + count_z, o' + count_o, st)
     } else Some ([x], z, o', (in_buf, out_buf))
   }"

definition parse_thresh :: "node_sizes \<Rightarrow> nat \<Rightarrow> script_parser \<Rightarrow> nat \<Rightarrow> parse_context \<Rightarrow> parse_state \<Rightarrow>
    (policy_node \<times> parse_state) option" where
  "parse_thresh A fuel rec depth ctx st = (case st of (in_buf, out_buf) \<Rightarrow> do {
     out_buf \<leftarrow> alloc_node out_buf (sizeof_thresh A);
     (k, in_buf) \<leftarrow> parse_unsigned_decimal in_buf;
     guard (k \<le> INT16_MAX);
     in_buf \<leftarrow> chkb (consume_character in_buf (ch CHR '',''));
     guard (1 \<le> k);
     out_buf \<leftarrow> alloc_node out_buf (sizeof_scriptlist A);
     (scripts, count_z, count_o, st) \<leftarrow> parse_thresh_loop fuel A rec depth ctx True (in_buf, out_buf);
     Some (Node_thresh TOKEN_THRESH (Some (type_thresh (length scripts) count_z count_o)) (unat k) scripts, st)
   })"

definition parse_key :: "node_sizes \<Rightarrow> int \<Rightarrow> PolicyNodeType \<Rightarrow> nat \<Rightarrow> parse_context \<Rightarrow> parse_state \<Rightarrow>
    (policy_node \<times> parse_state) option" where
  "parse_key A version token depth ctx st = (case st of (in_buf, out_buf) \<Rightarrow> do {
     out_buf \<leftarrow> alloc_node out_buf (sizeof_with_key A);
     out_buf \<leftarrow> alloc_node out_buf (sizeof_key_placeholder A);
     guard (\<not> (token = TOKEN_WPKH \<and> depth > 0 \<and> \<not> within_sh ctx));
     (kp, in_buf) \<leftarrow> parse_placeholder in_buf version;
     Some (Node_with_key token (type_key token) kp, (in_buf, out_buf))
   })"

definition MAX_TAPTREE_POLICY_DEPTH :: nat where
  "MAX_TAPTREE_POLICY_DEPTH = 4"

text \<open>
  \<open>levels\<close> counts down the depths still allowed: the call at \<open>depth\<close> has
  \<open>MAX_TAPTREE_POLICY_DEPTH + 1 - depth\<close> levels, and none is the test for the depth limit.
\<close>

primrec parse_tree :: "nat \<Rightarrow> node_sizes \<Rightarrow> script_parser \<Rightarrow> nat \<Rightarrow> parse_state \<Rightarrow>
    (policy_tree \<times> parse_state) option" where
  "parse_tree 0 A rec depth st = None"
| "parse_tree (Suc levels) A rec depth st = (case st of (in_buf, out_buf) \<Rightarrow> do {
     guard (buffer_is_cur_aligned out_buf);
     out_buf \<leftarrow> alloc_node out_buf (sizeof_tree A);
     c \<leftarrow> buffer_peek in_buf;
     if c \<noteq> ch CHR ''{'' then do {
       (x, st) \<leftarrow> rec (depth + 1) \<lparr>within_sh = False, within_wsh = False, within_tr = True\<rparr>
                    (in_buf, align_cur out_buf);
       Some (Tree_leaf x, st)
     } else do {
       (l, (in_buf, out_buf)) \<leftarrow>
          parse_tree levels A rec (depth + 1) (snd (buffer_seek_cur in_buf 1), align_cur out_buf);
       in_buf \<leftarrow> chkb (consume_character in_buf (ch CHR '',''));
       (r, (in_buf, out_buf)) \<leftarrow> parse_tree levels A rec (depth + 1) (in_buf, align_cur out_buf);
       in_buf \<leftarrow> chkb (consume_character in_buf (ch CHR ''}''));
       Some (Tree_branch l r, (in_buf, out_buf))
     }
   })"

definition parse_tr :: "node_sizes \<Rightarrow> int \<Rightarrow> script_parser \<Rightarrow> nat \<Rightarrow> parse_state \<Rightarrow>
    (policy_node \<times> parse_state) option" where
  "parse_tr A version rec depth st = (case st of (in_buf, out_buf) \<Rightarrow> do {
     guard (depth \<le> 1);
     out_buf \<leftarrow> alloc_node out_buf (sizeof_tr A);
     out_buf \<leftarrow> alloc_node out_buf (sizeof_key_placeholder A);
     (kp, in_buf) \<leftarrow> parse_placeholder in_buf version;
     c \<leftarrow> buffer_peek in_buf;
     if c = ch CHR '','' then do {
       (tree, st) \<leftarrow> parse_tree (MAX_TAPTREE_POLICY_DEPTH + 1 - (depth + 1)) A rec (depth + 1)
                       (snd (buffer_seek_cur in_buf 1), align_cur out_buf);
       Some (Node_tr TOKEN_TR None kp (Some tree), st)
     } else do {
       guard (c = ch CHR '')'');
       Some (Node_tr TOKEN_TR None kp None, (in_buf, out_buf))
     }
   })"

definition parse_timelock :: "node_sizes \<Rightarrow> PolicyNodeType \<Rightarrow> parse_state \<Rightarrow> (policy_node \<times> parse_state) option" where
  "parse_timelock A token st = (case st of (in_buf, out_buf) \<Rightarrow> do {
     out_buf \<leftarrow> alloc_node out_buf (sizeof_with_uint32 A);
     (n, in_buf) \<leftarrow> parse_unsigned_decimal in_buf;
     guard (\<not> (n < 1 \<or> n \<ge> push_bit 31 1));
     Some (Node_with_uint32 token (Some type_timelock) n, (in_buf, out_buf))
   })"

definition MAX_PUBKEYS_PER_MULTISIG :: nat where
  "MAX_PUBKEYS_PER_MULTISIG = 16"

primrec parse_multi_loop :: "nat \<Rightarrow> node_sizes \<Rightarrow> int \<Rightarrow> parse_state \<Rightarrow> (key_placeholder list \<times> parse_state) option" where
  "parse_multi_loop 0 A version st = None"
| "parse_multi_loop (Suc fuel) A version st = (case st of (in_buf, out_buf) \<Rightarrow>
     if buffer_peek in_buf = Some (ch CHR '')'') then Some ([], (in_buf, out_buf))
     else do {
       in_buf \<leftarrow> chkb (consume_character in_buf (ch CHR '',''));
       out_buf \<leftarrow> alloc_node out_buf (sizeof_key_placeholder A);
       (kp, in_buf) \<leftarrow> parse_placeholder in_buf version;
       (kps, st) \<leftarrow> parse_multi_loop fuel A version (in_buf, out_buf);
       Some (kp # kps, st)
     })"

definition parse_multi :: "node_sizes \<Rightarrow> nat \<Rightarrow> int \<Rightarrow> PolicyNodeType \<Rightarrow> nat \<Rightarrow> parse_context \<Rightarrow> parse_state \<Rightarrow>
    (policy_node \<times> parse_state) option" where
  "parse_multi A fuel version token depth ctx st = (case st of (in_buf, out_buf) \<Rightarrow> do {
     out_buf \<leftarrow> alloc_node out_buf (sizeof_multisig A);
     guard (token = TOKEN_SORTEDMULTI \<longrightarrow>
              depth = (if within_sh ctx then 1 else 0) + (if within_wsh ctx then 1 else 0));
     (k, in_buf) \<leftarrow> parse_unsigned_decimal in_buf;
     guard (k \<le> INT16_MAX);
     (kps, st) \<leftarrow> parse_multi_loop fuel A version (in_buf, align_cur out_buf);
     guard (1 \<le> unat k \<and> unat k \<le> length kps \<and> length kps \<le> MAX_PUBKEYS_PER_MULTISIG);
     Some (Node_multisig token (type_multi token) (unat k) kps, st)
   })"

section \<open>The parser\<close>

definition parse_node :: "node_sizes \<Rightarrow> int \<Rightarrow> nat \<Rightarrow> script_parser \<Rightarrow> PolicyNodeType \<Rightarrow> nat \<Rightarrow> parse_context \<Rightarrow>
    parse_state \<Rightarrow> (policy_node \<times> parse_state) option" where
  "parse_node A version fuel rec token depth ctx st =
     (case token of
        TOKEN_0 \<Rightarrow> parse_constant A token st
      | TOKEN_1 \<Rightarrow> parse_constant A token st
      | TOKEN_SH \<Rightarrow> parse_sh_wsh A rec token depth ctx st
      | TOKEN_WSH \<Rightarrow> parse_sh_wsh A rec token depth ctx st
      | TOKEN_SHA256 \<Rightarrow> parse_hash_256 A token st
      | TOKEN_HASH256 \<Rightarrow> parse_hash_256 A token st
      | TOKEN_RIPEMD160 \<Rightarrow> parse_hash_160 A token st
      | TOKEN_HASH160 \<Rightarrow> parse_hash_160 A token st
      | TOKEN_ANDOR \<Rightarrow> parse_andor A rec depth ctx st
      | TOKEN_AND_V \<Rightarrow> parse_script2 type_and_v token A rec depth ctx st
      | TOKEN_AND_B \<Rightarrow> parse_script2 type_and_b token A rec depth ctx st
      | TOKEN_AND_N \<Rightarrow> parse_script2 type_and_n token A rec depth ctx st
      | TOKEN_OR_B \<Rightarrow> parse_script2 type_or_b token A rec depth ctx st
      | TOKEN_OR_C \<Rightarrow> parse_script2 type_or_c token A rec depth ctx st
      | TOKEN_OR_D \<Rightarrow> parse_script2 type_or_d token A rec depth ctx st
      | TOKEN_OR_I \<Rightarrow> parse_script2 type_or_i token A rec depth ctx st
      | TOKEN_THRESH \<Rightarrow> parse_thresh A fuel rec depth ctx st
      | TOKEN_PK \<Rightarrow> parse_key A version token depth ctx st
      | TOKEN_PKH \<Rightarrow> parse_key A version token depth ctx st
      | TOKEN_PK_K \<Rightarrow> parse_key A version token depth ctx st
      | TOKEN_PK_H \<Rightarrow> parse_key A version token depth ctx st
      | TOKEN_WPKH \<Rightarrow> parse_key A version token depth ctx st
      | TOKEN_TR \<Rightarrow> parse_tr A version rec depth st
      | TOKEN_OLDER \<Rightarrow> parse_timelock A token st
      | TOKEN_AFTER \<Rightarrow> parse_timelock A token st
      | TOKEN_MULTI \<Rightarrow> parse_multi A fuel version token depth ctx st
      | TOKEN_MULTI_A \<Rightarrow> parse_multi A fuel version token depth ctx st
      | TOKEN_SORTEDMULTI \<Rightarrow> parse_multi A fuel version token depth ctx st
      | TOKEN_SORTEDMULTI_A \<Rightarrow> parse_multi A fuel version token depth ctx st
      | _ \<Rightarrow> None)"

definition parse_script_body :: "node_sizes \<Rightarrow> int \<Rightarrow> nat \<Rightarrow> script_parser \<Rightarrow> script_parser" where
  "parse_script_body A version fuel rec depth ctx st = do {
     (ws, (in_buf, out_buf)) \<leftarrow> parse_wrappers A fuel ctx st;
     let (token, in_buf) = parse_token in_buf;
     guard (token_allowed depth ctx token);
     let has_parentheses = (token \<noteq> TOKEN_0 \<and> token \<noteq> TOKEN_1);
     in_buf \<leftarrow> (if has_parentheses then chkb (consume_character in_buf (ch CHR ''('')) else Some in_buf);
     (node, (in_buf, out_buf)) \<leftarrow> parse_node A version fuel rec token depth ctx (in_buf, out_buf);
     in_buf \<leftarrow> (if has_parentheses then chkb (consume_character in_buf (ch CHR '')'')) else Some in_buf);
     guard (\<not> (depth = 0 \<and> buffer_can_read in_buf 1));
     node \<leftarrow> apply_wrappers ws node;
     Some (node, (in_buf, out_buf))
   }"

primrec parse_script :: "nat \<Rightarrow> node_sizes \<Rightarrow> int \<Rightarrow> script_parser" where
  "parse_script 0 A version depth ctx st = None"
| "parse_script (Suc fuel) A version depth ctx st =
     parse_script_body A version (Suc fuel) (parse_script fuel A version) depth ctx st"

definition parse_descriptor_template :: "node_sizes \<Rightarrow> buffer_t \<Rightarrow> u32 \<Rightarrow> bytes \<Rightarrow> size_t \<Rightarrow> int \<Rightarrow>
    (policy_node \<times> parse_state) option" where
  "parse_descriptor_template A in_buf out mem out_len version = do {
     guard (out mod 4 = 0);
     guard (version = WALLET_POLICY_VERSION_V1 \<or> version = WALLET_POLICY_VERSION_V2);
     parse_script (Suc (bytes_left in_buf)) A version 0
       \<lparr>within_sh = False, within_wsh = False, within_tr = False\<rparr> (in_buf, buffer_create out mem out_len)
   }"

fun get_policy_segwit_version :: "policy_node \<Rightarrow> int" where
  "get_policy_segwit_version policy =
     (if node_type policy = TOKEN_TR then 1
      else if node_type policy = TOKEN_SH then
        (case policy of
           Node_with_script _ _ inner \<Rightarrow>
             if node_type inner = TOKEN_WPKH \<or> node_type inner = TOKEN_WSH then 0 else -1
         | _ \<Rightarrow> -1)
      else if node_type policy = TOKEN_WPKH \<or> node_type policy = TOKEN_WSH then 0
      else -1)"

section \<open>Progress of the parser\<close>

text \<open>
  A parser step reads some of the input and allocates some of the output, and touches nothing
  else. Both buffers are well-formed before it, and so after it.
\<close>

definition ok_state :: "parse_state \<Rightarrow> bool" where
  "ok_state st \<longleftrightarrow> buf_ok (fst st) \<and> buf_ok (snd st)"

definition progress :: "parse_state \<Rightarrow> parse_state \<Rightarrow> bool" where
  "progress st st' \<longleftrightarrow> ok_state st \<and> shrinks (fst st) (fst st') \<and> shrinks (snd st) (snd st')"

definition input_left :: "parse_state \<Rightarrow> nat" where
  "input_left st = length (buf_rest (fst st))"

lemma progress_ok: "progress st st' \<Longrightarrow> ok_state st'"
  by (auto simp: progress_def ok_state_def intro: shrinks_ok)

lemma progress_refl [simp]: "progress st st \<longleftrightarrow> ok_state st"
  by (simp add: progress_def)

lemma progress_trans [trans]: "progress a b \<Longrightarrow> progress b c \<Longrightarrow> progress a c"
  by (auto simp: progress_def ok_state_def intro: shrinks_trans)

lemma progress_left: "progress st st' \<Longrightarrow> input_left st' \<le> input_left st"
  by (simp add: progress_def ok_state_def input_left_def shrinks_length)

lemma progress_input: "ok_state (i, o') \<Longrightarrow> shrinks i i' \<Longrightarrow> progress (i, o') (i', o')"
  by (simp add: progress_def)

lemma progress_output: "ok_state (i, o') \<Longrightarrow> shrinks o' o'' \<Longrightarrow> progress (i, o') (i, o'')"
  by (simp add: progress_def)

lemma seek_cur_shrinks: "buf_ok b \<Longrightarrow> shrinks b (snd (buffer_seek_cur b n))"
  by (cases "unat n \<le> length (buf_rest b)") (auto simp: buffer_seek_cur_eq shrinks_def adv_def)

lemma buffer_alloc_shrinks: "buf_ok b \<Longrightarrow> buffer_alloc b sz al = (p, b') \<Longrightarrow> shrinks b b'"
  by (auto simp: buffer_alloc_def Let_def split: if_splits intro: seek_cur_shrinks)

lemma alloc_node_progress:
  "ok_state (i, o') \<Longrightarrow> alloc_node o' sz = Some o'' \<Longrightarrow> progress (i, o') (i, o'')"
  by (auto simp: alloc_node_def progress_def ok_state_def split: prod.splits option.splits intro: buffer_alloc_shrinks)

lemma align_cur_progress: "ok_state (i, o') \<Longrightarrow> progress (i, o') (i, align_cur o')"
  by (cases "buffer_alloc o' 0 True") (auto simp: align_cur_def progress_def ok_state_def intro: buffer_alloc_shrinks)

lemma consume_progress:
  "ok_state (i, o') \<Longrightarrow> consume_character i c = (ok, i') \<Longrightarrow> progress (i, o') (i', o')"
  by (auto simp: progress_def ok_state_def intro: consume_character_shrinks)

lemma consume_left:
  "ok_state (i, o') \<Longrightarrow> consume_character i c = (True, i') \<Longrightarrow> input_left (i', o') < input_left (i, o')"
  using consume_character_True(2) [of i c i', THEN arg_cong [where f = length]]
  by (simp add: ok_state_def input_left_def)

text \<open>A parser of scripts that makes progress and whose results satisfy \<open>P\<close>.\<close>

definition parser_sat :: "(nat \<Rightarrow> parse_context \<Rightarrow> policy_node \<Rightarrow> bool) \<Rightarrow> script_parser \<Rightarrow> bool" where
  "parser_sat P rec \<longleftrightarrow> (\<forall>d c st x st'. ok_state st \<longrightarrow> rec d c st = Some (x, st') \<longrightarrow>
     progress st st' \<and> input_left st' < input_left st \<and> P d c x)"

lemma parser_satD:
  assumes "parser_sat P rec" and "ok_state st" and "rec d c st = Some (x, st')"
  shows "progress st st'" and "input_left st' < input_left st" and "P d c x"
  using assms unfolding parser_sat_def by blast+

lemma parse_child_scripts_progress:
  assumes "parser_sat P rec" and "ok_state st" and "parse_child_scripts rec n d c st = Some (xs, st')"
  shows "progress st st' \<and> length xs = n \<and> list_all (P (d + 1) c) xs"
  using assms(2,3)
proof (induction n arbitrary: st xs)
  case (Suc n)
  obtain i o' where st: "st = (i, o')" by (cases st)
  obtain x i1 o1 i2 ys where
    s: "rec (d + 1) c (i, align_cur o') = Some (x, (i1, o1))"
      "(if n \<noteq> 0 then chkb (consume_character i1 (ch CHR '','')) else Some i1) = Some i2"
      "parse_child_scripts rec n d c (i2, o1) = Some (ys, st')" "xs = x # ys"
    using Suc.prems(2) st by (auto simp: bind_eq_Some_conv simp del: chkb_eq_Some)
  note p0 = align_cur_progress [OF Suc.prems(1) [unfolded st]]
  note r = parser_satD [OF assms(1) progress_ok [OF p0] s(1)]
  note ok1 = progress_ok [OF r(1)]
  have p1: "progress (i1, o1) (i2, o1)" using s(2) ok1 consume_progress by (auto split: if_splits)
  note IH = Suc.IH [OF progress_ok [OF p1] s(3)]
  show ?case using IH p0 r p1 s(4) st by (auto intro: progress_trans)
qed simp

section \<open>Well-formed policies\<close>

text \<open>
  What holds of a script at nesting depth \<open>d\<close> in the context \<open>c\<close>: every structure carries a token
  of its kind, tokens and wrappers appear only where they are allowed, numbers and lists are within
  their limits, and the miniscript type and modifiers of every node follow from those of its
  children.
\<close>

definition kp_ok :: "key_placeholder \<Rightarrow> bool" where
  "kp_ok kp \<longleftrightarrow> key_index kp \<le> 32767 \<and> num_first kp \<noteq> num_second kp \<and>
     num_first kp \<le> 0x80000000 \<and> num_second kp \<le> 0x80000000"

definition script2_rule :: "PolicyNodeType \<Rightarrow> (ms_flags \<Rightarrow> ms_flags \<Rightarrow> ms_flags option) option" where
  "script2_rule t =
     (case t of
        TOKEN_AND_V \<Rightarrow> Some type_and_v | TOKEN_AND_B \<Rightarrow> Some type_and_b | TOKEN_AND_N \<Rightarrow> Some type_and_n
      | TOKEN_OR_B \<Rightarrow> Some type_or_b | TOKEN_OR_C \<Rightarrow> Some type_or_c | TOKEN_OR_D \<Rightarrow> Some type_or_d
      | TOKEN_OR_I \<Rightarrow> Some type_or_i | _ \<Rightarrow> None)"

definition is_wrapper :: "PolicyNodeType \<Rightarrow> bool" where
  "is_wrapper t \<longleftrightarrow> t \<in> {TOKEN_A, TOKEN_S, TOKEN_C, TOKEN_T, TOKEN_D, TOKEN_V, TOKEN_J, TOKEN_N, TOKEN_L, TOKEN_U}"

definition thresh_flags :: "policy_node list \<Rightarrow> ms_flags" where
  "thresh_flags xs =
     type_thresh (length xs) (length (filter (\<lambda>x. \<exists>X. flags_of x = Some X \<and> mod_z X) xs))
       (length (filter (\<lambda>x. \<exists>X. flags_of x = Some X \<and> mod_o X) xs))"

definition thresh_child :: "bool \<Rightarrow> policy_node \<Rightarrow> bool" where
  "thresh_child first x \<longleftrightarrow> (case flags_of x of None \<Rightarrow> False | Some X \<Rightarrow> thresh_child_ok first X)"

definition inner_context :: "PolicyNodeType \<Rightarrow> parse_context \<Rightarrow> parse_context" where
  "inner_context t c = (if t = TOKEN_SH then c\<lparr>within_sh := True\<rparr> else c\<lparr>within_wsh := True\<rparr>)"

definition tree_context :: parse_context where
  "tree_context = \<lparr>within_sh = False, within_wsh = False, within_tr = True\<rparr>"

fun script_ok :: "nat \<Rightarrow> parse_context \<Rightarrow> policy_node \<Rightarrow> bool"
  and tree_ok :: "nat \<Rightarrow> policy_tree \<Rightarrow> bool" where
  "script_ok d c (Node_constant t f) \<longleftrightarrow>
     t \<in> {TOKEN_0, TOKEN_1} \<and> token_allowed d c t \<and> f = Some (type_constant t)"
| "script_ok d c (Node_with_script t f x) \<longleftrightarrow>
     (if is_wrapper t then
        within_wsh c \<and> \<not> within_sh c \<and> script_ok d c x \<and>
        (case flags_of x of None \<Rightarrow> False | Some X \<Rightarrow> f = type_wrapper t X \<and> f \<noteq> None)
      else t \<in> {TOKEN_SH, TOKEN_WSH} \<and> token_allowed d c t \<and> f = None \<and>
        (if t = TOKEN_SH then d = 0 else d = 0 \<or> within_sh c) \<and> script_ok (d + 1) (inner_context t c) x)"
| "script_ok d c (Node_with_script2 t f x y) \<longleftrightarrow>
     token_allowed d c t \<and> script_ok (d + 1) c x \<and> script_ok (d + 1) c y \<and>
     (case (script2_rule t, flags_of x, flags_of y) of
        (Some rule, Some X, Some Y) \<Rightarrow> f = rule X Y \<and> f \<noteq> None
      | _ \<Rightarrow> False)"
| "script_ok d c (Node_with_script3 t f x y z) \<longleftrightarrow>
     t = TOKEN_ANDOR \<and> token_allowed d c t \<and>
     script_ok (d + 1) c x \<and> script_ok (d + 1) c y \<and> script_ok (d + 1) c z \<and>
     (case (flags_of x, flags_of y, flags_of z) of
        (Some X, Some Y, Some Z) \<Rightarrow> f = type_andor X Y Z \<and> f \<noteq> None
      | _ \<Rightarrow> False)"
| "script_ok d c (Node_with_key t f kp) \<longleftrightarrow>
     t \<in> {TOKEN_PK, TOKEN_PKH, TOKEN_PK_K, TOKEN_PK_H, TOKEN_WPKH} \<and> token_allowed d c t \<and>
     f = type_key t \<and> kp_ok kp \<and> (t = TOKEN_WPKH \<longrightarrow> d = 0 \<or> within_sh c)"
| "script_ok d c (Node_with_uint32 t f n) \<longleftrightarrow>
     t \<in> {TOKEN_OLDER, TOKEN_AFTER} \<and> token_allowed d c t \<and> f = Some type_timelock \<and> 1 \<le> n \<and> n < 0x80000000"
| "script_ok d c (Node_multisig t f k kps) \<longleftrightarrow>
     t \<in> {TOKEN_MULTI, TOKEN_MULTI_A, TOKEN_SORTEDMULTI, TOKEN_SORTEDMULTI_A} \<and> token_allowed d c t \<and>
     f = type_multi t \<and> 1 \<le> k \<and> k \<le> length kps \<and> length kps \<le> MAX_PUBKEYS_PER_MULTISIG \<and> list_all kp_ok kps \<and>
     (t = TOKEN_SORTEDMULTI \<longrightarrow> d = (if within_sh c then 1 else 0) + (if within_wsh c then 1 else 0))"
| "script_ok d c (Node_thresh t f k xs) \<longleftrightarrow>
     t = TOKEN_THRESH \<and> token_allowed d c t \<and> 1 \<le> k \<and> k \<le> 32767 \<and> xs \<noteq> [] \<and> list_all (script_ok (d + 1) c) xs \<and>
     thresh_child True (hd xs) \<and> list_all (thresh_child False) (tl xs) \<and> f = Some (thresh_flags xs)"
| "script_ok d c (Node_with_hash_160 t f h) \<longleftrightarrow>
     t \<in> {TOKEN_RIPEMD160, TOKEN_HASH160} \<and> token_allowed d c t \<and> f = Some type_hash \<and> length h = 20"
| "script_ok d c (Node_with_hash_256 t f h) \<longleftrightarrow>
     t \<in> {TOKEN_SHA256, TOKEN_HASH256} \<and> token_allowed d c t \<and> f = Some type_hash \<and> length h = 32"
| "script_ok d c (Node_tr t f kp tree) \<longleftrightarrow>
     t = TOKEN_TR \<and> token_allowed d c t \<and> f = None \<and> d \<le> 1 \<and> kp_ok kp \<and>
     (case tree of None \<Rightarrow> True | Some tr \<Rightarrow> tree_ok (d + 1) tr)"
| "tree_ok d (Tree_leaf x) \<longleftrightarrow> d \<le> MAX_TAPTREE_POLICY_DEPTH \<and> script_ok (d + 1) tree_context x"
| "tree_ok d (Tree_branch l r) \<longleftrightarrow> d \<le> MAX_TAPTREE_POLICY_DEPTH \<and> tree_ok (d + 1) l \<and> tree_ok (d + 1) r"

section \<open>The parser builds well-formed policies\<close>

lemma parse_placeholder_kp_ok:
  "buf_ok b \<Longrightarrow> parse_placeholder b version = Some (kp, b') \<Longrightarrow> kp_ok kp"
  using parse_placeholder_bounds by (auto simp: kp_ok_def)

lemma apply_wrappers_ok:
  "apply_wrappers ws x = Some y \<Longrightarrow> script_ok d c x \<Longrightarrow> list_all is_wrapper ws \<Longrightarrow>
     ws = [] \<or> within_wsh c \<and> \<not> within_sh c \<Longrightarrow> script_ok d c y"
  by (induction ws arbitrary: y) (auto simp: bind_eq_Some_conv)

lemma wrapper_token_is_wrapper: "wrapper_token c = Some t \<Longrightarrow> is_wrapper t"
  by (auto simp: wrapper_token_def is_wrapper_def split: if_splits)

lemma parse_wrapper_loop_progress:
  "ok_state st \<Longrightarrow> parse_wrapper_loop A n st = Some (ws, st') \<Longrightarrow> progress st st' \<and> list_all is_wrapper ws"
proof (induction n arbitrary: st ws)
  case (Suc n)
  obtain i o' where st: "st = (i, o')" by (cases st)
  obtain ok c i1 where rd: "buffer_read_u8 i = (ok, c, i1)" by (cases "buffer_read_u8 i")
  obtain o1 w ws' where
    s: "alloc_node o' (sizeof_with_script A) = Some o1" "wrapper_token c = Some w"
      "parse_wrapper_loop A n (i1, o1) = Some (ws', st')" "ws = w # ws'"
    using Suc.prems(2) st rd by (auto simp: bind_eq_Some_conv)
  have p1: "progress (i, o') (i, o1)" using Suc.prems st s alloc_node_progress by blast
  have p2: "progress (i, o1) (i1, o1)"
    using progress_ok [OF p1] buffer_read_u8_shrinks rd by (auto simp: ok_state_def intro!: progress_input)
  show ?case
    using Suc.IH [OF progress_ok [OF p2] s(3)] p1 p2 st s(2,4) wrapper_token_is_wrapper
    by (auto intro: progress_trans)
qed simp

lemma parse_wrappers_progress:
  assumes ok: "ok_state st" and p: "parse_wrappers A fuel c st = Some (ws, st')"
  shows "progress st st' \<and> list_all is_wrapper ws \<and> (ws = [] \<or> within_wsh c \<and> \<not> within_sh c)"
proof -
  obtain i o' where st: "st = (i, o')" by (cases st)
  show ?thesis
  proof (cases "st' = st \<and> ws = []")
    case True
    then show ?thesis using ok by simp
  next
    case False
    then obtain n i1 o1 where w: "within_wsh c" "\<not> within_sh c"
      and s: "parse_wrapper_loop A n (i, o') = Some (ws, (i1, o1))" "st' = (snd (buffer_seek_cur i1 1), o1)"
      using p unfolding st by (auto simp: parse_wrappers_def bind_eq_Some_conv split: if_splits)
    note l = parse_wrapper_loop_progress [OF ok [unfolded st] s(1)]
    have "progress (i1, o1) st'"
      using progress_ok [OF conjunct1 [OF l]] s(2) by (auto simp: ok_state_def intro!: progress_input seek_1_shrinks)
    then show ?thesis using l st w progress_trans by blast
  qed
qed

lemma ok_stateI: "buf_ok i \<Longrightarrow> buf_ok o' \<Longrightarrow> ok_state (i, o')"
  by (simp add: ok_state_def)

lemma ok_state_input: "ok_state (i, o') \<Longrightarrow> buf_ok i"
  by (simp add: ok_state_def)

lemma parse_constant_ok:
  assumes "ok_state st" and "parse_constant A t st = Some (x, st')"
    and "token_allowed d c t" and "t \<in> {TOKEN_0, TOKEN_1}"
  shows "progress st st' \<and> script_ok d c x"
  using assms by (cases st) (auto simp: parse_constant_def bind_eq_Some_conv intro: alloc_node_progress)

lemma parse_sh_wsh_ok:
  assumes S: "parser_sat script_ok rec" and ok: "ok_state st" and p: "parse_sh_wsh A rec t d c st = Some (x, st')"
    and t: "token_allowed d c t" "t \<in> {TOKEN_SH, TOKEN_WSH}"
  shows "progress st st' \<and> script_ok d c x"
proof -
  obtain i o' where st: "st = (i, o')" by (cases st)
  obtain o1 y where s: "if t = TOKEN_SH then d = 0 else d = 0 \<or> within_sh c"
      "alloc_node o' (sizeof_with_script A) = Some o1"
      "rec (d + 1) (inner_context t c) (i, align_cur o1) = Some (y, st')" "x = Node_with_script t None y"
    using p st by (auto simp: parse_sh_wsh_def bind_eq_Some_conv inner_context_def split: if_splits)
  note p1 = alloc_node_progress [OF ok [unfolded st] s(2)]
  note p2 = align_cur_progress [OF progress_ok [OF p1]]
  note r = parser_satD [OF S progress_ok [OF p2] s(3)]
  show ?thesis using p1 p2 r s(1,4) t st by (auto simp: is_wrapper_def intro: progress_trans)
qed

lemma parse_hash_ok:
  assumes "ok_state st" and "token_allowed d c t"
  shows "parse_hash_256 A t st = Some (x, st') \<Longrightarrow> t \<in> {TOKEN_SHA256, TOKEN_HASH256} \<Longrightarrow>
      progress st st' \<and> script_ok d c x"
    and "parse_hash_160 A t st = Some (x, st') \<Longrightarrow> t \<in> {TOKEN_RIPEMD160, TOKEN_HASH160} \<Longrightarrow>
      progress st st' \<and> script_ok d c x"
proof -
  obtain i o' where st: "st = (i, o')" by (cases st)
  have step: "progress st (i', o1) \<and> length h = unat n"
    if "alloc_node o' sz = Some o1" "buffer_read_hex_hash i n = Some (h, i')" for sz o1 n h i'
  proof -
    note p1 = alloc_node_progress [OF assms(1) [unfolded st] that(1)]
    have "shrinks i i' \<and> length h = unat n"
      using assms(1) st that(2) by (auto simp: ok_state_def dest: buffer_read_hex_hash_shrinks)
    then show ?thesis using p1 progress_input [OF progress_ok [OF p1]] st progress_trans by blast
  qed
  show "parse_hash_256 A t st = Some (x, st') \<Longrightarrow> t \<in> {TOKEN_SHA256, TOKEN_HASH256} \<Longrightarrow>
      progress st st' \<and> script_ok d c x"
    and "parse_hash_160 A t st = Some (x, st') \<Longrightarrow> t \<in> {TOKEN_RIPEMD160, TOKEN_HASH160} \<Longrightarrow>
      progress st st' \<and> script_ok d c x"
    using assms st by (auto simp: parse_hash_256_def parse_hash_160_def bind_eq_Some_conv dest!: step)
qed

lemma list_all_nth2: "length xs = 2 \<Longrightarrow> list_all P xs \<longleftrightarrow> P (xs ! 0) \<and> P (xs ! 1)"
  by (auto simp: list_all_length less_2_cases_iff)

lemma list_all_nth3: "length xs = 3 \<Longrightarrow> list_all P xs \<longleftrightarrow> P (xs ! 0) \<and> P (xs ! 1) \<and> P (xs ! 2)"
  by (auto simp: list_all_length numeral_3_eq_3 less_Suc_eq numeral_2_eq_2)

lemma parse_andor_ok:
  assumes S: "parser_sat script_ok rec" and ok: "ok_state st" and p: "parse_andor A rec d c st = Some (x, st')"
    and t: "token_allowed d c TOKEN_ANDOR"
  shows "progress st st' \<and> script_ok d c x"
proof -
  obtain i o' where st: "st = (i, o')" by (cases st)
  obtain o1 xs X Y Z f where s: "alloc_node o' (sizeof_with_script3 A) = Some o1"
      "parse_child_scripts rec 3 d c (i, o1) = Some (xs, st')"
      "flags_of (xs ! 0) = Some X" "flags_of (xs ! 1) = Some Y" "flags_of (xs ! 2) = Some Z"
      "type_andor X Y Z = Some f" "x = Node_with_script3 TOKEN_ANDOR (Some f) (xs ! 0) (xs ! 1) (xs ! 2)"
    using p st by (auto simp: parse_andor_def bind_eq_Some_conv)
  note p1 = alloc_node_progress [OF ok [unfolded st] s(1)]
  note r = parse_child_scripts_progress [OF S progress_ok [OF p1] s(2)]
  show ?thesis using p1 r s(3-) t st list_all_nth3 [of xs] by (auto intro: progress_trans)
qed

lemma parse_script2_ok:
  assumes S: "parser_sat script_ok rec" and ok: "ok_state st" and p: "parse_script2 rule t A rec d c st = Some (x, st')"
    and t: "token_allowed d c t" "script2_rule t = Some rule"
  shows "progress st st' \<and> script_ok d c x"
proof -
  obtain i o' where st: "st = (i, o')" by (cases st)
  obtain o1 xs X Y f where s: "alloc_node o' (sizeof_with_script2 A) = Some o1"
      "parse_child_scripts rec 2 d c (i, o1) = Some (xs, st')"
      "flags_of (xs ! 0) = Some X" "flags_of (xs ! 1) = Some Y"
      "rule X Y = Some f" "x = Node_with_script2 t (Some f) (xs ! 0) (xs ! 1)"
    using p st by (auto simp: parse_script2_def bind_eq_Some_conv)
  note p1 = alloc_node_progress [OF ok [unfolded st] s(1)]
  note r = parse_child_scripts_progress [OF S progress_ok [OF p1] s(2)]
  show ?thesis using p1 r s(3-) t st list_all_nth2 [of xs] by (auto intro: progress_trans)
qed

lemma parse_thresh_loop_ok:
  assumes S: "parser_sat script_ok rec"
  shows "ok_state st \<Longrightarrow> parse_thresh_loop fuel A rec d c first st = Some (xs, cz, co, st') \<Longrightarrow>
    progress st st' \<and> xs \<noteq> [] \<and> list_all (script_ok (d + 1) c) xs \<and>
    thresh_child first (hd xs) \<and> list_all (thresh_child False) (tl xs) \<and>
    cz = length (filter (\<lambda>x. \<exists>X. flags_of x = Some X \<and> mod_z X) xs) \<and>
    co = length (filter (\<lambda>x. \<exists>X. flags_of x = Some X \<and> mod_o X) xs)"
proof (induction fuel arbitrary: first st xs cz co)
  case (Suc fuel)
  obtain i o' where st: "st = (i, o')" by (cases st)
  obtain x i1 o1 X more i2 where s: "rec (d + 1) c (i, align_cur o') = Some (x, (i1, o1))"
      "flags_of x = Some X" "thresh_child_ok first X" "consume_character i1 (ch CHR '','') = (more, i2)"
    using Suc.prems(2) st by (auto simp: bind_eq_Some_conv split: if_splits prod.splits)
  note p1 = align_cur_progress [OF Suc.prems(1) [unfolded st]]
  note r = parser_satD [OF S progress_ok [OF p1] s(1)]
  note p2 = consume_progress [OF progress_ok [OF r(1)] s(4)]
  have ch: "thresh_child first x" using s(2,3) by (simp add: thresh_child_def)
  have p012: "progress st (i2, o1)" using p1 r(1) p2 st progress_trans by blast
  show ?case
  proof (cases more)
    case True
    obtain o2 ys cz' co' where m: "alloc_node o1 (sizeof_scriptlist A) = Some o2"
        "parse_thresh_loop fuel A rec d c False (i2, o2) = Some (ys, cz', co', st')" "xs = x # ys"
        "cz = (if mod_z X then 1 else 0) + cz'" "co = (if mod_o X then 1 else 0) + co'"
      using Suc.prems(2) st s True by (auto simp: bind_eq_Some_conv simp del: One_nat_def)
    note p3 = alloc_node_progress [OF progress_ok [OF p2] m(1)]
    note IH = Suc.IH [OF progress_ok [OF p3] m(2)]
    then have "list_all (thresh_child False) ys" by (cases ys) simp_all
    then show ?thesis
      using IH p012 p3 r(3) s(2) ch m(3-) by (auto intro: progress_trans)
  next
    case False
    then have "xs = [x]" "cz = (if mod_z X then 1 else 0)" "co = (if mod_o X then 1 else 0)" "st' = (i2, o1)"
      using Suc.prems(2) st s by (auto simp del: One_nat_def)
    then show ?thesis using p012 r(3) s(2) ch by auto
  qed
qed simp

lemma parse_thresh_ok:
  assumes S: "parser_sat script_ok rec" and ok: "ok_state st" and p: "parse_thresh A fuel rec d c st = Some (x, st')"
    and t: "token_allowed d c TOKEN_THRESH"
  shows "progress st st' \<and> script_ok d c x"
proof -
  obtain i o' where st: "st = (i, o')" by (cases st)
  obtain o1 k i1 i2 o2 xs cz co where s: "alloc_node o' (sizeof_thresh A) = Some o1"
      "parse_unsigned_decimal i = Some (k, i1)" "k \<le> INT16_MAX" "consume_character i1 (ch CHR '','') = (True, i2)"
      "1 \<le> k" "alloc_node o1 (sizeof_scriptlist A) = Some o2"
      "parse_thresh_loop fuel A rec d c True (i2, o2) = Some (xs, cz, co, st')"
      "x = Node_thresh TOKEN_THRESH (Some (type_thresh (length xs) cz co)) (unat k) xs"
    using p st by (auto simp: parse_thresh_def bind_eq_Some_conv split: if_splits)
  note p1 = alloc_node_progress [OF ok [unfolded st] s(1)]
  note p2 = progress_input [OF progress_ok [OF p1] parse_unsigned_decimal_shrinks [OF ok_state_input [OF ok [unfolded st]] s(2)]]
  note p3 = consume_progress [OF progress_ok [OF p2] s(4)]
  note p4 = alloc_node_progress [OF progress_ok [OF p3] s(6)]
  note r = parse_thresh_loop_ok [OF S progress_ok [OF p4] s(7)]
  have "1 \<le> unat k \<and> unat k \<le> 32767" using s(3,5) by (simp add: word_le_nat_alt INT16_MAX_def)
  moreover have "progress st st'" using p1 p2 p3 p4 r st by (meson progress_trans)
  ultimately show ?thesis using r t s(8) by (simp add: thresh_flags_def)
qed

lemma parse_key_ok:
  assumes ok: "ok_state st" and p: "parse_key A version t d c st = Some (x, st')"
    and t: "token_allowed d c t" "t \<in> {TOKEN_PK, TOKEN_PKH, TOKEN_PK_K, TOKEN_PK_H, TOKEN_WPKH}"
  shows "progress st st' \<and> script_ok d c x"
proof -
  obtain i o' where st: "st = (i, o')" by (cases st)
  obtain o1 o2 kp i1 where s: "alloc_node o' (sizeof_with_key A) = Some o1"
      "alloc_node o1 (sizeof_key_placeholder A) = Some o2" "parse_placeholder i version = Some (kp, i1)"
      "t = TOKEN_WPKH \<longrightarrow> d = 0 \<or> within_sh c" "x = Node_with_key t (type_key t) kp" "st' = (i1, o2)"
    using p st by (auto simp: parse_key_def bind_eq_Some_conv split: if_splits)
  note oki = ok_state_input [OF ok [unfolded st]]
  note p1 = alloc_node_progress [OF ok [unfolded st] s(1)]
  note p2 = alloc_node_progress [OF progress_ok [OF p1] s(2)]
  note p3 = progress_input [OF progress_ok [OF p2] parse_placeholder_shrinks [OF oki s(3)]]
  have "progress st st'" using p1 p2 p3 st s(6) by (meson progress_trans)
  then show ?thesis using s t parse_placeholder_kp_ok [OF oki s(3)] by auto
qed

lemma parse_tree_ok:
  assumes S: "parser_sat script_ok rec"
  shows "ok_state st \<Longrightarrow> parse_tree levels A rec d st = Some (x, st') \<Longrightarrow>
    d + levels = MAX_TAPTREE_POLICY_DEPTH + 1 \<Longrightarrow> progress st st' \<and> tree_ok d x"
proof (induction levels arbitrary: d st x st')
  case (Suc levels)
  obtain i o' where st: "st = (i, o')" by (cases st)
  obtain o1 ch' where s: "alloc_node o' (sizeof_tree A) = Some o1" "buffer_peek i = Some ch'"
    using Suc.prems(2) st by (auto simp: bind_eq_Some_conv split: if_splits)
  note p1 = alloc_node_progress [OF Suc.prems(1) [unfolded st] s(1)]
  note al = align_cur_progress [OF progress_ok [OF p1]]
  show ?case
  proof (cases "ch' = ch CHR ''{''")
    case False
    then obtain y where y: "rec (d + 1) tree_context (i, align_cur o1) = Some (y, st')" "x = Tree_leaf y"
      using Suc.prems(2) st s by (auto simp: bind_eq_Some_conv tree_context_def split: if_splits)
    note r = parser_satD [OF S progress_ok [OF al] y(1)]
    have "progress st st'" using p1 al r(1) st by (meson progress_trans)
    then show ?thesis using r(3) y(2) Suc.prems(3) by simp
  next
    case True
    obtain l i1 o2 i2 r i3 o3 i4 where b:
        "parse_tree levels A rec (d + 1) (snd (buffer_seek_cur i 1), align_cur o1) = Some (l, (i1, o2))"
        "consume_character i1 (ch CHR '','') = (True, i2)"
        "parse_tree levels A rec (d + 1) (i2, align_cur o2) = Some (r, (i3, o3))"
        "consume_character i3 (ch CHR ''}'') = (True, i4)" "x = Tree_branch l r" "st' = (i4, o3)"
      using Suc.prems(2) st s True by (auto simp: bind_eq_Some_conv split: if_splits)
    note p2 = progress_input [OF progress_ok [OF al] seek_1_shrinks [OF ok_state_input [OF progress_ok [OF p1]]]]
    have lv: "d + 1 + levels = MAX_TAPTREE_POLICY_DEPTH + 1" using Suc.prems(3) by simp
    note L = Suc.IH [OF progress_ok [OF p2] b(1) lv]
    note p3 = consume_progress [OF progress_ok [OF conjunct1 [OF L]] b(2)]
    note p4 = align_cur_progress [OF progress_ok [OF p3]]
    note R = Suc.IH [OF progress_ok [OF p4] b(3) lv]
    note p5 = consume_progress [OF progress_ok [OF conjunct1 [OF R]] b(4)]
    have "progress st st'"
      using p1 al p2 L p3 p4 R p5 st b(6) by (meson progress_trans)
    then show ?thesis using L R b(5) Suc.prems(3) by simp
  qed
qed simp

lemma parse_tr_ok:
  assumes S: "parser_sat script_ok rec" and ok: "ok_state st" and p: "parse_tr A version rec d st = Some (x, st')"
    and t: "token_allowed d c TOKEN_TR"
  shows "progress st st' \<and> script_ok d c x"
proof -
  obtain i o' where st: "st = (i, o')" by (cases st)
  obtain o1 o2 kp i1 c' where s: "d \<le> 1" "alloc_node o' (sizeof_tr A) = Some o1"
      "alloc_node o1 (sizeof_key_placeholder A) = Some o2" "parse_placeholder i version = Some (kp, i1)"
      "buffer_peek i1 = Some c'"
    using p st by (auto simp: parse_tr_def bind_eq_Some_conv split: if_splits)
  note oki = ok_state_input [OF ok [unfolded st]]
  note p1 = alloc_node_progress [OF ok [unfolded st] s(2)]
  note p2 = alloc_node_progress [OF progress_ok [OF p1] s(3)]
  note p3 = progress_input [OF progress_ok [OF p2] parse_placeholder_shrinks [OF oki s(4)]]
  note kp = parse_placeholder_kp_ok [OF oki s(4)]
  have p123: "progress st (i1, o2)" using p1 p2 p3 st by (meson progress_trans)
  show ?thesis
  proof (cases "c' = ch CHR '',''")
    case True
    then obtain tr where tr: "parse_tree (4 - d) A rec (d + 1) (snd (buffer_seek_cur i1 1), align_cur o2) = Some (tr, st')"
        "x = Node_tr TOKEN_TR None kp (Some tr)"
      using p st s by (auto simp: parse_tr_def bind_eq_Some_conv MAX_TAPTREE_POLICY_DEPTH_def split: if_splits)
    note p4 = align_cur_progress [OF progress_ok [OF p3]]
    note p5 = progress_input [OF progress_ok [OF p4] seek_1_shrinks [OF ok_state_input [OF progress_ok [OF p3]]]]
    have "progress (snd (buffer_seek_cur i1 1), align_cur o2) st' \<and> tree_ok (d + 1) tr"
      using parse_tree_ok [OF S progress_ok [OF p5] tr(1)] s(1) by (simp add: MAX_TAPTREE_POLICY_DEPTH_def)
    moreover from this have "progress st st'" using p123 p4 p5 by (meson progress_trans)
    ultimately show ?thesis using tr(2) s(1) t kp by simp
  next
    case False
    then show ?thesis
      using p st s p123 t kp by (auto simp: parse_tr_def bind_eq_Some_conv split: if_splits)
  qed
qed

lemma parse_timelock_ok:
  assumes ok: "ok_state st" and p: "parse_timelock A t st = Some (x, st')"
    and t: "token_allowed d c t" "t \<in> {TOKEN_OLDER, TOKEN_AFTER}"
  shows "progress st st' \<and> script_ok d c x"
proof -
  obtain i o' where st: "st = (i, o')" by (cases st)
  obtain o1 n i1 where s: "alloc_node o' (sizeof_with_uint32 A) = Some o1" "parse_unsigned_decimal i = Some (n, i1)"
      "\<not> (n < 1 \<or> n \<ge> push_bit 31 1)" "x = Node_with_uint32 t (Some type_timelock) n" "st' = (i1, o1)"
    using p st by (auto simp: parse_timelock_def bind_eq_Some_conv split: if_splits)
  note p1 = alloc_node_progress [OF ok [unfolded st] s(1)]
  note p2 = progress_input [OF progress_ok [OF p1] parse_unsigned_decimal_shrinks [OF ok_state_input [OF ok [unfolded st]] s(2)]]
  have "1 \<le> n \<and> n < 0x80000000" using s(3) by (auto simp: word_less_nat_alt word_le_nat_alt)
  then show ?thesis using p1 p2 st s(4,5) t by (auto intro: progress_trans)
qed

lemma parse_multi_loop_ok:
  "ok_state st \<Longrightarrow> parse_multi_loop fuel A version st = Some (kps, st') \<Longrightarrow> progress st st' \<and> list_all kp_ok kps"
proof (induction fuel arbitrary: st kps)
  case (Suc fuel)
  obtain i o' where st: "st = (i, o')" by (cases st)
  show ?case
  proof (cases "buffer_peek i = Some (ch CHR '')'')")
    case True
    then show ?thesis using Suc.prems st by auto
  next
    case False
    then obtain i1 o1 kp i2 kps' where s: "consume_character i (ch CHR '','') = (True, i1)"
        "alloc_node o' (sizeof_key_placeholder A) = Some o1" "parse_placeholder i1 version = Some (kp, i2)"
        "parse_multi_loop fuel A version (i2, o1) = Some (kps', st')" "kps = kp # kps'"
      using Suc.prems(2) st by (auto simp: bind_eq_Some_conv)
    note p1 = consume_progress [OF Suc.prems(1) [unfolded st] s(1)]
    note p2 = alloc_node_progress [OF progress_ok [OF p1] s(2)]
    note ok2 = ok_state_input [OF progress_ok [OF p2]]
    note p3 = progress_input [OF progress_ok [OF p2] parse_placeholder_shrinks [OF ok2 s(3)]]
    note IH = Suc.IH [OF progress_ok [OF p3] s(4)]
    have "progress st st'" using p1 p2 p3 IH st by (meson progress_trans)
    then show ?thesis using IH s(5) parse_placeholder_kp_ok [OF ok2 s(3)] by simp
  qed
qed simp

lemma parse_multi_ok:
  assumes ok: "ok_state st" and p: "parse_multi A fuel version t d c st = Some (x, st')"
    and t: "token_allowed d c t" "t \<in> {TOKEN_MULTI, TOKEN_MULTI_A, TOKEN_SORTEDMULTI, TOKEN_SORTEDMULTI_A}"
  shows "progress st st' \<and> script_ok d c x"
proof -
  obtain i o' where st: "st = (i, o')" by (cases st)
  obtain o1 k i1 kps where s: "alloc_node o' (sizeof_multisig A) = Some o1"
      "t = TOKEN_SORTEDMULTI \<longrightarrow> d = (if within_sh c then 1 else 0) + (if within_wsh c then 1 else 0)"
      "parse_unsigned_decimal i = Some (k, i1)"
      "parse_multi_loop fuel A version (i1, align_cur o1) = Some (kps, st')"
      "1 \<le> unat k \<and> unat k \<le> length kps \<and> length kps \<le> MAX_PUBKEYS_PER_MULTISIG"
      "x = Node_multisig t (type_multi t) (unat k) kps"
    using p st by (auto simp: parse_multi_def bind_eq_Some_conv split: if_splits)
  note p1 = alloc_node_progress [OF ok [unfolded st] s(1)]
  note p2 = align_cur_progress [OF progress_ok [OF p1]]
  note p3 = progress_input [OF progress_ok [OF p2] parse_unsigned_decimal_shrinks [OF ok_state_input [OF ok [unfolded st]] s(3)]]
  note l = parse_multi_loop_ok [OF progress_ok [OF p3] s(4)]
  have "progress st st'" using p1 p2 p3 l st by (meson progress_trans)
  then show ?thesis using l s(2,5,6) t by simp
qed

lemma parse_node_ok:
  assumes S: "parser_sat script_ok rec" and ok: "ok_state st"
    and p: "parse_node A version fuel rec t d c st = Some (x, st')" and t: "token_allowed d c t"
  shows "progress st st' \<and> script_ok d c x"
  using p
    parse_constant_ok [OF ok _ t] parse_sh_wsh_ok [OF S ok _ t] parse_hash_ok [OF ok t]
    parse_andor_ok [OF S ok] parse_script2_ok [OF S ok _ t] parse_thresh_ok [OF S ok]
    parse_key_ok [OF ok _ t] parse_tr_ok [OF S ok] parse_timelock_ok [OF ok _ t] parse_multi_ok [OF ok _ t] t
  by (cases t) (simp_all add: parse_node_def script2_rule_def)

lemma chkb_if_progress:
  assumes "ok_state (i, o')" and "(if b then chkb (consume_character i c) else Some i) = Some i'"
  shows "progress (i, o') (i', o')" and "b \<Longrightarrow> input_left (i', o') < input_left (i, o')"
  using assms consume_progress [of i o' c True i'] consume_left [of i o' c i'] by (auto split: if_splits)

text \<open>The words of tokens are not empty.\<close>

lemma find_token_Nil: "find_token KNOWN_TOKENS [] = TOKEN_INVALID"
  by (simp add: KNOWN_TOKENS_def str_def MAX_TOKEN_LENGTH_def)

lemma parse_token_left:
  assumes ok: "ok_state (i, o')" and p: "parse_token i = (t, i')" and t: "t \<noteq> TOKEN_INVALID"
  shows "input_left (i', o') < input_left (i, o')"
proof -
  let ?w = "take MAX_TOKEN_LENGTH (takeWhile is_token_char (buf_rest i))"
  have i: "buf_ok i" using ok by (rule ok_state_input)
  have "t = find_token KNOWN_TOKENS ?w" and i': "i' = adv i (length ?w)"
    using p i by (simp_all add: parse_token_def read_token_eq Let_def)
  then have "?w \<noteq> []" using t find_token_Nil by metis
  then show ?thesis
    using i i' length_take_takeWhile [of MAX_TOKEN_LENGTH is_token_char "buf_rest i"]
    by (cases ?w) (simp_all add: input_left_def)
qed

text \<open>What a successful run of the body has done, step by step.\<close>

lemma parse_script_bodyE:
  assumes "parse_script_body A version fuel rec d c st = Some (x, st')"
  obtains ws i o' t i1 i2 node i3 o3 i4 where
    "parse_wrappers A fuel c st = Some (ws, (i, o'))" "parse_token i = (t, i1)" "token_allowed d c t"
    "(if t \<noteq> TOKEN_0 \<and> t \<noteq> TOKEN_1 then chkb (consume_character i1 (ch CHR ''('')) else Some i1) = Some i2"
    "parse_node A version fuel rec t d c (i2, o') = Some (node, (i3, o3))"
    "(if t \<noteq> TOKEN_0 \<and> t \<noteq> TOKEN_1 then chkb (consume_character i3 (ch CHR '')'')) else Some i3) = Some i4"
    "\<not> (d = 0 \<and> buffer_can_read i4 1)" "apply_wrappers ws node = Some x" "st' = (i4, o3)"
proof -
  obtain ws i o' where w: "parse_wrappers A fuel c st = Some (ws, (i, o'))"
    using assms by (cases "parse_wrappers A fuel c st") (auto simp: parse_script_body_def)
  obtain t i1 where tk: "parse_token i = (t, i1)" by (cases "parse_token i")
  define has where "has = (t \<noteq> TOKEN_0 \<and> t \<noteq> TOKEN_1)"
  have "guard (token_allowed d c t) \<bind> (\<lambda>_.
      (if has then chkb (consume_character i1 (ch CHR ''('')) else Some i1) \<bind> (\<lambda>i2.
      parse_node A version fuel rec t d c (i2, o') \<bind> (\<lambda>(node, (i3, o3)).
      (if has then chkb (consume_character i3 (ch CHR '')'')) else Some i3) \<bind> (\<lambda>i4.
      guard (\<not> (d = 0 \<and> buffer_can_read i4 1)) \<bind> (\<lambda>_.
      apply_wrappers ws node \<bind> (\<lambda>node. Some (node, (i4, o3)))))))) = Some (x, st')"
    using assms by (simp add: parse_script_body_def w tk has_def Let_def)
  then obtain i2 node i3 o3 i4 where s: "token_allowed d c t"
      "(if has then chkb (consume_character i1 (ch CHR ''('')) else Some i1) = Some i2"
      "parse_node A version fuel rec t d c (i2, o') = Some (node, (i3, o3))"
      "(if has then chkb (consume_character i3 (ch CHR '')'')) else Some i3) = Some i4"
      "\<not> (d = 0 \<and> buffer_can_read i4 1)" "apply_wrappers ws node = Some x" "st' = (i4, o3)"
    by (auto simp: bind_eq_Some_conv simp del: bind_guard chkb_eq_Some)
  show thesis by (rule that [OF w tk s(1) s(2) [unfolded has_def] s(3) s(4) [unfolded has_def] s(5-7)])
qed

lemma parse_script_body_sat:
  assumes S: "parser_sat script_ok rec"
  shows "parser_sat script_ok (parse_script_body A version fuel rec)"
  unfolding parser_sat_def
proof (intro allI impI)
  fix d c st x st'
  assume ok: "ok_state st" and p: "parse_script_body A version fuel rec d c st = Some (x, st')"
  from p obtain ws i o' t i1 i2 node i3 o3 i4 where s:
    "parse_wrappers A fuel c st = Some (ws, (i, o'))" "parse_token i = (t, i1)" "token_allowed d c t"
    "(if t \<noteq> TOKEN_0 \<and> t \<noteq> TOKEN_1 then chkb (consume_character i1 (ch CHR ''('')) else Some i1) = Some i2"
    "parse_node A version fuel rec t d c (i2, o') = Some (node, (i3, o3))"
    "(if t \<noteq> TOKEN_0 \<and> t \<noteq> TOKEN_1 then chkb (consume_character i3 (ch CHR '')'')) else Some i3) = Some i4"
    "apply_wrappers ws node = Some x" "st' = (i4, o3)"
    by (rule parse_script_bodyE)
  note w = parse_wrappers_progress [OF ok s(1)]
  note ok0 = progress_ok [OF conjunct1 [OF w]]
  note p1 = progress_input [OF ok0 parse_token_shrinks [OF ok_state_input [OF ok0] s(2)]]
  note p2 = chkb_if_progress [OF progress_ok [OF p1] s(4)]
  note n = parse_node_ok [OF S progress_ok [OF p2(1)] s(5,3)]
  note p3 = chkb_if_progress [OF progress_ok [OF conjunct1 [OF n]] s(6)]
  have "progress st st'" using w p1 p2(1) n p3(1) s(8) by (meson progress_trans)
  moreover have "script_ok d c x" using apply_wrappers_ok [OF s(7)] n w by blast
  moreover have "t \<noteq> TOKEN_INVALID" using s(5) by (auto simp: parse_node_def)
  then have "input_left st' < input_left st"
    using parse_token_left [OF ok0 s(2)] progress_left [OF conjunct1 [OF w]] progress_left [OF p2(1)]
      progress_left [OF conjunct1 [OF n]] progress_left [OF p3(1)] s(8) by simp
  ultimately show "progress st st' \<and> input_left st' < input_left st \<and> script_ok d c x" by blast
qed

lemma parse_script_sat: "parser_sat script_ok (parse_script fuel A version)"
proof (induction fuel)
  case 0
  show ?case by (simp add: parser_sat_def)
next
  case (Suc fuel)
  have "parse_script (Suc fuel) A version = parse_script_body A version (Suc fuel) (parse_script fuel A version)"
    by (intro ext) simp
  then show ?case using parse_script_body_sat [OF Suc] by simp
qed

section \<open>The fuel is enough\<close>

text \<open>
  Every recursive call is on less input than the call it comes from, and every round of a loop
  reads at least one byte. So any amount of fuel above the length of the input gives the same
  result: \<open>None\<close> is a parse error and never a lack of fuel.
\<close>

definition agree :: "nat \<Rightarrow> script_parser \<Rightarrow> script_parser \<Rightarrow> bool" where
  "agree n r1 r2 \<longleftrightarrow> (\<forall>d c st. ok_state st \<longrightarrow> input_left st < n \<longrightarrow> r1 d c st = r2 d c st)"

lemma agreeD: "agree n r1 r2 \<Longrightarrow> ok_state st \<Longrightarrow> input_left st < n \<Longrightarrow> r1 d c st = r2 d c st"
  by (cases st) (simp add: agree_def)

lemma input_left_output: "input_left (i, o') = input_left (i, o'')"
  by (simp add: input_left_def)

lemma count_wrappers_fuel:
  assumes ok: "buf_ok b" and small: "length (buf_rest b) < 4294967295"
  shows "n \<le> length (buf_rest b) \<Longrightarrow> length (buf_rest b) < n + f1 \<Longrightarrow> length (buf_rest b) < n + f2 \<Longrightarrow>
    count_wrappers f1 b n = count_wrappers f2 b n"
proof (induction f1 arbitrary: n f2)
  case (Suc f1)
  then obtain f2' where f2: "f2 = Suc f2'" by (cases f2) auto
  have "buffer_peek_n b (of_nat n) = (if n < length (buf_rest b) then Some (buf_rest b ! n) else None)"
    using ok small Suc.prems(1) by (simp add: buffer_peek_n_eq unat_of_nat_size_t)
  then show ?case using Suc.IH [of "Suc n" f2'] Suc.prems f2 by simp
qed simp

lemma parse_wrappers_fuel:
  assumes "ok_state st" and "input_left st < 4294967295" and "input_left st < f1" and "input_left st < f2"
  shows "parse_wrappers A f1 c st = parse_wrappers A f2 c st"
  using assms count_wrappers_fuel [of "fst st" 0 f1 f2]
  by (cases st) (simp add: parse_wrappers_def ok_state_def input_left_def)

lemma parse_child_scripts_agree:
  assumes S: "parser_sat P r1" and ag: "agree n r1 r2"
  shows "ok_state st \<Longrightarrow> input_left st < n \<Longrightarrow> parse_child_scripts r1 k d c st = parse_child_scripts r2 k d c st"
proof (induction k arbitrary: st)
  case (Suc k)
  obtain i o' where st: "st = (i, o')" by (cases st)
  note p = align_cur_progress [OF Suc.prems(1) [unfolded st]]
  have left: "input_left (i, align_cur o') < n" using Suc.prems(2) st input_left_output by metis
  have eq: "r2 (d + 1) c (i, align_cur o') = r1 (d + 1) c (i, align_cur o')"
    using agreeD [OF ag progress_ok [OF p] left] by simp
  have "parse_child_scripts r1 k d c (i2, o1) = parse_child_scripts r2 k d c (i2, o1)"
    if r: "r1 (d + 1) c (i, align_cur o') = Some (x, (i1, o1))"
      and c: "(if k \<noteq> 0 then chkb (consume_character i1 (ch CHR '','')) else Some i1) = Some i2" for x i1 o1 i2
  proof -
    note q = parser_satD [OF S progress_ok [OF p] r]
    note q2 = chkb_if_progress(1) [OF progress_ok [OF q(1)] c]
    show ?thesis using Suc.IH [OF progress_ok [OF q2]] q(2) progress_left [OF q2] left by simp
  qed
  then show ?case
    unfolding parse_child_scripts.simps st fst_conv snd_conv eq
    by (auto intro!: Option.bind_cong simp del: chkb_eq_Some)
qed simp

lemma parse_thresh_loop_agree:
  assumes S: "parser_sat P r1" and ag: "agree n r1 r2"
  shows "ok_state st \<Longrightarrow> input_left st < n \<Longrightarrow> input_left st < f1 \<Longrightarrow> input_left st < f2 \<Longrightarrow>
    parse_thresh_loop f1 A r1 d c first st = parse_thresh_loop f2 A r2 d c first st"
proof (induction f1 arbitrary: f2 first st)
  case (Suc f1)
  then obtain f2' where f2: "f2 = Suc f2'" by (cases f2) auto
  obtain i o' where st: "st = (i, o')" by (cases st)
  note p = align_cur_progress [OF Suc.prems(1) [unfolded st]]
  have left: "input_left (i, align_cur o') = input_left st" using st input_left_output by metis
  have eq: "r2 (d + 1) c (i, align_cur o') = r1 (d + 1) c (i, align_cur o')"
    using agreeD [OF ag progress_ok [OF p], of "d + 1" c] left Suc.prems(2) by simp
  have "parse_thresh_loop f1 A r1 d c b (i2, o2) = parse_thresh_loop f2' A r2 d c b (i2, o2)"
    if r: "r1 (d + 1) c (i, align_cur o') = Some (x, (i1, o1))"
      and c: "consume_character i1 (ch CHR '','') = (True, i2)" and a: "alloc_node o1 sz = Some o2"
    for x i1 o1 i2 o2 sz b
  proof -
    note q = parser_satD [OF S progress_ok [OF p] r]
    note q2 = consume_progress [OF progress_ok [OF q(1)] c]
    note q3 = alloc_node_progress [OF progress_ok [OF q2] a]
    have "input_left (i2, o2) < input_left st" using q(2) progress_left [OF q2] progress_left [OF q3] left by simp
    then show ?thesis using Suc.IH [OF progress_ok [OF q3], of f2'] Suc.prems f2 by simp
  qed
  then show ?case
    unfolding parse_thresh_loop.simps f2 st fst_conv snd_conv eq
    by (auto intro!: Option.bind_cong simp: Let_def split: prod.split)
qed simp

lemma parse_multi_loop_fuel:
  "ok_state st \<Longrightarrow> input_left st < f1 \<Longrightarrow> input_left st < f2 \<Longrightarrow>
    parse_multi_loop f1 A version st = parse_multi_loop f2 A version st"
proof (induction f1 arbitrary: f2 st)
  case (Suc f1)
  then obtain f2' where f2: "f2 = Suc f2'" by (cases f2) auto
  obtain i o' where st: "st = (i, o')" by (cases st)
  have "parse_multi_loop f1 A version (i2, o1) = parse_multi_loop f2' A version (i2, o1)"
    if c: "consume_character i (ch CHR '','') = (True, i1)" and a: "alloc_node o' sz = Some o1"
      and k: "parse_placeholder i1 version = Some (kp, i2)" for i1 o1 sz kp i2
  proof -
    note p1 = consume_progress [OF Suc.prems(1) [unfolded st] c]
    note p2 = alloc_node_progress [OF progress_ok [OF p1] a]
    note p3 = progress_input [OF progress_ok [OF p2] parse_placeholder_shrinks [OF ok_state_input [OF progress_ok [OF p2]] k]]
    have "input_left (i2, o1) < input_left st"
      using consume_left [OF Suc.prems(1) [unfolded st] c] progress_left [OF p2] progress_left [OF p3] st by simp
    then show ?thesis using Suc.IH [OF progress_ok [OF p3], of f2'] Suc.prems f2 by simp
  qed
  then show ?case
    unfolding parse_multi_loop.simps f2 st
    by (auto intro!: Option.bind_cong)
qed simp

lemma parse_tree_agree:
  assumes S: "parser_sat script_ok r1" and ag: "agree n r1 r2"
  shows "ok_state st \<Longrightarrow> input_left st < n \<Longrightarrow> d + levels = MAX_TAPTREE_POLICY_DEPTH + 1 \<Longrightarrow>
    parse_tree levels A r1 d st = parse_tree levels A r2 d st"
proof (induction levels arbitrary: d st)
  case (Suc levels)
  obtain i o' where st: "st = (i, o')" by (cases st)
  have leaf: "r1 (d + 1) c (i, align_cur o1) = r2 (d + 1) c (i, align_cur o1)"
    if a: "alloc_node o' sz = Some o1" for o1 sz c
  proof -
    note p1 = alloc_node_progress [OF Suc.prems(1) [unfolded st] a]
    note p2 = align_cur_progress [OF progress_ok [OF p1]]
    show ?thesis
      using agreeD [OF ag progress_ok [OF p2]] Suc.prems(2) progress_left [OF p1] progress_left [OF p2] st by simp
  qed
  have lv: "d + 1 + levels = MAX_TAPTREE_POLICY_DEPTH + 1" using Suc.prems(3) by simp
  have left: "parse_tree levels A r1 (d + 1) (snd (buffer_seek_cur i 1), align_cur o1) =
        parse_tree levels A r2 (d + 1) (snd (buffer_seek_cur i 1), align_cur o1)"
    and right: "parse_tree levels A r1 (d + 1) (snd (buffer_seek_cur i 1), align_cur o1) = Some (l, (i1, o2)) \<Longrightarrow>
      consume_character i1 (ch CHR '','') = (True, i2) \<Longrightarrow>
        parse_tree levels A r1 (d + 1) (i2, align_cur o2) = parse_tree levels A r2 (d + 1) (i2, align_cur o2)"
    if a: "alloc_node o' sz = Some o1" for o1 sz l i1 o2 i2
  proof -
    note p1 = alloc_node_progress [OF Suc.prems(1) [unfolded st] a]
    note p2 = align_cur_progress [OF progress_ok [OF p1]]
    note p3 = progress_input [OF progress_ok [OF p2] seek_1_shrinks [OF ok_state_input [OF progress_ok [OF p2]]]]
    note l3 = progress_left [OF p1] progress_left [OF p2] progress_left [OF p3]
    show "parse_tree levels A r1 (d + 1) (snd (buffer_seek_cur i 1), align_cur o1) =
        parse_tree levels A r2 (d + 1) (snd (buffer_seek_cur i 1), align_cur o1)"
      using Suc.IH [OF progress_ok [OF p3] _ lv] Suc.prems(2) l3 st by simp
    assume L: "parse_tree levels A r1 (d + 1) (snd (buffer_seek_cur i 1), align_cur o1) = Some (l, (i1, o2))"
      and c: "consume_character i1 (ch CHR '','') = (True, i2)"
    note p4 = conjunct1 [OF parse_tree_ok [OF S progress_ok [OF p3] L lv]]
    note p5 = consume_progress [OF progress_ok [OF p4] c]
    note p6 = align_cur_progress [OF progress_ok [OF p5]]
    show "parse_tree levels A r1 (d + 1) (i2, align_cur o2) = parse_tree levels A r2 (d + 1) (i2, align_cur o2)"
      using Suc.IH [OF progress_ok [OF p6] _ lv] Suc.prems(2) l3 progress_left [OF p4] progress_left [OF p5]
        progress_left [OF p6] st by simp
  qed
  show ?case
    unfolding parse_tree.simps st
    using leaf left right by (auto intro!: Option.bind_cong)
qed simp

lemma parse_thresh_agree:
  assumes S: "parser_sat P r1" and ag: "agree n r1 r2" and ok: "ok_state st"
    and left: "input_left st < n" "input_left st < f1" "input_left st < f2"
  shows "parse_thresh A f1 r1 d c st = parse_thresh A f2 r2 d c st"
proof -
  obtain i o' where st: "st = (i, o')" by (cases st)
  have "parse_thresh_loop f1 A r1 d c True (i2, o2) = parse_thresh_loop f2 A r2 d c True (i2, o2)"
    if s: "alloc_node o' sz = Some o1" "parse_unsigned_decimal i = Some (k, i1)"
      "consume_character i1 (ch CHR '','') = (True, i2)" "alloc_node o1 sz' = Some o2" for o1 sz k i1 i2 sz' o2
  proof -
    note p1 = alloc_node_progress [OF ok [unfolded st] s(1)]
    note p2 = progress_input [OF progress_ok [OF p1] parse_unsigned_decimal_shrinks [OF ok_state_input [OF ok [unfolded st]] s(2)]]
    note p3 = consume_progress [OF progress_ok [OF p2] s(3)]
    note p4 = alloc_node_progress [OF progress_ok [OF p3] s(4)]
    have "input_left (i2, o2) \<le> input_left st"
      using progress_left [OF p1] progress_left [OF p2] progress_left [OF p3] progress_left [OF p4] st by simp
    then show ?thesis using parse_thresh_loop_agree [OF S ag progress_ok [OF p4]] left by simp
  qed
  then show ?thesis
    unfolding parse_thresh_def st by (auto intro!: Option.bind_cong)
qed

lemma parse_multi_fuel:
  assumes ok: "ok_state st" and left: "input_left st < f1" "input_left st < f2"
  shows "parse_multi A f1 version t d c st = parse_multi A f2 version t d c st"
proof -
  obtain i o' where st: "st = (i, o')" by (cases st)
  have "parse_multi_loop f1 A version (i1, align_cur o1) = parse_multi_loop f2 A version (i1, align_cur o1)"
    if s: "alloc_node o' sz = Some o1" "parse_unsigned_decimal i = Some (k, i1)" for o1 sz k i1
  proof -
    note p1 = alloc_node_progress [OF ok [unfolded st] s(1)]
    note p2 = align_cur_progress [OF progress_ok [OF p1]]
    note p3 = progress_input [OF progress_ok [OF p2] parse_unsigned_decimal_shrinks [OF ok_state_input [OF ok [unfolded st]] s(2)]]
    show ?thesis
      using parse_multi_loop_fuel [OF progress_ok [OF p3]] left progress_left [OF p1] progress_left [OF p2]
        progress_left [OF p3] st by simp
  qed
  then show ?thesis
    unfolding parse_multi_def st by (auto intro!: Option.bind_cong)
qed

lemma alloc_align_agree:
  assumes ag: "agree n r1 r2" and ok: "ok_state (i, o')" and left: "input_left (i, o') < n"
    and a: "alloc_node o' sz = Some o1"
  shows "r1 d c (i, align_cur o1) = r2 d c (i, align_cur o1)"
proof -
  note p1 = alloc_node_progress [OF ok a]
  note p2 = align_cur_progress [OF progress_ok [OF p1]]
  show ?thesis using agreeD [OF ag progress_ok [OF p2]] left progress_left [OF p1] progress_left [OF p2] by simp
qed

lemma parse_tr_agree:
  assumes S: "parser_sat script_ok r1" and ag: "agree n r1 r2" and ok: "ok_state st" and left: "input_left st < n"
  shows "parse_tr A version r1 d st = parse_tr A version r2 d st"
proof -
  obtain i o' where st: "st = (i, o')" by (cases st)
  have "parse_tree (MAX_TAPTREE_POLICY_DEPTH + 1 - (d + 1)) A r1 (d + 1) (snd (buffer_seek_cur i1 1), align_cur o2) =
        parse_tree (MAX_TAPTREE_POLICY_DEPTH + 1 - (d + 1)) A r2 (d + 1) (snd (buffer_seek_cur i1 1), align_cur o2)"
    if s: "d \<le> 1" "alloc_node o' sz = Some o1" "alloc_node o1 sz' = Some o2"
      "parse_placeholder i version = Some (kp, i1)" for o1 sz sz' o2 kp i1
  proof -
    note p1 = alloc_node_progress [OF ok [unfolded st] s(2)]
    note p2 = alloc_node_progress [OF progress_ok [OF p1] s(3)]
    note p3 = progress_input [OF progress_ok [OF p2] parse_placeholder_shrinks [OF ok_state_input [OF ok [unfolded st]] s(4)]]
    note p4 = align_cur_progress [OF progress_ok [OF p3]]
    note p5 = progress_input [OF progress_ok [OF p4] seek_1_shrinks [OF ok_state_input [OF progress_ok [OF p4]]]]
    have "input_left (snd (buffer_seek_cur i1 1), align_cur o2) < n"
      using left progress_left [OF p1] progress_left [OF p2] progress_left [OF p3] progress_left [OF p4]
        progress_left [OF p5] st by simp
    moreover have "d + 1 + (MAX_TAPTREE_POLICY_DEPTH + 1 - (d + 1)) = MAX_TAPTREE_POLICY_DEPTH + 1"
      using s(1) by (simp add: MAX_TAPTREE_POLICY_DEPTH_def)
    ultimately show ?thesis using parse_tree_agree [OF S ag progress_ok [OF p5]] by blast
  qed
  then show ?thesis
    unfolding parse_tr_def st by (auto intro!: Option.bind_cong)
qed

lemma parse_sh_wsh_agree:
  assumes ag: "agree n r1 r2" and ok: "ok_state st" and left: "input_left st < n"
  shows "parse_sh_wsh A r1 t d c st = parse_sh_wsh A r2 t d c st"
  using assms alloc_align_agree [OF ag]
  by (cases st) (auto simp: parse_sh_wsh_def Let_def intro!: Option.bind_cong)

lemma parse_children_agree:
  assumes S: "parser_sat P r1" and ag: "agree n r1 r2" and ok: "ok_state st" and left: "input_left st < n"
  shows "parse_script2 rule t A r1 d c st = parse_script2 rule t A r2 d c st"
    and "parse_andor A r1 d c st = parse_andor A r2 d c st"
proof -
  obtain i o' where st: "st = (i, o')" by (cases st)
  have "parse_child_scripts r1 k d c (i, o1) = parse_child_scripts r2 k d c (i, o1)"
    if a: "alloc_node o' sz = Some o1" for k sz o1
  proof -
    note p1 = alloc_node_progress [OF ok [unfolded st] a]
    show ?thesis
      using parse_child_scripts_agree [OF S ag progress_ok [OF p1]] left progress_left [OF p1] st by simp
  qed
  then show "parse_script2 rule t A r1 d c st = parse_script2 rule t A r2 d c st"
    and "parse_andor A r1 d c st = parse_andor A r2 d c st"
    unfolding parse_script2_def parse_andor_def st fst_conv snd_conv by (auto intro!: Option.bind_cong)
qed

lemma parse_node_agree:
  assumes S: "parser_sat script_ok r1" and ag: "agree n r1 r2" and ok: "ok_state st"
    and left: "input_left st < n" "input_left st < f1" "input_left st < f2"
  shows "parse_node A version f1 r1 t d c st = parse_node A version f2 r2 t d c st"
  using parse_sh_wsh_agree [OF ag ok left(1)] parse_children_agree [OF S ag ok left(1)]
    parse_thresh_agree [OF S ag ok left] parse_tr_agree [OF S ag ok left(1)] parse_multi_fuel [OF ok left(2,3)]
  by (cases t) (simp_all add: parse_node_def)

lemma parse_script_body_agree:
  assumes S: "parser_sat script_ok r1" and ag: "agree (input_left st) r1 r2" and ok: "ok_state st"
    and left: "input_left st < f1" "input_left st < f2" "input_left st < 4294967295"
  shows "parse_script_body A version f1 r1 d c st = parse_script_body A version f2 r2 d c st"
proof -
  have "parse_node A version f1 r1 t d c (i2, o') = parse_node A version f2 r2 t d c (i2, o')"
    if s: "parse_wrappers A f2 c st = Some (ws, (i, o'))" "parse_token i = (t, i1)"
      "(if t \<noteq> TOKEN_0 \<and> t \<noteq> TOKEN_1 then chkb (consume_character i1 (ch CHR ''('')) else Some i1) = Some i2"
    for ws i o' t i1 i2
  proof (cases "t \<noteq> TOKEN_0 \<and> t \<noteq> TOKEN_1")
    case True
    note w = conjunct1 [OF parse_wrappers_progress [OF ok s(1)]]
    note p1 = progress_input [OF progress_ok [OF w] parse_token_shrinks [OF ok_state_input [OF progress_ok [OF w]] s(2)]]
    note p2 = chkb_if_progress [OF progress_ok [OF p1] s(3)]
    have "input_left (i2, o') < input_left st"
      using p2(2) [OF True] progress_left [OF w] progress_left [OF p1] by simp
    then show ?thesis using parse_node_agree [OF S ag progress_ok [OF p2(1)], of f1 f2] left by simp
  next
    case False
    then show ?thesis by (auto simp: parse_node_def)
  qed
  then show ?thesis
    unfolding parse_script_body_def parse_wrappers_fuel [OF ok left(3,1,2)]
    by (auto intro!: Option.bind_cong simp: Let_def simp del: chkb_eq_Some split: prod.split)
qed

lemma parse_script_fuel:
  "ok_state st \<Longrightarrow> input_left st < f1 \<Longrightarrow> input_left st < f2 \<Longrightarrow> input_left st < 4294967295 \<Longrightarrow>
    parse_script f1 A version d c st = parse_script f2 A version d c st"
proof (induction f1 arbitrary: f2 d c st)
  case (Suc f1)
  then obtain f2' where f2: "f2 = Suc f2'" by (cases f2) auto
  have "agree (input_left st) (parse_script f1 A version) (parse_script f2' A version)"
    unfolding agree_def
  proof (intro allI impI)
    fix d c st'
    assume "ok_state st'" "input_left st' < input_left st"
    then show "parse_script f1 A version d c st' = parse_script f2' A version d c st'"
      using Suc.IH [of st' f2'] Suc.prems f2 by simp
  qed
  then show ?case
    using parse_script_body_agree [OF parse_script_sat _ Suc.prems(1-3)] Suc.prems f2 by simp
qed simp

section \<open>Properties\<close>

abbreviation top_context :: parse_context where
  "top_context \<equiv> \<lparr>within_sh = False, within_wsh = False, within_tr = False\<rparr>"

lemma ok_state_create:
  "buf_ok b \<Longrightarrow> unat out_len \<le> length mem \<Longrightarrow> ok_state (b, buffer_create out mem out_len)"
  by (simp add: ok_state_def buf_ok_def buffer_create_def)

text \<open>The sizes that the comments of \<open>wallet.h\<close> state, and a template as an input buffer, for concrete
  runs of the parser.\<close>

definition documented_sizes :: node_sizes where
  "documented_sizes =
     \<lparr>sizeof_constant = 4, sizeof_with_script = 4, sizeof_with_script2 = 6, sizeof_with_script3 = 8,
      sizeof_with_key = 8, sizeof_key_placeholder = 12, sizeof_with_uint32 = 8, sizeof_multisig = 12,
      sizeof_thresh = 12, sizeof_scriptlist = 8, sizeof_with_hash_160 = 24, sizeof_with_hash_256 = 36,
      sizeof_tree = 6, sizeof_tr = 12\<rparr>"

definition template :: "string \<Rightarrow> buffer_t" where
  "template s = buffer_create 0 (str s) (of_nat (length s))"

text \<open>C8: Every descriptor template that the parser accepts is a well-formed policy. Each node
  carries a token of its kind in a context where that token is allowed: \<open>sh\<close> at the top only,
  \<open>wsh\<close> and \<open>wpkh\<close> at the top or in \<open>sh\<close>, only \<open>pk\<close>, \<open>multi_a\<close> and \<open>sortedmulti_a\<close> in the leaves of a
  taproot tree of depth at most four, wrappers only in a top-level \<open>wsh\<close>. Thresholds, key counts,
  time locks, hashes and placeholders are within their limits, and the miniscript type and the
  modifiers of every node follow from those of its children by the type rules. The whole input
  is read, and the nodes fit the output buffer.\<close>

theorem parse_descriptor_template_well_formed:
  assumes ok: "buf_ok in_buf" and mem: "unat out_len \<le> length mem"
    and p: "parse_descriptor_template A in_buf out mem out_len version = Some (policy, (in_buf', out_buf'))"
  shows "script_ok 0 top_context policy \<and> buf_rest in_buf' = [] \<and> buf_ok out_buf' \<and>
    buf_offset out_buf' \<le> out_len"
proof -
  let ?st = "(in_buf, buffer_create out mem out_len)"
  have ps: "parse_script (Suc (bytes_left in_buf)) A version 0 top_context ?st = Some (policy, (in_buf', out_buf'))"
    using p by (simp add: parse_descriptor_template_def split: if_splits)
  note r = parser_satD [OF parse_script_sat ok_state_create [OF ok mem] ps]
  have "\<not> buffer_can_read in_buf' 1"
    using ps by (auto elim!: parse_script_bodyE)
  moreover have oks: "ok_state (in_buf', out_buf')" using r(1) by (rule progress_ok)
  ultimately have "buf_rest in_buf' = []"
    by (cases "buf_rest in_buf'") (simp_all add: ok_state_def buffer_can_read_iff)
  moreover have "buf_size out_buf' = out_len"
    using r(1) by (auto simp: progress_def buffer_create_def dest!: shrinks_memory)
  ultimately show ?thesis using r(3) oks by (auto simp: ok_state_def buf_ok_def)
qed

theorem parse_descriptor_template_well_formed_witness:
  "case parse_descriptor_template documented_sizes (template ''wsh(and_v(v:pk(@0/**),older(144)))'') 0 (replicate 64 0) 64 2 of
     None \<Rightarrow> False
   | Some (policy, (in_buf', out_buf')) \<Rightarrow> script_ok 0 top_context policy \<and> buf_rest in_buf' = []"
proof -
  let ?b = "template ''wsh(and_v(v:pk(@0/**),older(144)))''"
  let ?r = "parse_descriptor_template documented_sizes ?b 0 (replicate 64 0) 64 2"
  have ok: "buf_ok ?b" "unat (64 :: size_t) \<le> length (replicate 64 (0 :: u8))" by code_simp+
  have "?r \<noteq> None" by code_simp
  then obtain policy i o' where "?r = Some (policy, (i, o'))" by auto
  with parse_descriptor_template_well_formed [OF ok this] show ?thesis by simp
qed




end
