(* ===== verification/Miniscript.thy ===== *)
theory Miniscript
  imports Wallet_Parse Script
begin

text \<open>
  The extended properties of a miniscript policy: \<open>compute_miniscript_policy_ext_info\<close> of
  \<open>src/common/wallet.c\<close> with its helpers, one definition per \<open>case\<close> of its \<open>switch\<close>. \<open>None\<close> is a
  negative return value. The two arrays of the \<open>thresh\<close> computation are on the stack, as in the
  build without \<open>USE_CXRAM_SECTION\<close>; \<open>beyond\<close> stands for the memory behind them, which the code
  reads when the threshold is larger than the array.
\<close>

section \<open>Helpers\<close>

definition sumcheck :: "int \<Rightarrow> int \<Rightarrow> int" where
  "sumcheck a b = (if a < 0 \<or> b < 0 then -1 else if a + b > 32767 then 32767 else a + b)"

definition maxcheck :: "int \<Rightarrow> int \<Rightarrow> int" where
  "maxcheck a b = (if a < 0 then b else if a > b then a else b)"

text \<open>The constructors of the two structures, and the values that are set before the switch.\<close>

definition mk_ops :: "u16 \<Rightarrow> int \<Rightarrow> int \<Rightarrow> miniscript_ops" where
  "mk_ops c s d = \<lparr>ops_count = c, ops_sat = s, ops_dsat = d\<rparr>"

definition mk_ss :: "int \<Rightarrow> int \<Rightarrow> miniscript_stacksize" where
  "mk_ss s d = \<lparr>ss_sat = s, ss_dsat = d\<rparr>"

definition ext_init :: policy_node_ext_info where
  "ext_init =
     \<lparr>ext_ops = mk_ops 0 0 0, ext_ss = mk_ss 0 0, script_size = 0, ext_s = False, ext_f = False, ext_e = False,
      ext_m = True, ext_g = False, ext_h = False, ext_i = False, ext_j = False, ext_k = True, ext_x = True\<rparr>"

definition ext_copy_timelocks :: "policy_node_ext_info \<Rightarrow> policy_node_ext_info \<Rightarrow> policy_node_ext_info" where
  "ext_copy_timelocks x out =
     out\<lparr>ext_g := ext_g x, ext_h := ext_h x, ext_i := ext_i x, ext_j := ext_j x, ext_k := ext_k x\<rparr>"

definition ext_join_timelocks :: "policy_node_ext_info \<Rightarrow> policy_node_ext_info \<Rightarrow> policy_node_ext_info \<Rightarrow> policy_node_ext_info" where
  "ext_join_timelocks x y out =
     out\<lparr>ext_g := ext_g x \<or> ext_g y, ext_h := ext_h x \<or> ext_h y,
         ext_i := ext_i x \<or> ext_i y, ext_j := ext_j x \<or> ext_j y\<rparr>"

text \<open>Whether one of two subscripts has a relative or absolute time lock by height and the other by time.\<close>

definition timelock_mix :: "policy_node_ext_info \<Rightarrow> policy_node_ext_info \<Rightarrow> bool" where
  "timelock_mix x y \<longleftrightarrow>
     (ext_g x \<and> ext_h y) \<or> (ext_h x \<and> ext_g y) \<or> (ext_i x \<and> ext_j y) \<or> (ext_j x \<and> ext_i y)"

section \<open>Terminal nodes\<close>

definition ext_0 :: policy_node_ext_info where
  "ext_0 = ext_init\<lparr>ext_s := True, ext_e := True, script_size := 1, ext_ops := mk_ops 0 (-1) 0, ext_ss := mk_ss (-1) 0\<rparr>"

definition ext_1 :: policy_node_ext_info where
  "ext_1 = ext_init\<lparr>ext_f := True, script_size := 1, ext_ops := mk_ops 0 0 (-1), ext_ss := mk_ss 0 (-1)\<rparr>"

definition ext_pk_k :: policy_node_ext_info where
  "ext_pk_k = ext_init\<lparr>ext_s := True, ext_e := True, script_size := 34, ext_ops := mk_ops 0 0 0, ext_ss := mk_ss 1 1\<rparr>"

definition ext_pk_h :: policy_node_ext_info where
  "ext_pk_h = ext_init\<lparr>ext_s := True, ext_e := True, script_size := 3 + 21, ext_ops := mk_ops 3 0 0, ext_ss := mk_ss 2 2\<rparr>"

definition ext_pk :: policy_node_ext_info where
  "ext_pk = ext_init\<lparr>ext_s := True, ext_e := True, ext_x := False, script_size := 34 + 1,
     ext_ops := mk_ops 1 0 0, ext_ss := mk_ss 1 1\<rparr>"

definition ext_pkh :: policy_node_ext_info where
  "ext_pkh = ext_init\<lparr>ext_s := True, ext_e := True, ext_x := False, script_size := 3 + 21 + 1,
     ext_ops := mk_ops 4 0 0, ext_ss := mk_ss 2 2\<rparr>"

definition ext_multi :: "nat \<Rightarrow> nat \<Rightarrow> policy_node_ext_info" where
  "ext_multi k n = ext_init\<lparr>ext_s := True, ext_e := True, ext_x := False,
     script_size := ucast (1 + get_push_script_size (of_nat k) + get_push_script_size (of_nat n) + 34 * of_nat n),
     ext_ops := mk_ops 1 (int n) (int n), ext_ss := mk_ss (int k + 1) (int k + 1)\<rparr>"

definition SEQUENCE_LOCKTIME_TYPE_FLAG :: u32 where
  "SEQUENCE_LOCKTIME_TYPE_FLAG = push_bit 22 1"

definition LOCKTIME_THRESHOLD :: u32 where
  "LOCKTIME_THRESHOLD = 500000000"

definition ext_older :: "u32 \<Rightarrow> policy_node_ext_info" where
  "ext_older n = ext_init\<lparr>ext_f := True,
     ext_g := n AND SEQUENCE_LOCKTIME_TYPE_FLAG \<noteq> 0, ext_h := n AND SEQUENCE_LOCKTIME_TYPE_FLAG = 0,
     script_size := ucast (1 + get_push_script_size n), ext_ops := mk_ops 1 0 (-1), ext_ss := mk_ss 0 (-1)\<rparr>"

definition ext_after :: "u32 \<Rightarrow> policy_node_ext_info" where
  "ext_after n = ext_init\<lparr>ext_f := True, ext_i := n \<ge> LOCKTIME_THRESHOLD, ext_j := n < LOCKTIME_THRESHOLD,
     script_size := ucast (1 + get_push_script_size n), ext_ops := mk_ops 1 0 (-1), ext_ss := mk_ss 0 (-1)\<rparr>"

definition ext_hash_256 :: policy_node_ext_info where
  "ext_hash_256 = ext_init\<lparr>ext_x := False, script_size := 4 + 2 + 33, ext_ops := mk_ops 4 0 (-1), ext_ss := mk_ss 1 (-1)\<rparr>"

definition ext_hash_160 :: policy_node_ext_info where
  "ext_hash_160 = ext_init\<lparr>ext_x := False, script_size := 4 + 2 + 21, ext_ops := mk_ops 4 0 (-1), ext_ss := mk_ss 1 (-1)\<rparr>"

section \<open>Combinators\<close>

definition ext_andor :: "policy_node_ext_info \<Rightarrow> policy_node_ext_info \<Rightarrow> policy_node_ext_info \<Rightarrow> policy_node_ext_info" where
  "ext_andor x y z = ext_init\<lparr>
     ext_s := ext_s z \<and> (ext_s x \<or> ext_s y),
     ext_f := ext_f z \<and> (ext_s x \<or> ext_f y),
     ext_e := ext_e z \<and> (ext_s x \<or> ext_f y),
     ext_m := ext_m x \<and> ext_m y \<and> ext_m z \<and> ext_e x \<and> (ext_s x \<or> ext_s y \<or> ext_s z),
     ext_g := ext_g x \<or> ext_g y \<or> ext_g z, ext_h := ext_h x \<or> ext_h y \<or> ext_h z,
     ext_i := ext_i x \<or> ext_i y \<or> ext_i z, ext_j := ext_j x \<or> ext_j y \<or> ext_j z,
     ext_k := \<not> (\<not> (ext_k x \<and> ext_k y \<and> ext_k z) \<or> timelock_mix x y),
     script_size := 3 + script_size x + script_size y + script_size z,
     ext_ops := mk_ops (3 + ops_count (ext_ops x) + ops_count (ext_ops y) + ops_count (ext_ops z))
       (maxcheck (sumcheck (ops_sat (ext_ops y)) (ops_sat (ext_ops x))) (sumcheck (ops_dsat (ext_ops y)) (ops_sat (ext_ops z))))
       (sumcheck (ops_dsat (ext_ops x)) (ops_dsat (ext_ops z))),
     ext_ss := mk_ss
       (maxcheck (sumcheck (ss_sat (ext_ss x)) (ss_sat (ext_ss y))) (sumcheck (ss_dsat (ext_ss x)) (ss_sat (ext_ss z))))
       (sumcheck (ss_dsat (ext_ss x)) (ss_dsat (ext_ss z)))\<rparr>"

definition ext_and_v :: "policy_node_ext_info \<Rightarrow> policy_node_ext_info \<Rightarrow> policy_node_ext_info" where
  "ext_and_v x y = (ext_join_timelocks x y ext_init)\<lparr>
     ext_s := ext_s x \<or> ext_s y,
     ext_f := ext_s x \<or> ext_f y,
     ext_m := ext_m x \<and> ext_m y,
     ext_k := \<not> (\<not> (ext_k x \<and> ext_k y) \<or> timelock_mix x y),
     ext_x := ext_x y,
     script_size := script_size x + script_size y,
     ext_ops := mk_ops (ops_count (ext_ops x) + ops_count (ext_ops y))
       (sumcheck (ops_sat (ext_ops x)) (ops_sat (ext_ops y))) (-1),
     ext_ss := mk_ss (sumcheck (ss_sat (ext_ss x)) (ss_sat (ext_ss y))) (-1)\<rparr>"

definition ext_and_b :: "policy_node_ext_info \<Rightarrow> policy_node_ext_info \<Rightarrow> policy_node_ext_info" where
  "ext_and_b x y = (ext_join_timelocks x y ext_init)\<lparr>
     ext_s := ext_s x \<or> ext_s y,
     ext_f := (ext_f x \<and> ext_f y) \<or> (ext_s x \<and> ext_f x) \<or> (ext_s y \<and> ext_f y),
     ext_e := ext_e x \<and> ext_e y \<and> ext_s x \<and> ext_s y,
     ext_m := ext_m x \<and> ext_m y,
     ext_k := \<not> (\<not> (ext_k x \<and> ext_k y) \<or> timelock_mix x y),
     script_size := 1 + script_size x + script_size y,
     ext_ops := mk_ops (1 + ops_count (ext_ops x) + ops_count (ext_ops y))
       (sumcheck (ops_sat (ext_ops x)) (ops_sat (ext_ops y))) (sumcheck (ops_dsat (ext_ops x)) (ops_dsat (ext_ops y))),
     ext_ss := mk_ss (sumcheck (ss_sat (ext_ss x)) (ss_sat (ext_ss y))) (sumcheck (ss_dsat (ext_ss x)) (ss_dsat (ext_ss y)))\<rparr>"

definition ext_and_n :: "policy_node_ext_info \<Rightarrow> policy_node_ext_info \<Rightarrow> policy_node_ext_info" where
  "ext_and_n x y = (ext_join_timelocks x y ext_init)\<lparr>
     ext_s := ext_s x \<or> ext_s y,
     ext_e := ext_s x \<or> ext_f y,
     ext_m := ext_m x \<and> ext_m y \<and> ext_e x \<and> (ext_s x \<or> ext_s y),
     ext_k := \<not> (\<not> (ext_k x \<and> ext_k y) \<or> timelock_mix x y),
     script_size := 4 + script_size x + script_size y,
     ext_ops := mk_ops (3 + ops_count (ext_ops x) + ops_count (ext_ops y))
       (maxcheck (sumcheck (ops_sat (ext_ops y)) (ops_sat (ext_ops x))) (ops_dsat (ext_ops y)))
       (ops_dsat (ext_ops x)),
     ext_ss := mk_ss (sumcheck (ss_sat (ext_ss x)) (ss_sat (ext_ss y))) (ss_dsat (ext_ss x))\<rparr>"

definition ext_or_b :: "policy_node_ext_info \<Rightarrow> policy_node_ext_info \<Rightarrow> policy_node_ext_info" where
  "ext_or_b x z = (ext_join_timelocks x z ext_init)\<lparr>
     ext_s := ext_s x \<and> ext_s z,
     ext_e := True,
     ext_m := ext_m x \<and> ext_m z \<and> ext_e x \<and> ext_e z \<and> (ext_s x \<or> ext_s z),
     ext_k := ext_k x \<and> ext_k z,
     script_size := 1 + script_size x + script_size z,
     ext_ops := mk_ops (1 + ops_count (ext_ops x) + ops_count (ext_ops z))
       (maxcheck (sumcheck (ops_sat (ext_ops x)) (ops_dsat (ext_ops z))) (sumcheck (ops_sat (ext_ops z)) (ops_dsat (ext_ops x))))
       (sumcheck (ops_dsat (ext_ops x)) (ops_dsat (ext_ops z))),
     ext_ss := mk_ss
       (maxcheck (sumcheck (ss_dsat (ext_ss x)) (ss_sat (ext_ss z))) (sumcheck (ss_sat (ext_ss x)) (ss_dsat (ext_ss z))))
       (sumcheck (ss_dsat (ext_ss x)) (ss_dsat (ext_ss z)))\<rparr>"

definition ext_or_c :: "policy_node_ext_info \<Rightarrow> policy_node_ext_info \<Rightarrow> policy_node_ext_info" where
  "ext_or_c x z = (ext_join_timelocks x z ext_init)\<lparr>
     ext_s := ext_s x \<and> ext_s z,
     ext_f := True,
     ext_m := ext_m x \<and> ext_m z \<and> ext_e x \<and> (ext_s x \<or> ext_s z),
     ext_k := ext_k x \<and> ext_k z,
     script_size := 2 + script_size x + script_size z,
     ext_ops := mk_ops (2 + ops_count (ext_ops x) + ops_count (ext_ops z))
       (maxcheck (ops_sat (ext_ops x)) (sumcheck (ops_sat (ext_ops z)) (ops_dsat (ext_ops x)))) (-1),
     ext_ss := mk_ss (maxcheck (ss_sat (ext_ss x)) (sumcheck (ss_dsat (ext_ss x)) (ss_sat (ext_ss z)))) (-1)\<rparr>"

definition ext_or_d :: "policy_node_ext_info \<Rightarrow> policy_node_ext_info \<Rightarrow> policy_node_ext_info" where
  "ext_or_d x z = (ext_join_timelocks x z ext_init)\<lparr>
     ext_s := ext_s x \<and> ext_s z,
     ext_f := ext_f z,
     ext_e := ext_e z,
     ext_m := ext_m x \<and> ext_m z \<and> ext_e x \<and> (ext_s x \<or> ext_s z),
     ext_k := ext_k x \<and> ext_k z,
     script_size := 3 + script_size x + script_size z,
     ext_ops := mk_ops (3 + ops_count (ext_ops x) + ops_count (ext_ops z))
       (maxcheck (ops_sat (ext_ops x)) (sumcheck (ops_sat (ext_ops z)) (ops_dsat (ext_ops x))))
       (sumcheck (ops_dsat (ext_ops x)) (ops_dsat (ext_ops z))),
     ext_ss := mk_ss (maxcheck (ss_sat (ext_ss x)) (sumcheck (ss_dsat (ext_ss x)) (ss_sat (ext_ss z))))
       (sumcheck (ss_dsat (ext_ss x)) (ss_dsat (ext_ss z)))\<rparr>"

definition ext_or_i :: "policy_node_ext_info \<Rightarrow> policy_node_ext_info \<Rightarrow> policy_node_ext_info" where
  "ext_or_i x z = (ext_join_timelocks x z ext_init)\<lparr>
     ext_s := ext_s x \<and> ext_s z,
     ext_f := ext_f x \<and> ext_f z,
     ext_e := (ext_e x \<and> ext_f z) \<or> (ext_e z \<and> ext_f x),
     ext_m := ext_m x \<and> ext_m z \<and> (ext_s x \<or> ext_s z),
     ext_k := ext_k x \<and> ext_k z,
     script_size := 3 + script_size x + script_size z,
     ext_ops := mk_ops (3 + ops_count (ext_ops x) + ops_count (ext_ops z))
       (maxcheck (ops_sat (ext_ops x)) (ops_sat (ext_ops z))) (maxcheck (ops_dsat (ext_ops x)) (ops_dsat (ext_ops z))),
     ext_ss := mk_ss (maxcheck (sumcheck (ss_sat (ext_ss x)) 1) (sumcheck (ss_sat (ext_ss z)) 1))
       (maxcheck (sumcheck (ss_dsat (ext_ss x)) 1) (sumcheck (ss_dsat (ext_ss z)) 1))\<rparr>"

section \<open>Thresholds\<close>

definition MAX_N_IN_THRESH :: nat where
  "MAX_N_IN_THRESH = 128"

text \<open>
  The two loops over the children keep, in \<open>sats[j]\<close> for \<open>j < sats_size\<close>, the largest cost of
  satisfying exactly \<open>j\<close> of the children seen so far and dissatisfying the others. One round, with
  the cost of satisfying and of dissatisfying the next child:
\<close>

definition sats_step :: "int list \<Rightarrow> nat \<Rightarrow> int \<Rightarrow> int \<Rightarrow> int list" where
  "sats_step sats sats_size sat dsat =
     (let next_sats = [sumcheck (sats ! 0) dsat] @
            map (\<lambda>j. maxcheck (sumcheck (sats ! j) dsat) (sumcheck (sats ! (j - 1)) sat)) [1..<sats_size] @
            [sumcheck (sats ! (sats_size - 1)) sat]
      in next_sats @ drop (sats_size + 1) sats)"

primrec sats_loop :: "(int \<times> int) list \<Rightarrow> int list \<Rightarrow> nat \<Rightarrow> int list" where
  "sats_loop [] sats sats_size = sats"
| "sats_loop (t # ts) sats sats_size = sats_loop ts (sats_step sats sats_size (fst t) (snd t)) (sats_size + 1)"

definition sats_init :: "int list" where
  "sats_init = replicate (MAX_N_IN_THRESH + 1 + 1) 0"

definition read_sats :: "(nat \<Rightarrow> int) \<Rightarrow> int list \<Rightarrow> nat \<Rightarrow> int" where
  "read_sats beyond sats i = (if i < length sats then sats ! i else beyond i)"

definition compute_thresh_ops :: "(nat \<Rightarrow> int) \<Rightarrow> nat \<Rightarrow> policy_node_ext_info list \<Rightarrow> miniscript_ops option" where
  "compute_thresh_ops beyond k ts =
     (if length ts > MAX_N_IN_THRESH then None
      else let sats = sats_loop (map (\<lambda>t. (ops_sat (ext_ops t), ops_dsat (ext_ops t))) ts) sats_init 1
           in Some (mk_ops (sum_list (map (\<lambda>t. ops_count (ext_ops t) + 1) ts)) (read_sats beyond sats k) (sats ! 0)))"

definition compute_thresh_stacksize :: "(nat \<Rightarrow> int) \<Rightarrow> nat \<Rightarrow> policy_node_ext_info list \<Rightarrow> miniscript_stacksize option" where
  "compute_thresh_stacksize beyond k ts =
     (if length ts > MAX_N_IN_THRESH then None
      else let sats = sats_loop (map (\<lambda>t. (ss_sat (ext_ss t), ss_dsat (ext_ss t))) ts) sats_init 1
           in Some (mk_ss (read_sats beyond sats k) (sats ! 0)))"

text \<open>The flags g, h, i, j, k of the loop over the children; the flags of the child are joined before
  the test for a mix of time locks.\<close>

primrec thresh_timelocks :: "nat \<Rightarrow> policy_node_ext_info list \<Rightarrow> policy_node_ext_info \<Rightarrow> policy_node_ext_info" where
  "thresh_timelocks k [] out = out"
| "thresh_timelocks k (t # ts) out =
     (let out = ext_join_timelocks out t out;
          out = out\<lparr>ext_k := ext_k out \<and> ext_k t\<rparr>;
          out = (if k \<ge> 2 \<and> timelock_mix t out then out\<lparr>ext_k := False\<rparr> else out)
      in thresh_timelocks k ts out)"

definition ext_thresh :: "(nat \<Rightarrow> int) \<Rightarrow> nat \<Rightarrow> policy_node_ext_info list \<Rightarrow> policy_node_ext_info option" where
  "ext_thresh beyond k ts =
     (let n = length ts;
          count_s = length (filter ext_s ts);
          count_e = length (filter ext_e ts);
          count_not_s = int n - int count_s;
          out = thresh_timelocks k ts ext_init
      in do {
        ops \<leftarrow> compute_thresh_ops beyond k ts;
        ss \<leftarrow> compute_thresh_stacksize beyond k ts;
        Some (out\<lparr>
          ext_s := count_not_s \<le> int k - 1,
          ext_e := count_s = n,
          ext_m := count_e = n \<and> count_not_s \<le> int k,
          ext_x := False,
          script_size := sum_list (map script_size ts) + of_nat n + ucast (get_push_script_size (of_nat k)),
          ext_ops := ops, ext_ss := ss\<rparr>)
      })"

section \<open>Wrappers\<close>

definition ext_wrap_a :: "policy_node_ext_info \<Rightarrow> policy_node_ext_info" where
  "ext_wrap_a x = (ext_copy_timelocks x ext_init)\<lparr>
     ext_s := ext_s x, ext_f := ext_f x, ext_e := ext_e x, ext_m := ext_m x,
     script_size := script_size x + 2,
     ext_ops := mk_ops (2 + ops_count (ext_ops x)) (ops_sat (ext_ops x)) (ops_dsat (ext_ops x)), ext_ss := ext_ss x\<rparr>"

definition ext_wrap_s_n :: "PolicyNodeType \<Rightarrow> policy_node_ext_info \<Rightarrow> policy_node_ext_info" where
  "ext_wrap_s_n token x = (ext_copy_timelocks x ext_init)\<lparr>
     ext_s := ext_s x, ext_f := ext_f x, ext_e := ext_e x, ext_m := ext_m x,
     ext_x := (if token = TOKEN_S then ext_x x else True),
     script_size := script_size x + 1,
     ext_ops := mk_ops (1 + ops_count (ext_ops x)) (ops_sat (ext_ops x)) (ops_dsat (ext_ops x)), ext_ss := ext_ss x\<rparr>"

definition ext_wrap_c :: "policy_node_ext_info \<Rightarrow> policy_node_ext_info" where
  "ext_wrap_c x = (ext_copy_timelocks x ext_init)\<lparr>
     ext_s := True, ext_f := ext_f x, ext_e := ext_e x, ext_m := ext_m x, ext_x := False,
     script_size := script_size x + 1,
     ext_ops := mk_ops (1 + ops_count (ext_ops x)) (ops_sat (ext_ops x)) (ops_dsat (ext_ops x)), ext_ss := ext_ss x\<rparr>"

definition ext_wrap_d :: "policy_node_ext_info \<Rightarrow> policy_node_ext_info" where
  "ext_wrap_d x = (ext_copy_timelocks x ext_init)\<lparr>
     ext_s := ext_s x, ext_e := True, ext_m := ext_m x,
     script_size := script_size x + 3,
     ext_ops := mk_ops (3 + ops_count (ext_ops x)) (ops_sat (ext_ops x)) 0,
     ext_ss := mk_ss (sumcheck 1 (ss_sat (ext_ss x))) 1\<rparr>"

definition ext_wrap_t :: "policy_node_ext_info \<Rightarrow> policy_node_ext_info" where
  "ext_wrap_t x = (ext_copy_timelocks x ext_init)\<lparr>
     ext_s := ext_s x, ext_f := True, ext_m := ext_m x,
     script_size := script_size x + 1,
     ext_ops := mk_ops (ops_count (ext_ops x)) (ops_sat (ext_ops x)) (-1), ext_ss := mk_ss (ss_sat (ext_ss x)) (-1)\<rparr>"

definition ext_wrap_v :: "policy_node_ext_info \<Rightarrow> policy_node_ext_info" where
  "ext_wrap_v x = (ext_copy_timelocks x ext_init)\<lparr>
     ext_s := ext_s x, ext_f := True, ext_m := ext_m x,
     script_size := script_size x + (if ext_x x then 1 else 0),
     ext_ops := mk_ops (ops_count (ext_ops x) + (if ext_x x then 1 else 0)) (ops_sat (ext_ops x)) (-1),
     ext_ss := mk_ss (ss_sat (ext_ss x)) (-1)\<rparr>"

definition ext_wrap_j :: "policy_node_ext_info \<Rightarrow> policy_node_ext_info" where
  "ext_wrap_j x = (ext_copy_timelocks x ext_init)\<lparr>
     ext_s := ext_s x, ext_e := ext_f x, ext_m := ext_m x,
     script_size := script_size x + 4,
     ext_ops := mk_ops (4 + ops_count (ext_ops x)) (ops_sat (ext_ops x)) 0, ext_ss := mk_ss (ss_sat (ext_ss x)) 1\<rparr>"

definition ext_wrap_l_u :: "policy_node_ext_info \<Rightarrow> policy_node_ext_info" where
  "ext_wrap_l_u x = (ext_copy_timelocks x ext_init)\<lparr>
     ext_s := ext_s x, ext_f := False, ext_e := ext_f x, ext_m := ext_m x,
     script_size := script_size x + 4,
     ext_ops := mk_ops (3 + ops_count (ext_ops x)) (ops_sat (ext_ops x)) (ops_dsat (ext_ops x)),
     ext_ss := mk_ss (sumcheck (ss_sat (ext_ss x)) 1) (maxcheck 1 (sumcheck (ss_dsat (ext_ss x)) 1))\<rparr>"

section \<open>The recursion\<close>

definition ext_key :: "PolicyNodeType \<Rightarrow> policy_node_ext_info option" where
  "ext_key token =
     (case token of
        TOKEN_PK_K \<Rightarrow> Some ext_pk_k | TOKEN_PK_H \<Rightarrow> Some ext_pk_h | TOKEN_PK \<Rightarrow> Some ext_pk | TOKEN_PKH \<Rightarrow> Some ext_pkh
      | _ \<Rightarrow> None)"

definition ext_wrapper :: "PolicyNodeType \<Rightarrow> policy_node_ext_info \<Rightarrow> policy_node_ext_info option" where
  "ext_wrapper token x =
     (case token of
        TOKEN_A \<Rightarrow> Some (ext_wrap_a x) | TOKEN_S \<Rightarrow> Some (ext_wrap_s_n token x) | TOKEN_N \<Rightarrow> Some (ext_wrap_s_n token x)
      | TOKEN_C \<Rightarrow> Some (ext_wrap_c x) | TOKEN_D \<Rightarrow> Some (ext_wrap_d x) | TOKEN_T \<Rightarrow> Some (ext_wrap_t x)
      | TOKEN_V \<Rightarrow> Some (ext_wrap_v x) | TOKEN_J \<Rightarrow> Some (ext_wrap_j x)
      | TOKEN_L \<Rightarrow> Some (ext_wrap_l_u x) | TOKEN_U \<Rightarrow> Some (ext_wrap_l_u x)
      | _ \<Rightarrow> None)"

definition ext_script2 :: "PolicyNodeType \<Rightarrow> policy_node_ext_info \<Rightarrow> policy_node_ext_info \<Rightarrow> policy_node_ext_info option" where
  "ext_script2 token x y =
     (case token of
        TOKEN_AND_V \<Rightarrow> Some (ext_and_v x y) | TOKEN_AND_B \<Rightarrow> Some (ext_and_b x y) | TOKEN_AND_N \<Rightarrow> Some (ext_and_n x y)
      | TOKEN_OR_B \<Rightarrow> Some (ext_or_b x y) | TOKEN_OR_C \<Rightarrow> Some (ext_or_c x y) | TOKEN_OR_D \<Rightarrow> Some (ext_or_d x y)
      | TOKEN_OR_I \<Rightarrow> Some (ext_or_i x y)
      | _ \<Rightarrow> None)"

text \<open>The tokens that have no case here, among them those that are not miniscript, give an error.
  Every call starts with the test of \<open>is_miniscript\<close>.\<close>

fun compute_miniscript_policy_ext_info :: "(nat \<Rightarrow> int) \<Rightarrow> policy_node \<Rightarrow> policy_node_ext_info option" where
  "compute_miniscript_policy_ext_info M (Node_constant t f) = do {
     guard (f \<noteq> None);
     if t = TOKEN_0 then Some ext_0 else if t = TOKEN_1 then Some ext_1 else None }"
| "compute_miniscript_policy_ext_info M (Node_with_script t f x) = do {
     guard (f \<noteq> None);
     ex \<leftarrow> compute_miniscript_policy_ext_info M x;
     ext_wrapper t ex }"
| "compute_miniscript_policy_ext_info M (Node_with_script2 t f x y) = do {
     guard (f \<noteq> None);
     ex \<leftarrow> compute_miniscript_policy_ext_info M x;
     ey \<leftarrow> compute_miniscript_policy_ext_info M y;
     ext_script2 t ex ey }"
| "compute_miniscript_policy_ext_info M (Node_with_script3 t f x y z) = do {
     guard (f \<noteq> None);
     ex \<leftarrow> compute_miniscript_policy_ext_info M x;
     ey \<leftarrow> compute_miniscript_policy_ext_info M y;
     ez \<leftarrow> compute_miniscript_policy_ext_info M z;
     if t = TOKEN_ANDOR then Some (ext_andor ex ey ez) else None }"
| "compute_miniscript_policy_ext_info M (Node_with_key t f kp) = do { guard (f \<noteq> None); ext_key t }"
| "compute_miniscript_policy_ext_info M (Node_with_uint32 t f n) = do {
     guard (f \<noteq> None);
     if t = TOKEN_OLDER then Some (ext_older n) else if t = TOKEN_AFTER then Some (ext_after n) else None }"
| "compute_miniscript_policy_ext_info M (Node_multisig t f k kps) = do {
     guard (f \<noteq> None);
     if t = TOKEN_MULTI then Some (ext_multi k (length kps)) else None }"
| "compute_miniscript_policy_ext_info M (Node_thresh t f k xs) = do {
     guard (f \<noteq> None);
     ts \<leftarrow> those (map (compute_miniscript_policy_ext_info M) xs);
     if t = TOKEN_THRESH then ext_thresh M k ts else None }"
| "compute_miniscript_policy_ext_info M (Node_with_hash_160 t f h) = do {
     guard (f \<noteq> None);
     if t = TOKEN_RIPEMD160 \<or> t = TOKEN_HASH160 then Some ext_hash_160 else None }"
| "compute_miniscript_policy_ext_info M (Node_with_hash_256 t f h) = do {
     guard (f \<noteq> None);
     if t = TOKEN_SHA256 \<or> t = TOKEN_HASH256 then Some ext_hash_256 else None }"
| "compute_miniscript_policy_ext_info M (Node_tr t f kp tree) = None"

section \<open>The threshold computation against its specification\<close>

text \<open>
  The specification: a choice says for every child whether it is satisfied; \<open>choice_costs ts j\<close> is
  the set of the total costs of the choices that satisfy exactly \<open>j\<close> children and that are possible,
  a negative cost being an impossible one. \<open>best\<close> is the largest cost, capped at \<open>INT16_MAX\<close>, or -1
  when there is no choice.
\<close>

definition pick :: "bool \<Rightarrow> int \<times> int \<Rightarrow> int" where
  "pick b t = (if b then fst t else snd t)"

definition choice_costs :: "(int \<times> int) list \<Rightarrow> nat \<Rightarrow> int set" where
  "choice_costs ts j = {sum_list (map2 pick bs ts) | bs.
     length bs = length ts \<and> length (filter id bs) = j \<and> list_all2 (\<lambda>b t. 0 \<le> pick b t) bs ts}"

definition best :: "int set \<Rightarrow> int" where
  "best V = (if V = {} then -1 else min 32767 (Max V))"

lemma choice_costs_Nil: "choice_costs [] j = (if j = 0 then {0} else {})"
  by (auto simp: choice_costs_def)

lemma choice_costs_snoc:
  "choice_costs (ts @ [t]) j =
     (if 0 \<le> snd t then (\<lambda>c. c + snd t) ` choice_costs ts j else {}) \<union>
     (if 0 < j \<and> 0 \<le> fst t then (\<lambda>c. c + fst t) ` choice_costs ts (j - 1) else {})"
  (is "?L = ?R")
proof (intro set_eqI iffI)
  fix v assume "v \<in> ?L"
  then obtain bs where bs: "length bs = Suc (length ts)" "length (filter id bs) = j"
      "list_all2 (\<lambda>b t. 0 \<le> pick b t) bs (ts @ [t])" "v = sum_list (map2 pick bs (ts @ [t]))"
    by (auto simp: choice_costs_def)
  then obtain cs b where cs: "bs = cs @ [b]" by (metis length_Suc_conv_rev)
  have c: "sum_list (map2 pick cs ts) \<in> choice_costs ts (if b then j - 1 else j)" "0 \<le> pick b t"
      "v = sum_list (map2 pick cs ts) + pick b t" "b \<Longrightarrow> 0 < j"
    using bs by (auto simp: cs choice_costs_def list_all2_append zip_append)
  then show "v \<in> ?R" by (cases b) (auto simp: pick_def)
next
  fix v assume "v \<in> ?R"
  then have "(\<exists>c \<in> choice_costs ts j. 0 \<le> snd t \<and> v = c + snd t) \<or>
      (\<exists>c \<in> choice_costs ts (j - 1). 0 \<le> fst t \<and> v = c + fst t \<and> 0 < j)"
    by (auto split: if_splits)
  then have "\<exists>b c. c \<in> choice_costs ts (if b then j - 1 else j) \<and> 0 \<le> pick b t \<and> v = c + pick b t \<and> (b \<longrightarrow> 0 < j)"
    unfolding ex_bool_eq by (auto simp: pick_def)
  then obtain c b where c: "c \<in> choice_costs ts (if b then j - 1 else j)" "0 \<le> pick b t" "v = c + pick b t" "b \<longrightarrow> 0 < j"
    by blast
  then obtain cs where cs: "length cs = length ts" "length (filter id cs) = (if b then j - 1 else j)"
      "list_all2 (\<lambda>b t. 0 \<le> pick b t) cs ts" "c = sum_list (map2 pick cs ts)"
    by (auto simp: choice_costs_def)
  show "v \<in> ?L"
    using c cs by (auto simp: choice_costs_def list_all2_append zip_append intro!: exI [of _ "cs @ [b]"])
qed

lemma choice_costs_finite: "finite (choice_costs ts j)"
  by (induction ts arbitrary: j rule: rev_induct) (auto simp: choice_costs_Nil choice_costs_snoc)

lemma choice_costs_nonneg: "c \<in> choice_costs ts j \<Longrightarrow> 0 \<le> c"
  by (induction ts arbitrary: j c rule: rev_induct) (auto simp: choice_costs_Nil choice_costs_snoc split: if_splits)

lemma choice_costs_too_many: "length ts < j \<Longrightarrow> choice_costs ts j = {}"
  by (induction ts arbitrary: j rule: rev_induct) (auto simp: choice_costs_Nil choice_costs_snoc)

lemma best_nonneg: "finite V \<Longrightarrow> V \<noteq> {} \<Longrightarrow> (\<And>c. c \<in> V \<Longrightarrow> 0 \<le> c) \<Longrightarrow> 0 \<le> best V"
  using Max_in [of V] by (simp add: best_def)

lemma best_union:
  assumes fin: "finite V" "finite W" and pos: "\<And>c. c \<in> V \<union> W \<Longrightarrow> 0 \<le> c"
  shows "maxcheck (best V) (best W) = best (V \<union> W)"
proof (cases "V = {} \<or> W = {}")
  case True
  then show ?thesis
    using best_nonneg [OF fin(1)] pos by (cases "V = {}") (auto simp: maxcheck_def best_def)
next
  case False
  then have "Max (V \<union> W) = max (Max V) (Max W)" using fin by (simp add: Max_Un)
  moreover have "0 \<le> best V" using False best_nonneg [OF fin(1)] pos by blast
  ultimately show ?thesis using False by (auto simp: maxcheck_def best_def min_def max_def)
qed

lemma best_shift:
  assumes "finite V" "\<And>c. c \<in> V \<Longrightarrow> 0 \<le> c" "-1 \<le> d"
  shows "sumcheck (best V) d = best (if 0 \<le> d then (\<lambda>c. c + d) ` V else {})"
proof (cases "V = {} \<or> d < 0")
  case True
  then show ?thesis by (auto simp: sumcheck_def best_def)
next
  case False
  then have "Max ((\<lambda>c. c + d) ` V) = Max V + d"
    using assms(1) by (intro mono_Max_commute [symmetric, of "\<lambda>c. c + d"]) (auto simp: mono_def)
  moreover have "0 \<le> Max V" using False assms(1,2) Max_in by blast
  ultimately show ?thesis using False by (auto simp: sumcheck_def best_def min_def)
qed

lemma sats_loop_snoc:
  "sats_loop (ts @ [t]) sats sz = sats_step (sats_loop ts sats sz) (sz + length ts) (fst t) (snd t)"
  by (induction ts arbitrary: sats sz) simp_all

lemma sats_step_length: "0 < sz \<Longrightarrow> sz < length sats \<Longrightarrow> length (sats_step sats sz a d) = length sats"
  by (simp add: sats_step_def)

lemma sats_step_nth:
  assumes "0 < sz" "sz < length sats" "j \<le> sz"
  shows "sats_step sats sz a d ! j =
    (if j = 0 then sumcheck (sats ! 0) d else if j < sz
     then maxcheck (sumcheck (sats ! j) d) (sumcheck (sats ! (j - 1)) a) else sumcheck (sats ! (sz - 1)) a)"
  using assms by (auto simp: sats_step_def nth_append nth_Cons')

lemma sats_loop_correct:
  assumes "\<forall>t \<in> set ts. -1 \<le> fst t \<and> -1 \<le> snd t" and "length ts \<le> MAX_N_IN_THRESH"
  shows "length (sats_loop ts sats_init 1) = MAX_N_IN_THRESH + 2 \<and>
    (\<forall>j \<le> length ts. sats_loop ts sats_init 1 ! j = best (choice_costs ts j))"
  using assms
proof (induction ts rule: rev_induct)
  case Nil
  then show ?case by (simp add: sats_init_def choice_costs_Nil best_def)
next
  case (snoc t ts)
  let ?s = "sats_loop ts sats_init 1" and ?n = "length ts"
  have IH: "length ?s = MAX_N_IN_THRESH + 2" "\<And>j. j \<le> ?n \<Longrightarrow> ?s ! j = best (choice_costs ts j)"
    using snoc by simp_all
  have t: "-1 \<le> fst t" "-1 \<le> snd t" using snoc.prems by simp_all
  have sz: "0 < 1 + ?n" "1 + ?n < length ?s" using snoc.prems IH(1) by (simp_all add: MAX_N_IN_THRESH_def)
  have shift: "sumcheck (best (choice_costs ts j)) d = best (if 0 \<le> d then (\<lambda>c. c + d) ` choice_costs ts j else {})"
    if "-1 \<le> d" for j d
    by (rule best_shift [OF choice_costs_finite _ that]) (rule choice_costs_nonneg)
  have "sats_step ?s (1 + ?n) (fst t) (snd t) ! j = best (choice_costs (ts @ [t]) j)" if j: "j \<le> Suc ?n" for j
  proof -
    consider "j = 0" | "0 < j" "j < Suc ?n" | "j = Suc ?n" using j by linarith
    then show ?thesis
    proof cases
      case 1
      then show ?thesis
        using sats_step_nth [OF sz, of 0] IH(2) [of 0] shift [OF t(2), of 0] by (simp add: choice_costs_snoc)
    next
      case 2
      then have "?s ! j = best (choice_costs ts j)" "?s ! (j - 1) = best (choice_costs ts (j - 1))"
        using IH(2) by simp_all
      moreover have "maxcheck
          (best (if 0 \<le> snd t then (\<lambda>c. c + snd t) ` choice_costs ts j else {}))
          (best (if 0 \<le> fst t then (\<lambda>c. c + fst t) ` choice_costs ts (j - 1) else {})) =
          best (choice_costs (ts @ [t]) j)"
        unfolding choice_costs_snoc using 2 choice_costs_finite choice_costs_nonneg
        by (subst best_union) (auto split: if_splits)
      ultimately show ?thesis
        using 2 sats_step_nth [OF sz, of j] shift [OF t(2), of j] shift [OF t(1), of "j - 1"] by simp
    next
      case 3
      then show ?thesis
        using sats_step_nth [OF sz, of j] IH(2) [of ?n] shift [OF t(1), of ?n] choice_costs_too_many [of ts j]
        by (simp add: choice_costs_snoc)
    qed
  qed
  then show ?case using IH(1) sats_step_length [OF sz] by (simp add: sats_loop_snoc)
qed



section \<open>Desugaring\<close>

text \<open>The properties of the shorthands are those of what they stand for: \<open>pk\<close> is \<open>c:pk_k\<close>,
  \<open>pkh\<close> is \<open>c:pk_h\<close>, \<open>t:X\<close> is \<open>and_v(X,1)\<close>, and \<open>l:X\<close> and \<open>u:X\<close> are \<open>or_i(0,X)\<close> and \<open>or_i(X,0)\<close> where \<open>X\<close>
  can be dissatisfied; \<open>and_n(X,Y)\<close> agrees with \<open>andor(X,Y,0)\<close> but for \<open>m\<close> and the cost in opcodes.\<close>

theorem shorthand_ext_info:
  assumes x: "-1 \<le> ops_sat (ext_ops x)" "-1 \<le> ops_dsat (ext_ops x)" "-1 \<le> ss_sat (ext_ss x)" "-1 \<le> ss_dsat (ext_ss x)"
      "ops_sat (ext_ops x) \<le> 32767" "ops_dsat (ext_ops x) \<le> 32767" "ss_sat (ext_ss x) \<le> 32767" "ss_dsat (ext_ss x) \<le> 32767"
  shows "ext_pk = ext_wrap_c ext_pk_k \<and> ext_pkh = ext_wrap_c ext_pk_h \<and> ext_wrap_t x = ext_and_v x ext_1 \<and>
    (0 \<le> ops_dsat (ext_ops x) \<longrightarrow> ext_wrap_l_u x = ext_or_i ext_0 x \<and> ext_wrap_l_u x = ext_or_i x ext_0) \<and>
    (let a = ext_and_n x y; b = ext_andor x y ext_0 in
       a\<lparr>ext_m := ext_m b, ext_ops := (ext_ops a)\<lparr>ops_sat := ops_sat (ext_ops b)\<rparr>\<rparr> = b)"
  using x
  by (cases x; cases "ext_ops x"; cases "ext_ss x")
    (auto simp: ext_pk_def ext_pkh_def ext_wrap_c_def ext_pk_k_def ext_pk_h_def ext_wrap_t_def ext_and_v_def ext_1_def
      ext_0_def ext_or_i_def ext_wrap_l_u_def ext_and_n_def ext_andor_def ext_init_def ext_copy_timelocks_def
      ext_join_timelocks_def mk_ops_def mk_ss_def timelock_mix_def sumcheck_def maxcheck_def Let_def)

theorem shorthand_ext_info_witness:
  "ext_wrap_t (ext_multi 2 3) = ext_and_v (ext_multi 2 3) ext_1 \<and>
   ext_wrap_l_u (ext_multi 2 3) = ext_or_i ext_0 (ext_multi 2 3)"
  using shorthand_ext_info [of "ext_multi 2 3" ext_0]
  by (simp add: ext_multi_def mk_ops_def mk_ss_def)

section \<open>Where the computed properties miss the mark\<close>


text \<open>The non-malleability flag of \<open>thresh\<close> does not depend on that of its children: \<open>count_m\<close> is
  computed and not used. \<open>and_v(v:pk(@0/**),thresh(1,or_b(dv:older(5),adv:older(6))))\<close> has all the
  properties of a sane script, although the only child of its \<open>thresh\<close> can be satisfied in two ways
  without a signature and is therefore malleable.\<close>

theorem thresh_ignores_malleable_child:
  "let t = ext_or_b (ext_wrap_d (ext_wrap_v (ext_older 5))) (ext_wrap_a (ext_wrap_d (ext_wrap_v (ext_older 6)))) in
   \<not> ext_m t \<and>
   (case ext_thresh (\<lambda>_. 0) 1 [t] of None \<Rightarrow> False
    | Some e \<Rightarrow> let w = ext_and_v (ext_wrap_v ext_pk) e in
        ext_m w \<and> ext_s w \<and> ext_k w \<and> ss_sat (ext_ss w) = 3 \<and> ops_sat (ext_ops w) = 0)"
  by code_simp


end
