(* ===== verification/Bitvector.thy ===== *)
theory Bitvector
  imports Prelude
begin

text \<open>
  Vectors of bits in an array of bytes (\<open>src/common/bitvector.h\<close>). Positions out of range of the
  array are undefined in the code, and outside the lemmas here.
\<close>

definition bitvector_get :: "bytes \<Rightarrow> nat \<Rightarrow> bool" where
  "bitvector_get vec i =
     (let byte_pos = i div 8; shift = 7 - i mod 8
      in (drop_bit shift (vec ! byte_pos)) AND 1 \<noteq> 0)"

definition bitvector_set :: "bytes \<Rightarrow> nat \<Rightarrow> bool \<Rightarrow> bytes" where
  "bitvector_set vec i v =
     (let byte_pos = i div 8; shift = 7 - i mod 8; mask = push_bit shift (1 :: u8)
      in if v then vec[byte_pos := vec ! byte_pos OR mask]
         else vec[byte_pos := vec ! byte_pos AND NOT mask])"

lemma and_one_bit: "(w :: 'a::len word) AND 1 \<noteq> 0 \<longleftrightarrow> bit w 0"
  by (simp add: and_one_eq odd_iff_mod_2_eq_one [symmetric] bit_0)

lemma bitvector_get_bit: "bitvector_get vec i = bit (vec ! (i div 8)) (7 - i mod 8)"
  by (simp add: bitvector_get_def Let_def and_one_bit bit_simps)

lemma shift_inj: "i div 8 = j div 8 \<Longrightarrow> 7 - i mod 8 = 7 - j mod 8 \<Longrightarrow> i = (j :: nat)"
proof -
  assume "i div 8 = j div 8" "7 - i mod 8 = 7 - j mod 8"
  moreover have "i mod 8 < 8" "j mod 8 < 8" by simp_all
  ultimately have "i mod 8 = j mod 8" by linarith
  then show ?thesis using \<open>i div 8 = j div 8\<close> by (metis div_mult_mod_eq)
qed

lemma bitvector_set_length [simp]: "length (bitvector_set vec i v) = length vec"
  by (simp add: bitvector_set_def Let_def)

lemma bit_mask:
  assumes "s < 8" "t < 8"
  shows "bit ((w :: u8) OR push_bit s 1) t \<longleftrightarrow> bit w t \<or> t = s"
    and "bit (w AND NOT (push_bit s 1)) t \<longleftrightarrow> bit w t \<and> t \<noteq> s"
  using assms by (auto simp: bit_or_iff bit_and_iff bit_not_iff bit_exp_iff possible_bit_word)

lemma bitvector_get_set:
  assumes "i < 8 * length vec" "j < 8 * length vec"
  shows "bitvector_get (bitvector_set vec i v) j = (if j = i then v else bitvector_get vec j)"
proof -
  define p q si sj where "p = i div 8" and "q = j div 8" and "si = 7 - i mod 8" and "sj = 7 - j mod 8"
  have len: "p < length vec" using assms by (auto simp: p_def)
  have s: "si < 8" "sj < 8" unfolding si_def sj_def by linarith+
  have inj: "p = q \<and> si = sj \<longleftrightarrow> j = i" using shift_inj [of i j] by (auto simp: p_def q_def si_def sj_def)
  have set_eq: "bitvector_set vec i v =
      vec[p := if v then vec ! p OR push_bit si 1 else vec ! p AND NOT (push_bit si 1)]"
    by (cases v) (simp_all only: bitvector_set_def Let_def p_def si_def if_True if_False)
  have get_eq: "bitvector_get ws j = bit (ws ! q) sj" for ws
    by (simp only: bitvector_get_bit q_def sj_def)
  show ?thesis
    unfolding set_eq get_eq using bit_mask [OF s, of "vec ! p"] len inj
    by (cases "p = q"; cases v; cases "si = sj") (simp_all del: push_bit_of_1)
qed

lemma bitvector_get_zero: "i < 8 * n \<Longrightarrow> \<not> bitvector_get (replicate n 0) i"
  by (simp add: bitvector_get_bit)

text \<open>C35: A bit that is set reads back, and no other bit of the vector changes.\<close>

theorem bitvector_set_get:
  assumes "i < 8 * length vec" and "j < 8 * length vec"
  shows "bitvector_get (bitvector_set vec i v) j = (if j = i then v else bitvector_get vec j) \<and>
    length (bitvector_set vec i v) = length vec"
  using assms by (simp add: bitvector_get_set)

theorem bitvector_set_get_witness:
  "bitvector_get (bitvector_set [0, 0xF0] 11 False) 11 = False \<and>
   bitvector_get (bitvector_set [0, 0xF0] 11 False) 10 = bitvector_get [0, 0xF0] 10"
proof -
  have h: "11 < 8 * length [0, 0xF0 :: u8]" "10 < 8 * length [0, 0xF0 :: u8]" by code_simp+
  show ?thesis using bitvector_set_get [OF h(1) h(1), of False] bitvector_set_get [OF h, of False] by simp
qed

end
