(* ===== verification/Policy_Script.thy ===== *)
theory Policy_Script
  imports Miniscript Bitvector Crypto_Taproot
begin

text \<open>
  The generation of scripts from a policy (\<open>src/handler/lib/policy.c\<close>): a machine with a stack of
  at most ten nodes that emits a script piece by piece into a hash context, driven by the tables
  of commands of the fragments, and \<open>get_wallet_script\<close>, which builds the output script of a
  policy from it.

  Deriving a public key needs the client; \<open>derive\<close> is that operation, with the state of the
  communication of type \<open>'d\<close> threaded through it. \<open>None\<close> is a negative return value. \<open>junk\<close> is the second byte of the array \<open>used\<close> in \<open>process_multi_a_sortedmulti_a_node\<close>, which
  the code does not initialise.
\<close>

section \<open>Tables of commands\<close>

datatype generic_processor_command =
    CMD_CODE_OP u8
  | CMD_CODE_OP_V u8
  | CMD_CODE_PUSH_PK
  | CMD_CODE_PUSH_PKH
  | CMD_CODE_PUSH_UINT32
  | CMD_CODE_PUSH_HASH20
  | CMD_CODE_PUSH_HASH32
  | CMD_CODE_PROCESS_CHILD nat
  | CMD_CODE_PROCESS_CHILD_V nat
  | CMD_CODE_PROCESS_CHILD_VV nat

definition commands_0 :: "generic_processor_command list" where
  "commands_0 = [CMD_CODE_OP_V OP_0]"

definition commands_1 :: "generic_processor_command list" where
  "commands_1 = [CMD_CODE_OP_V OP_1]"

definition commands_pk_k :: "generic_processor_command list" where
  "commands_pk_k = [CMD_CODE_PUSH_PK]"

definition commands_pk_h :: "generic_processor_command list" where
  "commands_pk_h = [CMD_CODE_OP OP_DUP, CMD_CODE_OP OP_HASH160, CMD_CODE_PUSH_PKH, CMD_CODE_OP OP_EQUALVERIFY]"

definition commands_pk :: "generic_processor_command list" where
  "commands_pk = [CMD_CODE_PUSH_PK, CMD_CODE_OP_V OP_CHECKSIG]"

definition commands_older :: "generic_processor_command list" where
  "commands_older = [CMD_CODE_PUSH_UINT32, CMD_CODE_OP_V OP_CSV]"

definition commands_after :: "generic_processor_command list" where
  "commands_after = [CMD_CODE_PUSH_UINT32, CMD_CODE_OP_V OP_CLTV]"

definition commands_sha256 :: "generic_processor_command list" where
  "commands_sha256 = [CMD_CODE_OP OP_SIZE, CMD_CODE_OP 1, CMD_CODE_OP 32, CMD_CODE_OP OP_EQUALVERIFY,
  CMD_CODE_OP OP_SHA256, CMD_CODE_PUSH_HASH32, CMD_CODE_OP_V OP_EQUAL]"

definition commands_hash256 :: "generic_processor_command list" where
  "commands_hash256 = [CMD_CODE_OP OP_SIZE, CMD_CODE_OP 1, CMD_CODE_OP 32, CMD_CODE_OP OP_EQUALVERIFY,
  CMD_CODE_OP OP_HASH256, CMD_CODE_PUSH_HASH32, CMD_CODE_OP_V OP_EQUAL]"

definition commands_ripemd160 :: "generic_processor_command list" where
  "commands_ripemd160 = [CMD_CODE_OP OP_SIZE, CMD_CODE_OP 1, CMD_CODE_OP 32, CMD_CODE_OP OP_EQUALVERIFY,
  CMD_CODE_OP OP_RIPEMD160, CMD_CODE_PUSH_HASH20, CMD_CODE_OP_V OP_EQUAL]"

definition commands_hash160 :: "generic_processor_command list" where
  "commands_hash160 = [CMD_CODE_OP OP_SIZE, CMD_CODE_OP 1, CMD_CODE_OP 32, CMD_CODE_OP OP_EQUALVERIFY,
  CMD_CODE_OP OP_HASH160, CMD_CODE_PUSH_HASH20, CMD_CODE_OP_V OP_EQUAL]"

definition commands_andor :: "generic_processor_command list" where
  "commands_andor = [CMD_CODE_PROCESS_CHILD 0, CMD_CODE_OP OP_NOTIF, CMD_CODE_PROCESS_CHILD 2, CMD_CODE_OP OP_ELSE,
  CMD_CODE_PROCESS_CHILD 1, CMD_CODE_OP_V OP_ENDIF]"

definition commands_and_v :: "generic_processor_command list" where
  "commands_and_v = [CMD_CODE_PROCESS_CHILD 0, CMD_CODE_PROCESS_CHILD_V 1]"

definition commands_and_b :: "generic_processor_command list" where
  "commands_and_b = [CMD_CODE_PROCESS_CHILD 0, CMD_CODE_PROCESS_CHILD 1, CMD_CODE_OP_V OP_BOOLAND]"

definition commands_and_n :: "generic_processor_command list" where
  "commands_and_n = [CMD_CODE_PROCESS_CHILD 0, CMD_CODE_OP OP_NOTIF, CMD_CODE_OP OP_0, CMD_CODE_OP OP_ELSE,
  CMD_CODE_PROCESS_CHILD 1, CMD_CODE_OP_V OP_ENDIF]"

definition commands_or_b :: "generic_processor_command list" where
  "commands_or_b = [CMD_CODE_PROCESS_CHILD 0, CMD_CODE_PROCESS_CHILD 1, CMD_CODE_OP_V OP_BOOLOR]"

definition commands_or_c :: "generic_processor_command list" where
  "commands_or_c = [CMD_CODE_PROCESS_CHILD 0, CMD_CODE_OP OP_NOTIF, CMD_CODE_PROCESS_CHILD 1, CMD_CODE_OP_V OP_ENDIF]"

definition commands_or_d :: "generic_processor_command list" where
  "commands_or_d = [CMD_CODE_PROCESS_CHILD 0, CMD_CODE_OP OP_IFDUP, CMD_CODE_OP OP_NOTIF, CMD_CODE_PROCESS_CHILD 1,
  CMD_CODE_OP_V OP_ENDIF]"

definition commands_or_i :: "generic_processor_command list" where
  "commands_or_i = [CMD_CODE_OP OP_IF, CMD_CODE_PROCESS_CHILD 0, CMD_CODE_OP OP_ELSE, CMD_CODE_PROCESS_CHILD 1,
  CMD_CODE_OP_V OP_ENDIF]"

definition commands_a :: "generic_processor_command list" where
  "commands_a = [CMD_CODE_OP OP_TOALTSTACK, CMD_CODE_PROCESS_CHILD 0, CMD_CODE_OP OP_FROMALTSTACK]"

definition commands_s :: "generic_processor_command list" where
  "commands_s = [CMD_CODE_OP OP_SWAP, CMD_CODE_PROCESS_CHILD 0]"

definition commands_c :: "generic_processor_command list" where
  "commands_c = [CMD_CODE_PROCESS_CHILD 0, CMD_CODE_OP_V OP_CHECKSIG]"

definition commands_t :: "generic_processor_command list" where
  "commands_t = [CMD_CODE_PROCESS_CHILD 0, CMD_CODE_OP_V OP_1]"

definition commands_d :: "generic_processor_command list" where
  "commands_d = [CMD_CODE_OP OP_DUP, CMD_CODE_OP OP_IF, CMD_CODE_PROCESS_CHILD 0, CMD_CODE_OP_V OP_ENDIF]"

definition commands_v :: "generic_processor_command list" where
  "commands_v = [CMD_CODE_PROCESS_CHILD_VV 0]"

definition commands_j :: "generic_processor_command list" where
  "commands_j = [CMD_CODE_OP OP_SIZE, CMD_CODE_OP OP_0NOTEQUAL, CMD_CODE_OP OP_IF, CMD_CODE_PROCESS_CHILD 0,
  CMD_CODE_OP_V OP_ENDIF]"

definition commands_n :: "generic_processor_command list" where
  "commands_n = [CMD_CODE_PROCESS_CHILD 0, CMD_CODE_OP_V OP_0NOTEQUAL]"

definition commands_l :: "generic_processor_command list" where
  "commands_l = [CMD_CODE_OP OP_IF, CMD_CODE_OP OP_0, CMD_CODE_OP OP_ELSE, CMD_CODE_PROCESS_CHILD 0, CMD_CODE_OP_V OP_ENDIF]"

definition commands_u :: "generic_processor_command list" where
  "commands_u = [CMD_CODE_OP OP_IF, CMD_CODE_PROCESS_CHILD 0, CMD_CODE_OP OP_ELSE, CMD_CODE_OP OP_0, CMD_CODE_OP_V OP_ENDIF]"

section \<open>State\<close>

record policy_parser_node_state =
  pn_node :: policy_node
  pn_length :: u16
  pn_step :: u8
  pn_flag_v :: bool

text \<open>
  The stack is a list with the current node first, so that \<open>node_stack_eos + 1\<close> is its length. The
  hash context is \<open>None\<close> where the code passes \<open>NULL\<close>.
\<close>

record 'd policy_parser_state =
  ps_dc :: 'd
  ps_is_taproot :: bool
  ps_nodes :: "policy_parser_node_state list"
  ps_hash_context :: "hash_context option"

type_synonym 'd derive_pubkey = "key_placeholder \<Rightarrow> 'd \<Rightarrow> (bytes \<times> 'd) option"

definition MAX_POLICY_DEPTH :: nat where
  "MAX_POLICY_DEPTH = 10"

definition state_stack_push :: "'d policy_parser_state \<Rightarrow> policy_node \<Rightarrow> bool \<Rightarrow> 'd policy_parser_state option" where
  "state_stack_push state policy_node flag_v =
     (if length (ps_nodes state) \<ge> MAX_POLICY_DEPTH then None
      else Some (state\<lparr>ps_nodes :=
        \<lparr>pn_node = policy_node, pn_length = 0, pn_step = 0, pn_flag_v = flag_v\<rparr> # ps_nodes state\<rparr>))"

fun add_length :: "u16 \<Rightarrow> policy_parser_node_state list \<Rightarrow> policy_parser_node_state list" where
  "add_length n [] = []"
| "add_length n (p # ps) = p\<lparr>pn_length := pn_length p + n\<rparr> # ps"

definition state_stack_pop :: "'d policy_parser_state \<Rightarrow> (u16 \<times> 'd policy_parser_state) option" where
  "state_stack_pop state =
     (case ps_nodes state of
        [] \<Rightarrow> None
      | node # rest \<Rightarrow> Some (pn_length node, state\<lparr>ps_nodes := add_length (pn_length node) rest\<rparr>))"

definition update_output :: "'d policy_parser_state \<Rightarrow> bytes \<Rightarrow> 'd policy_parser_state" where
  "update_output state data =
     state\<lparr>ps_nodes := add_length (of_nat (length data)) (ps_nodes state),
           ps_hash_context := map_option (\<lambda>ctx. crypto_hash_update ctx data) (ps_hash_context state)\<rparr>"

definition update_output_u8 :: "'d policy_parser_state \<Rightarrow> u8 \<Rightarrow> 'd policy_parser_state" where
  "update_output_u8 state data = update_output state [data]"

definition update_output_push_u32 :: "'d policy_parser_state \<Rightarrow> u32 \<Rightarrow> 'd policy_parser_state" where
  "update_output_push_u32 state n =
     (if n = 0 then update_output_u8 state OP_0
      else if n \<le> 16 then update_output_u8 state (0x50 + ucast n)
      else
        let n_le = write_u32_le (replicate 4 0) 0 n;
            byte_size = (if n \<le> 0x7f then 1 else if n \<le> 0x7fff then 2 else if n \<le> 0x7fffff then 3
                         else if n \<le> 0x7fffffff then 4 else (5 :: nat));
            state = update_output_u8 state (of_nat byte_size)
        in if byte_size < 5 then update_output state (take byte_size n_le)
           else update_output_u8 (update_output state n_le) 0)"

definition top_flag_v :: "'d policy_parser_state \<Rightarrow> bool" where
  "top_flag_v state = (case ps_nodes state of [] \<Rightarrow> False | node # _ \<Rightarrow> pn_flag_v node)"

definition update_output_op_v :: "'d policy_parser_state \<Rightarrow> u8 \<Rightarrow> 'd policy_parser_state" where
  "update_output_op_v state op =
     (if top_flag_v state then
        (if op = OP_CHECKSIG \<or> op = OP_CHECKMULTISIG \<or> op = OP_NUMEQUAL \<or> op = OP_EQUAL
         then update_output_u8 state (op + 1)
         else update_output_u8 (update_output_u8 state op) OP_VERIFY)
      else update_output_u8 state op)"

section \<open>Processors\<close>

text \<open>The parts of the current node that the commands read; \<open>None\<close> where the structure has no such part.\<close>

fun script_child :: "policy_node \<Rightarrow> nat \<Rightarrow> policy_node option" where
  "script_child (Node_with_script _ _ x) i = (if i = 0 then Some x else None)"
| "script_child (Node_with_script2 _ _ x y) i = (if i = 0 then Some x else if i = 1 then Some y else None)"
| "script_child (Node_with_script3 _ _ x y z) i =
     (if i = 0 then Some x else if i = 1 then Some y else if i = 2 then Some z else None)"
| "script_child _ i = None"

fun key_of_node :: "policy_node \<Rightarrow> key_placeholder option" where
  "key_of_node (Node_with_key _ _ kp) = Some kp"
| "key_of_node _ = None"

fun uint32_of_node :: "policy_node \<Rightarrow> u32 option" where
  "uint32_of_node (Node_with_uint32 _ _ n) = Some n"
| "uint32_of_node _ = None"

fun hash20_of_node :: "policy_node \<Rightarrow> bytes option" where
  "hash20_of_node (Node_with_hash_160 _ _ h) = Some h"
| "hash20_of_node _ = None"

fun hash32_of_node :: "policy_node \<Rightarrow> bytes option" where
  "hash32_of_node (Node_with_hash_256 _ _ h) = Some h"
| "hash32_of_node _ = None"

fun next_step :: "'d policy_parser_state \<Rightarrow> 'd policy_parser_state" where
  "next_step state = (case ps_nodes state of [] \<Rightarrow> state
     | node # rest \<Rightarrow> state\<lparr>ps_nodes := node\<lparr>pn_step := pn_step node + 1\<rparr> # rest\<rparr>)"

text \<open>A processor says whether the node is done; the step counter of the node is moved before a
  child is pushed on top of it.\<close>

type_synonym 'd processor = "'d policy_parser_state \<Rightarrow> (bool \<times> 'd policy_parser_state) option"

definition process_command :: "'d derive_pubkey \<Rightarrow> hash_fns \<Rightarrow> policy_parser_node_state \<Rightarrow>
    generic_processor_command \<Rightarrow> 'd policy_parser_state \<Rightarrow> 'd policy_parser_state option" where
  "process_command derive hf node cmd state =
     (case cmd of
        CMD_CODE_OP op \<Rightarrow> Some (next_step (update_output_u8 state op))
      | CMD_CODE_OP_V op \<Rightarrow> Some (next_step (update_output_op_v state op))
      | CMD_CODE_PUSH_PK \<Rightarrow> do {
          kp \<leftarrow> key_of_node (pn_node node);
          (compressed_pubkey, dc) \<leftarrow> derive kp (ps_dc state);
          let state = state\<lparr>ps_dc := dc\<rparr>;
          Some (next_step
            (if \<not> ps_is_taproot state
             then update_output (update_output_u8 state 33) (take 33 compressed_pubkey)
             else update_output (update_output_u8 state 32) (take 32 (drop 1 compressed_pubkey)))) }
      | CMD_CODE_PUSH_PKH \<Rightarrow> do {
          kp \<leftarrow> key_of_node (pn_node node);
          (compressed_pubkey, dc) \<leftarrow> derive kp (ps_dc state);
          Some (next_step (update_output (update_output_u8 (state\<lparr>ps_dc := dc\<rparr>) 20) (crypto_hash160 hf compressed_pubkey))) }
      | CMD_CODE_PUSH_UINT32 \<Rightarrow> do {
          n \<leftarrow> uint32_of_node (pn_node node);
          Some (next_step (update_output_push_u32 state n)) }
      | CMD_CODE_PUSH_HASH20 \<Rightarrow> do {
          h \<leftarrow> hash20_of_node (pn_node node);
          Some (next_step (update_output (update_output_u8 state 20) h)) }
      | CMD_CODE_PUSH_HASH32 \<Rightarrow> do {
          h \<leftarrow> hash32_of_node (pn_node node);
          Some (next_step (update_output (update_output_u8 state 32) h)) }
      | CMD_CODE_PROCESS_CHILD i \<Rightarrow> do {
          x \<leftarrow> script_child (pn_node node) i;
          state_stack_push (next_step state) x False }
      | CMD_CODE_PROCESS_CHILD_V i \<Rightarrow> do {
          x \<leftarrow> script_child (pn_node node) i;
          state_stack_push (next_step state) x (pn_flag_v node) }
      | CMD_CODE_PROCESS_CHILD_VV i \<Rightarrow> do {
          x \<leftarrow> script_child (pn_node node) i;
          state_stack_push (next_step state) x True })"

definition process_generic_node :: "'d derive_pubkey \<Rightarrow> hash_fns \<Rightarrow> generic_processor_command list \<Rightarrow> 'd processor" where
  "process_generic_node derive hf commands state =
     (case ps_nodes state of
        [] \<Rightarrow> None
      | node # _ \<Rightarrow>
          if unat (pn_step node) > length commands then None
          else if unat (pn_step node) = length commands then Some (True, state)
          else map_option (Pair False) (process_command derive hf node (commands ! unat (pn_step node)) state))"

definition process_pkh_wpkh_node :: "'d derive_pubkey \<Rightarrow> hash_fns \<Rightarrow> 'd processor" where
  "process_pkh_wpkh_node derive hf state =
     (case ps_nodes state of
        [] \<Rightarrow> None
      | node # _ \<Rightarrow> do {
          guard (pn_step node = 0);
          kp \<leftarrow> key_of_node (pn_node node);
          (compressed_pubkey, dc) \<leftarrow> derive kp (ps_dc state);
          let state = state\<lparr>ps_dc := dc\<rparr>;
          if node_type (pn_node node) = TOKEN_PKH then
            let state = update_output_u8 (update_output_u8 (update_output_u8 state OP_DUP) OP_HASH160) 20;
                state = update_output state (crypto_hash160 hf compressed_pubkey)
            in Some (True, update_output_op_v (update_output_u8 state OP_EQUALVERIFY) OP_CHECKSIG)
          else
            let state = update_output_u8 (update_output_u8 state OP_0) 20
            in Some (True, update_output state (crypto_hash160 hf compressed_pubkey))
        })"

definition process_thresh_node :: "'d processor" where
  "process_thresh_node state =
     (case ps_nodes state of
        [] \<Rightarrow> None
      | node # _ \<Rightarrow>
          (case pn_node node of
             Node_thresh _ _ k scripts \<Rightarrow>
               if unat (pn_step node) < length scripts then do {
                 let state' = (if pn_step node > 1 then update_output_u8 state OP_ADD else state);
                 state' \<leftarrow> state_stack_push (next_step state') (scripts ! unat (pn_step node)) False;
                 Some (False, state')
               } else
                 let state' = (if length scripts \<ge> 2 then update_output_u8 state OP_ADD else state)
                 in Some (True, update_output_op_v (update_output_push_u32 state' (of_nat k)) OP_EQUAL)
           | _ \<Rightarrow> None))"

text \<open>
  \<open>cmp_arrays\<close> for the first \<open>length\<close> bytes, as the sign of the difference. The search for the
  smallest key that is not used, which starts from the largest value and derives every unused key;
  \<open>skip\<close> is the number of leading bytes the comparison ignores.
\<close>

fun cmp_arrays :: "bytes \<Rightarrow> bytes \<Rightarrow> nat \<Rightarrow> int" where
  "cmp_arrays (x # xs) (y # ys) (Suc n) =
     (let diff = uint x - uint y in if diff \<noteq> 0 then diff else cmp_arrays xs ys n)"
| "cmp_arrays _ _ _ = 0"

primrec smallest_unused :: "'d derive_pubkey \<Rightarrow> nat \<Rightarrow> bytes \<Rightarrow> key_placeholder list \<Rightarrow> nat \<Rightarrow>
    bytes \<times> nat option \<Rightarrow> 'd \<Rightarrow> ((bytes \<times> nat option) \<times> 'd) option" where
  "smallest_unused derive skip used [] j acc dc = Some (acc, dc)"
| "smallest_unused derive skip used (kp # kps) j acc dc =
     (if \<not> bitvector_get used j then do {
        (cur_pubkey, dc) \<leftarrow> derive kp dc;
        smallest_unused derive skip used kps (Suc j)
          (if cmp_arrays (drop skip (fst acc)) (drop skip cur_pubkey) (33 - skip) > 0 then (cur_pubkey, Some j) else acc) dc
      } else smallest_unused derive skip used kps (Suc j) acc dc)"

text \<open>Where no unused key is smaller than the largest value, which no public key is, the index stays
  -1 and the code sets a bit outside the array: the model stops there.\<close>

definition next_sorted_key :: "'d derive_pubkey \<Rightarrow> nat \<Rightarrow> key_placeholder list \<Rightarrow> bytes \<Rightarrow> 'd \<Rightarrow> (bytes \<times> bytes \<times> 'd) option" where
  "next_sorted_key derive skip kps used dc = do {
     ((compressed_pubkey, smallest), dc) \<leftarrow> smallest_unused derive skip used kps 0 (replicate 33 0xFF, None) dc;
     i \<leftarrow> smallest;
     Some (compressed_pubkey, bitvector_set used i True, dc)
   }"

text \<open>The loop over the keys: \<open>emit i key\<close> is the output for the \<open>i\<close>-th key.\<close>

primrec multi_keys_loop :: "'d derive_pubkey \<Rightarrow> bool \<Rightarrow> nat \<Rightarrow> (nat \<Rightarrow> bytes \<Rightarrow> 'd policy_parser_state \<Rightarrow> 'd policy_parser_state) \<Rightarrow>
    key_placeholder list \<Rightarrow> nat \<Rightarrow> nat \<Rightarrow> bytes \<Rightarrow> 'd policy_parser_state \<Rightarrow> 'd policy_parser_state option" where
  "multi_keys_loop derive srt skip emit kps 0 i used state = Some state"
| "multi_keys_loop derive srt skip emit kps (Suc n) i used state = do {
     (compressed_pubkey, used, dc) \<leftarrow>
       (if \<not> srt then map_option (\<lambda>(pk, dc). (pk, used, dc)) (derive (kps ! i) (ps_dc state))
        else next_sorted_key derive skip kps used (ps_dc state));
     multi_keys_loop derive srt skip emit kps n (Suc i) used (emit i compressed_pubkey (state\<lparr>ps_dc := dc\<rparr>))
   }"

definition emit_multi_key :: "nat \<Rightarrow> bytes \<Rightarrow> 'd policy_parser_state \<Rightarrow> 'd policy_parser_state" where
  "emit_multi_key i key state = update_output (update_output_u8 state 0x21) (take 33 key)"

definition process_multi_sortedmulti_node :: "'d derive_pubkey \<Rightarrow> 'd processor" where
  "process_multi_sortedmulti_node derive state =
     (case ps_nodes state of
        [] \<Rightarrow> None
      | node # _ \<Rightarrow>
          (case pn_node node of
             Node_multisig t _ k kps \<Rightarrow>
               if length kps > 16 then None
               else do {
                 state \<leftarrow> multi_keys_loop derive (t \<noteq> TOKEN_MULTI) 0 emit_multi_key kps (length kps) 0 [0, 0]
                            (update_output_u8 state (0x50 + of_nat k));
                 Some (True, update_output_op_v (update_output_u8 state (0x50 + of_nat (length kps))) OP_CHECKMULTISIG)
               }
           | _ \<Rightarrow> None))"

definition emit_multi_a_key :: "nat \<Rightarrow> bytes \<Rightarrow> 'd policy_parser_state \<Rightarrow> 'd policy_parser_state" where
  "emit_multi_a_key i key state =
     update_output_u8 (update_output (update_output_u8 state 0x20) (take 32 (drop 1 key)))
       (if i = 0 then OP_CHECKSIG else OP_CHECKSIGADD)"

definition process_multi_a_sortedmulti_a_node :: "'d derive_pubkey \<Rightarrow> u8 \<Rightarrow> 'd processor" where
  "process_multi_a_sortedmulti_a_node derive junk state =
     (case ps_nodes state of
        [] \<Rightarrow> None
      | node # _ \<Rightarrow>
          (case pn_node node of
             Node_multisig t _ k kps \<Rightarrow>
               if k > 16 then None
               else do {
                 state \<leftarrow> multi_keys_loop derive (t \<noteq> TOKEN_MULTI_A) 1 emit_multi_a_key kps (length kps) 0 [0, junk] state;
                 Some (True, update_output_op_v (update_output_u8 state (0x50 + of_nat k)) OP_NUMEQUAL)
               }
           | _ \<Rightarrow> None))"

section \<open>The machine\<close>

definition execute_processor :: "'d processor \<Rightarrow> 'd policy_parser_state \<Rightarrow> (u16 \<times> 'd policy_parser_state) option" where
  "execute_processor proc state = do {
     (done, state) \<leftarrow> proc state;
     if done then state_stack_pop state else Some (0, state)
   }"

datatype internal_script_type_e =
    WRAPPED_SCRIPT_TYPE_SH
  | WRAPPED_SCRIPT_TYPE_WSH
  | WRAPPED_SCRIPT_TYPE_SH_WSH
  | WRAPPED_SCRIPT_TYPE_TAPSCRIPT

definition fragment_whitelist_sh :: "PolicyNodeType list" where
  "fragment_whitelist_sh = [TOKEN_WPKH, TOKEN_MULTI, TOKEN_SORTEDMULTI]"

definition fragment_whitelist_sh_wsh :: "PolicyNodeType list" where
  "fragment_whitelist_sh_wsh = [TOKEN_MULTI, TOKEN_SORTEDMULTI]"

definition fragment_whitelist_wsh :: "PolicyNodeType list" where
  "fragment_whitelist_wsh = [TOKEN_0, TOKEN_1, TOKEN_PK, TOKEN_PKH, TOKEN_PK_K, TOKEN_PK_H, TOKEN_OLDER, TOKEN_AFTER,
   TOKEN_SHA256, TOKEN_HASH256, TOKEN_RIPEMD160, TOKEN_HASH160, TOKEN_ANDOR, TOKEN_AND_V,
   TOKEN_AND_B, TOKEN_AND_N, TOKEN_MULTI, TOKEN_OR_B, TOKEN_OR_C, TOKEN_OR_D, TOKEN_OR_I,
   TOKEN_SORTEDMULTI, TOKEN_THRESH,
   TOKEN_A, TOKEN_S, TOKEN_C, TOKEN_T, TOKEN_D, TOKEN_V, TOKEN_J, TOKEN_N, TOKEN_L, TOKEN_U]"

definition fragment_whitelist_tapscript :: "PolicyNodeType list" where
  "fragment_whitelist_tapscript = [TOKEN_PK, TOKEN_MULTI_A, TOKEN_SORTEDMULTI_A]"

primrec fragment_whitelist :: "internal_script_type_e \<Rightarrow> PolicyNodeType list" where
  "fragment_whitelist WRAPPED_SCRIPT_TYPE_SH = fragment_whitelist_sh"
| "fragment_whitelist WRAPPED_SCRIPT_TYPE_WSH = fragment_whitelist_wsh"
| "fragment_whitelist WRAPPED_SCRIPT_TYPE_SH_WSH = fragment_whitelist_sh_wsh"
| "fragment_whitelist WRAPPED_SCRIPT_TYPE_TAPSCRIPT = fragment_whitelist_tapscript"

definition process_node :: "'d derive_pubkey \<Rightarrow> hash_fns \<Rightarrow> u8 \<Rightarrow> PolicyNodeType \<Rightarrow> 'd processor" where
  "process_node derive hf junk t =
     (case t of
        TOKEN_0 \<Rightarrow> process_generic_node derive hf commands_0
      | TOKEN_1 \<Rightarrow> process_generic_node derive hf commands_1
      | TOKEN_PK_K \<Rightarrow> process_generic_node derive hf commands_pk_k
      | TOKEN_PK_H \<Rightarrow> process_generic_node derive hf commands_pk_h
      | TOKEN_PK \<Rightarrow> process_generic_node derive hf commands_pk
      | TOKEN_PKH \<Rightarrow> process_pkh_wpkh_node derive hf
      | TOKEN_WPKH \<Rightarrow> process_pkh_wpkh_node derive hf
      | TOKEN_OLDER \<Rightarrow> process_generic_node derive hf commands_older
      | TOKEN_AFTER \<Rightarrow> process_generic_node derive hf commands_after
      | TOKEN_SHA256 \<Rightarrow> process_generic_node derive hf commands_sha256
      | TOKEN_HASH256 \<Rightarrow> process_generic_node derive hf commands_hash256
      | TOKEN_RIPEMD160 \<Rightarrow> process_generic_node derive hf commands_ripemd160
      | TOKEN_HASH160 \<Rightarrow> process_generic_node derive hf commands_hash160
      | TOKEN_ANDOR \<Rightarrow> process_generic_node derive hf commands_andor
      | TOKEN_AND_V \<Rightarrow> process_generic_node derive hf commands_and_v
      | TOKEN_AND_B \<Rightarrow> process_generic_node derive hf commands_and_b
      | TOKEN_AND_N \<Rightarrow> process_generic_node derive hf commands_and_n
      | TOKEN_OR_B \<Rightarrow> process_generic_node derive hf commands_or_b
      | TOKEN_OR_C \<Rightarrow> process_generic_node derive hf commands_or_c
      | TOKEN_OR_D \<Rightarrow> process_generic_node derive hf commands_or_d
      | TOKEN_OR_I \<Rightarrow> process_generic_node derive hf commands_or_i
      | TOKEN_THRESH \<Rightarrow> process_thresh_node
      | TOKEN_MULTI \<Rightarrow> process_multi_sortedmulti_node derive
      | TOKEN_SORTEDMULTI \<Rightarrow> process_multi_sortedmulti_node derive
      | TOKEN_MULTI_A \<Rightarrow> process_multi_a_sortedmulti_a_node derive junk
      | TOKEN_SORTEDMULTI_A \<Rightarrow> process_multi_a_sortedmulti_a_node derive junk
      | TOKEN_A \<Rightarrow> process_generic_node derive hf commands_a
      | TOKEN_S \<Rightarrow> process_generic_node derive hf commands_s
      | TOKEN_C \<Rightarrow> process_generic_node derive hf commands_c
      | TOKEN_T \<Rightarrow> process_generic_node derive hf commands_t
      | TOKEN_D \<Rightarrow> process_generic_node derive hf commands_d
      | TOKEN_V \<Rightarrow> process_generic_node derive hf commands_v
      | TOKEN_J \<Rightarrow> process_generic_node derive hf commands_j
      | TOKEN_N \<Rightarrow> process_generic_node derive hf commands_n
      | TOKEN_L \<Rightarrow> process_generic_node derive hf commands_l
      | TOKEN_U \<Rightarrow> process_generic_node derive hf commands_u
      | _ \<Rightarrow> (\<lambda>state. None))"

text \<open>One iteration of the loop of \<open>get_wallet_internal_script_hash\<close>.\<close>

definition policy_step :: "'d derive_pubkey \<Rightarrow> hash_fns \<Rightarrow> u8 \<Rightarrow> PolicyNodeType list \<Rightarrow> 'd policy_parser_state \<Rightarrow>
    (u16 \<times> 'd policy_parser_state) option" where
  "policy_step derive hf junk whitelist state =
     (case ps_nodes state of
        [] \<Rightarrow> None
      | node # _ \<Rightarrow>
          let t = node_type (pn_node node)
          in if t \<in> set whitelist then execute_processor (process_node derive hf junk t) state else None)"

text \<open>
  The loop. The step counter of a node has eight bits, so nothing bounds the number of iterations on
  an arbitrary policy: \<open>None\<close> is a loop that does not end, \<open>Some None\<close> an error.
\<close>

partial_function (option) policy_loop :: "'d derive_pubkey \<Rightarrow> hash_fns \<Rightarrow> u8 \<Rightarrow> PolicyNodeType list \<Rightarrow> 'd policy_parser_state \<Rightarrow>
    (u16 \<times> 'd policy_parser_state) option option" where
  [code]: "policy_loop derive hf junk whitelist state =
     (case policy_step derive hf junk whitelist state of
        None \<Rightarrow> Some None
      | Some (ret, state) \<Rightarrow>
          if ps_nodes state \<noteq> [] then policy_loop derive hf junk whitelist state else Some (Some (ret, state)))"

definition get_wallet_internal_script_hash :: "'d derive_pubkey \<Rightarrow> hash_fns \<Rightarrow> u8 \<Rightarrow> policy_node \<Rightarrow> internal_script_type_e \<Rightarrow>
    hash_context option \<Rightarrow> 'd \<Rightarrow> (u16 \<times> hash_context option \<times> 'd) option option" where
  "get_wallet_internal_script_hash derive hf junk policy script_type hash_context dc =
     map_option (map_option (\<lambda>(ret, state). (ret, ps_hash_context state, ps_dc state)))
       (policy_loop derive hf junk (fragment_whitelist script_type)
         \<lparr>ps_dc = dc, ps_is_taproot = (script_type = WRAPPED_SCRIPT_TYPE_TAPSCRIPT),
          ps_nodes = [\<lparr>pn_node = policy, pn_length = 0, pn_step = 0, pn_flag_v = False\<rparr>],
          ps_hash_context = hash_context\<rparr>)"

section \<open>Output scripts\<close>

text \<open>Sequencing where the outer \<open>None\<close> is divergence and the inner one an error.\<close>

definition andthen :: "'a option option \<Rightarrow> ('a \<Rightarrow> 'b option option) \<Rightarrow> 'b option option" where
  "andthen m f = (case m of None \<Rightarrow> None | Some None \<Rightarrow> Some None | Some (Some x) \<Rightarrow> f x)"

definition compute_tapleaf_hash :: "'d derive_pubkey \<Rightarrow> hash_fns \<Rightarrow> u8 \<Rightarrow> policy_node \<Rightarrow> 'd \<Rightarrow> (bytes \<times> 'd) option option" where
  "compute_tapleaf_hash derive hf junk script_policy dc =
     (let ctx = crypto_tr_tapleaf_hash_init (cx_hash_sha256 hf)
      in andthen (get_wallet_internal_script_hash derive hf junk script_policy WRAPPED_SCRIPT_TYPE_TAPSCRIPT None dc)
           (\<lambda>(tapscript_len, _, dc).
             let ctx = crypto_hash_update_u8 ctx 0xC0;
                 ctx = crypto_hash_update_varint ctx (ucast tapscript_len)
             in andthen (get_wallet_internal_script_hash derive hf junk script_policy WRAPPED_SCRIPT_TYPE_TAPSCRIPT (Some ctx) dc)
                  (\<lambda>(_, ctx, dc). Some (Some (crypto_hash_digest (cx_hash_sha256 hf) (the ctx), dc)))))"

primrec compute_taptree_hash :: "'d derive_pubkey \<Rightarrow> hash_fns \<Rightarrow> u8 \<Rightarrow> policy_tree \<Rightarrow> 'd \<Rightarrow> (bytes \<times> 'd) option option" where
  "compute_taptree_hash derive hf junk (Tree_leaf script) dc = compute_tapleaf_hash derive hf junk script dc"
| "compute_taptree_hash derive hf junk (Tree_branch left_tree right_tree) dc =
     andthen (compute_taptree_hash derive hf junk left_tree dc) (\<lambda>(left_h, dc).
     andthen (compute_taptree_hash derive hf junk right_tree dc) (\<lambda>(right_h, dc).
       Some (Some (crypto_tr_combine_taptree_hashes (cx_hash_sha256 hf) left_h right_h, dc))))"

definition put :: "bytes \<Rightarrow> nat \<Rightarrow> bytes \<Rightarrow> bytes" where
  "put out i bs = take i out @ bs @ drop (i + length bs) out"

fun wsh_child :: "policy_node \<Rightarrow> policy_node option" where
  "wsh_child (Node_with_script t _ x) = (if t = TOKEN_WSH then Some x else None)"
| "wsh_child _ = None"

fun core_policy :: "policy_node \<Rightarrow> (internal_script_type_e \<times> policy_node) option" where
  "core_policy (Node_with_script t _ child) =
     (if t = TOKEN_SH then
        (case wsh_child child of
           Some x \<Rightarrow> Some (WRAPPED_SCRIPT_TYPE_SH_WSH, x)
         | None \<Rightarrow> Some (WRAPPED_SCRIPT_TYPE_SH, child))
      else if t = TOKEN_WSH then Some (WRAPPED_SCRIPT_TYPE_WSH, child)
      else None)"
| "core_policy _ = None"

definition get_wallet_script :: "cx_ops \<Rightarrow> 'd derive_pubkey \<Rightarrow> hash_fns \<Rightarrow> u8 \<Rightarrow> policy_node \<Rightarrow> bytes \<Rightarrow> 'd \<Rightarrow>
    (nat \<times> bytes \<times> 'd) option option" where
  "get_wallet_script cx derive hf junk policy out dc =
     (case policy of
        Node_with_key t _ kp \<Rightarrow>
          if t = TOKEN_PKH then
            Some (do { (compressed_pubkey, dc) \<leftarrow> derive kp dc;
              Some (25, put out 0 ([OP_DUP, OP_HASH160, 20] @ crypto_hash160 hf compressed_pubkey @ [OP_EQUALVERIFY, OP_CHECKSIG]), dc) })
          else if t = TOKEN_WPKH then
            Some (do { (compressed_pubkey, dc) \<leftarrow> derive kp dc;
              Some (22, put out 0 ([OP_0, 20] @ crypto_hash160 hf compressed_pubkey), dc) })
          else Some None
      | Node_with_script _ _ _ \<Rightarrow>
          (case core_policy policy of
             None \<Rightarrow> Some None
           | Some (script_type, core) \<Rightarrow>
               andthen (get_wallet_internal_script_hash derive hf junk core script_type (Some []) dc) (\<lambda>(_, ctx, dc).
                 let script_hash = crypto_hash_digest (cx_hash_sha256 hf) (the ctx);
                     script_hash = (if script_type = WRAPPED_SCRIPT_TYPE_SH_WSH
                       then crypto_hash_digest (cx_hash_sha256 hf)
                              (crypto_hash_update (crypto_hash_update_u8 (crypto_hash_update_u8 [] OP_0) 32) script_hash)
                       else script_hash)
                 in if script_type = WRAPPED_SCRIPT_TYPE_WSH
                    then Some (Some (34, put out 0 ([OP_0, 32] @ script_hash), dc))
                    else Some (Some (23, put out 0 ([OP_HASH160, 20] @ crypto_ripemd160 hf script_hash @ [OP_EQUAL]), dc))))
      | Node_tr t _ kp tree \<Rightarrow>
          if t \<noteq> TOKEN_TR then Some None else
          (case derive kp dc of
             None \<Rightarrow> Some None
           | Some (compressed_pubkey, dc) \<Rightarrow>
               let out = put out 0 [OP_1, 32];
                   tweak = (\<lambda>h out dc. Some (Some (34,
                     (case crypto_tr_tweak_pubkey cx (cx_hash_sha256 hf) (take 32 (drop 1 compressed_pubkey)) h of
                        None \<Rightarrow> out
                      | Some (parity, key) \<Rightarrow> put out 2 key), dc)))
               in (case tree of
                     None \<Rightarrow> tweak [] out dc
                   | Some tree \<Rightarrow> andthen (compute_taptree_hash derive hf junk tree dc) (\<lambda>(h, dc). tweak h (put out 2 h) dc)))
      | _ \<Rightarrow> Some None)"

end
