(* ===== verification/Merkle.thy ===== *)
theory Merkle
  imports Crypto_Hash
begin

text \<open>
  Merkle trees (\<open>src/common/merkle.c\<close>, \<open>src/common/merkle.h\<close>): the hashes of leaves and inner
  nodes and the directions on the path to a leaf, with a tree hash as the specification of what
  the directions mean.
\<close>

section \<open>Model\<close>

definition merkle_compute_element_hash :: "(bytes \<Rightarrow> bytes) \<Rightarrow> bytes \<Rightarrow> bytes" where
  "merkle_compute_element_hash sha256 inp =
     crypto_hash_digest sha256 (crypto_hash_update (crypto_hash_update_u8 [] 0x00) inp)"

definition merkle_combine_hashes :: "(bytes \<Rightarrow> bytes) \<Rightarrow> bytes \<Rightarrow> bytes \<Rightarrow> bytes" where
  "merkle_combine_hashes sha256 left right =
     crypto_hash_digest sha256 (crypto_hash_update (crypto_hash_update (crypto_hash_update [] [0x01]) left) right)"

text \<open>
  \<open>t\<close> has 32 bits and wraps around to 0, so the loop of \<open>ceil_lg\<close> need not end. \<open>None\<close> is a loop
  that does not end.
\<close>

partial_function (option) ceil_lg_loop :: "u32 \<Rightarrow> u8 \<Rightarrow> u32 \<Rightarrow> u8 option" where
  [code]: "ceil_lg_loop n r t = (if t < n then ceil_lg_loop n (r + 1) (2 * t) else Some r)"

definition ceil_lg :: "u32 \<Rightarrow> u8 option" where
  "ceil_lg n = ceil_lg_loop n 0 1"

partial_function (option) ith_direction_loop :: "size_t \<Rightarrow> size_t \<Rightarrow> size_t \<Rightarrow> u8 \<Rightarrow> int option" where
  [code]: "ith_direction_loop sz index i n_directions =
     (if sz > 1 then do {
        depth \<leftarrow> ceil_lg sz;
        let mask = (push_bit (unat (depth - 1)) 1 :: u32);
        let is_right_child = index AND mask \<noteq> 0;
        if ucast n_directions = i then Some (if is_right_child then 1 else 0)
        else if is_right_child then ith_direction_loop (sz - mask) (index - mask) i (n_directions + 1)
        else ith_direction_loop mask index i (n_directions + 1)
      } else Some (- 1))"

definition merkle_get_ith_direction :: "size_t \<Rightarrow> size_t \<Rightarrow> size_t \<Rightarrow> int option" where
  "merkle_get_ith_direction sz index i =
     (if sz \<le> 1 \<or> index \<ge> sz then Some (- 1) else ith_direction_loop sz index i 0)"

record merkleized_map_commitment =
  map_size :: u64
  keys_root :: bytes
  values_root :: bytes

section \<open>The tree\<close>

fun clog :: "nat \<Rightarrow> nat" where
  "clog n = (if n \<le> 1 then 0 else Suc (clog ((n + 1) div 2)))"

declare clog.simps [simp del]

text \<open>The number of leaves of the left subtree: the largest power of two below the size.\<close>

definition split_point :: "nat \<Rightarrow> nat" where
  "split_point n = 2 ^ (clog n - 1)"

lemma clog_half: "1 < n \<Longrightarrow> clog n = Suc (clog ((n + 1) div 2))"
  by (simp add: clog.simps [of n])

lemma clog_le: "n \<le> 2 ^ clog n"
proof (induction n rule: less_induct)
  case (less n)
  show ?case
  proof (cases "1 < n")
    case True
    then have "(n + 1) div 2 \<le> 2 ^ clog ((n + 1) div 2)" using less by simp
    then show ?thesis using True by (simp add: clog_half)
  qed (simp add: clog.simps [of n])
qed

lemma clog_less: "1 < n \<Longrightarrow> 2 ^ (clog n - 1) < n"
proof (induction n rule: less_induct)
  case (less n)
  let ?h = "(n + 1) div 2"
  have c: "clog n = Suc (clog ?h)" using less.prems by (rule clog_half)
  show ?case
  proof (cases "n = 2")
    case False
    then have h: "1 < ?h" "?h < n" using less.prems by auto
    then have "2 ^ (clog ?h - 1) < ?h" by (intro less.IH)
    then have "2 * 2 ^ (clog ?h - 1) < n" by linarith
    moreover have "clog ?h \<noteq> 0" using clog_half [OF h(1)] by simp
    ultimately show ?thesis using c by (cases "clog ?h") simp_all
  qed (simp add: clog.simps)
qed

lemmas clog_bounds = clog_le clog_less

lemma split_point_bounds:
  assumes "1 < n"
  shows "0 < split_point n" "split_point n < n" "n \<le> 2 * split_point n"
proof -
  have "2 * 2 ^ (clog n - 1) = (2 :: nat) ^ clog n"
    using clog_half [OF assms] by simp
  then show "0 < split_point n" "split_point n < n" "n \<le> 2 * split_point n"
    using clog_le [of n] clog_less [OF assms] by (simp_all add: split_point_def)
qed

function merkle_dirs :: "nat \<Rightarrow> nat \<Rightarrow> bool list" where
  "merkle_dirs n i =
     (if n \<le> 1 then []
      else if i < split_point n then False # merkle_dirs (split_point n) i
      else True # merkle_dirs (n - split_point n) (i - split_point n))"
  by pat_completeness auto

termination
  by (relation "measure fst") (auto simp: split_point_bounds)

declare merkle_dirs.simps [simp del]

section \<open>Directions\<close>

lemma unat_pow2: "k < 32 \<Longrightarrow> unat (2 ^ k :: u32) = 2 ^ k"
proof -
  assume k: "k < 32"
  have "unat (of_nat (2 ^ k) :: u32) = 2 ^ k mod 2 ^ 32"
    by (simp only: unat_of_nat) simp
  also have "\<dots> = 2 ^ k"
    using k by (intro mod_less power_strict_increasing) simp_all
  finally show ?thesis by simp
qed

lemma ceil_lg_loop_value:
  assumes "k + d \<le> 31" "unat n \<le> 2 ^ (k + d)" "d = 0 \<or> 2 ^ (k + d - 1) < unat n"
  shows "ceil_lg_loop n r (2 ^ k) = Some (r + of_nat d)"
  using assms
proof (induction d arbitrary: k r)
  case 0
  then show ?case
    by (subst ceil_lg_loop.simps) (simp add: word_less_nat_alt unat_pow2)
next
  case (Suc d)
  have "2 ^ k \<le> (2 :: nat) ^ (k + d)" by (rule power_increasing) simp_all
  then have "2 ^ k < unat n" using Suc.prems(3) by (simp del: power_increasing_iff)
  then have "(2 :: u32) ^ k < n"
    using Suc.prems(1) by (simp add: word_less_nat_alt unat_pow2)
  moreover have "ceil_lg_loop n (r + 1) (2 ^ Suc k) = Some (r + 1 + of_nat d)"
    using Suc.prems by (intro Suc.IH) auto
  ultimately show ?case
    by (subst ceil_lg_loop.simps) (simp add: algebra_simps)
qed

lemma ceil_lg_value:
  assumes "unat n \<le> 2 ^ 31"
  shows "ceil_lg n = Some (of_nat (clog (unat n)))" "clog (unat n) \<le> 31"
proof -
  show "clog (unat n) \<le> 31"
  proof (cases "1 < unat n")
    case True
    then have "(2 :: nat) ^ (clog (unat n) - 1) < 2 ^ 31"
      using clog_bounds(2) [of "unat n"] assms by linarith
    then show ?thesis by (simp only: power_strict_increasing_iff)
  qed (simp add: clog.simps)
  then show "ceil_lg n = Some (of_nat (clog (unat n)))"
    using ceil_lg_loop_value [of 0 "clog (unat n)" n 0] clog_bounds [of "unat n"]
    by (cases "1 < unat n") (auto simp: ceil_lg_def clog.simps)
qed

lemma ceil_lg_diverges:
  assumes "2 ^ 31 < unat n"
  shows "ceil_lg n = None"
proof -
  have step: "2 ^ 31 < unat n \<longrightarrow> t = 0 \<or> (\<exists>k<32. t = 2 ^ k) \<longrightarrow> False" if "ceil_lg_loop n r t = Some y" for n :: u32 and r t y
  proof (rule ceil_lg_loop.raw_induct [OF _ that], safe)
    fix f :: "u32 \<Rightarrow> u8 \<Rightarrow> u32 \<Rightarrow> u8 option" and n :: u32 and r t y
    assume ih: "\<And>n r t y. f (n :: u32) r t = Some y \<Longrightarrow> 2 ^ 31 < unat n \<longrightarrow> t = 0 \<or> (\<exists>k<32. t = 2 ^ k) \<longrightarrow> False"
      and n: "2 ^ 31 < unat n"
    show False if "(if 0 < n then f n (r + 1) (2 * 0) else Some r) = Some y"
    proof -
      have "0 < n" using n by (simp add: word_less_nat_alt)
      then show False using that ih n by auto
    qed
    show False if "k < 32" "(if 2 ^ k < n then f n (r + 1) (2 * 2 ^ k) else Some r) = Some y" for k
    proof -
      have "(2 :: nat) ^ k \<le> 2 ^ 31" using that(1) by (intro power_increasing) simp_all
      then have "(2 :: u32) ^ k < n" using n that(1) by (simp add: word_less_nat_alt unat_pow2)
      moreover have "(2 :: u32) * 2 ^ k = 0 \<or> (\<exists>j<32. 2 * 2 ^ k = (2 :: u32) ^ j)"
        using that(1) by (cases "k = 31") (auto intro!: exI [of _ "Suc k"])
      ultimately show False using that(2) ih [of n "r + 1" "2 * 2 ^ k" y] n by simp
    qed
  qed
  show ?thesis
    using assms by (cases "ceil_lg n") (auto simp: ceil_lg_def dest!: step intro: exI [of _ 0])
qed

lemma mask_test:
  fixes index :: u32
  assumes "k < 32" "unat index < 2 * 2 ^ k"
  shows "index AND 2 ^ k \<noteq> 0 \<longleftrightarrow> 2 ^ k \<le> unat index"
proof -
  have "bit index k \<longleftrightarrow> odd (unat index div 2 ^ k)"
    using bit_iff_odd [of "unat index" k] by (simp add: bit_unsigned_iff assms(1) impossible_bit)
  moreover have "unat index div 2 ^ k = (if 2 ^ k \<le> unat index then 1 else 0)"
    using assms(2) by (auto simp: div_nat_eqI)
  ultimately show ?thesis
    by (simp add: and_exp_eq_0_iff_not_bit)
qed

lemma ith_direction_loop_value:
  assumes "unat sz \<le> 2 ^ 31" "unat index < unat sz" "unat n_directions + length (merkle_dirs (unat sz) (unat index)) < 256"
    and "unat i = unat n_directions + j"
  shows "ith_direction_loop sz index i n_directions =
    Some (if j < length (merkle_dirs (unat sz) (unat index)) then of_bool (merkle_dirs (unat sz) (unat index) ! j) else - 1)"
  using assms
proof (induction "unat sz" "unat index" arbitrary: sz index n_directions j rule: merkle_dirs.induct)
  case 1
  let ?n = "unat sz" and ?i = "unat index" and ?m = "split_point (unat sz)"
  show ?case
  proof (cases "1 < unat sz")
    case True
    note sp = split_point_bounds [OF True]
    let ?k = "clog ?n - 1"
    have k: "ceil_lg sz = Some (of_nat (clog ?n))" "?k < 32" "0 < clog ?n" "clog ?n \<le> 31"
      using ceil_lg_value [OF "1.prems"(1)] clog_half [OF True] by simp_all
    have uk: "unat ((of_nat (clog ?n) :: u8) - 1) = ?k"
      using k(3,4) by (simp add: unat_sub_le word_le_nat_alt unat_of_nat)
    have m: "push_bit ?k (1 :: u32) = 2 ^ ?k" "unat (2 ^ ?k :: u32) = ?m"
      using k by (simp_all add: push_bit_of_1 unat_pow2 split_point_def)
    have t: "index AND 2 ^ ?k \<noteq> 0 \<longleftrightarrow> ?m \<le> ?i"
      using mask_test [of ?k index] k(2) "1.prems"(2) sp(3) by (simp add: split_point_def)
    have d: "merkle_dirs ?n ?i = (?m \<le> ?i) # (if ?i < ?m then merkle_dirs ?m ?i else merkle_dirs (?n - ?m) (?i - ?m))"
      using True by (subst merkle_dirs.simps) auto
    have n: "unat (n_directions + 1) = unat n_directions + 1"
      using "1.prems"(3) d by (simp add: unat_word_ariths)
    have eq: "ith_direction_loop sz index i n_directions =
      (if ucast n_directions = i then Some (of_bool (?m \<le> ?i))
       else if ?m \<le> ?i then ith_direction_loop (sz - 2 ^ ?k) (index - 2 ^ ?k) i (n_directions + 1)
       else ith_direction_loop (2 ^ ?k) index i (n_directions + 1))"
      using True t by (subst ith_direction_loop.simps) (simp add: word_less_nat_alt k(1) uk m(1) Let_def)
    have u: "ucast n_directions = i \<longleftrightarrow> j = 0"
      using "1.prems"(3,4) by (auto simp: word_unat_eq_iff unsigned_ucast_eq take_bit_eq_mod)
    have s: "unat (sz - 2 ^ ?k) = ?n - ?m"
      using sp(2) m(2) by (simp add: unat_sub_le word_le_nat_alt)
    have x: "unat (index - 2 ^ ?k) = ?i - ?m" if "?m \<le> ?i"
      using that m(2) by (simp add: unat_sub_le word_le_nat_alt)
    show ?thesis
    proof (cases j)
      case 0
      then show ?thesis using u d eq by simp
    next
      case (Suc l)
      have j: "unat i = unat (n_directions + 1) + l" using Suc n "1.prems"(4) by simp
      have b: "unat (n_directions + 1) + length (tl (merkle_dirs ?n ?i)) < 256" using n "1.prems"(3) d by simp
      show ?thesis
      proof (cases "?m \<le> ?i")
        case True
        then show ?thesis
          using "1.hyps"(2) [of "sz - 2 ^ ?k" "index - 2 ^ ?k" "n_directions + 1" l] \<open>1 < ?n\<close> "1.prems"(1,2) s x b j u d eq Suc
          by (simp add: not_less)
      next
        case False
        then show ?thesis
          using "1.hyps"(1) [of "2 ^ ?k" index "n_directions + 1" l] \<open>1 < ?n\<close> "1.prems"(1) m(2) sp(2) b j u d eq Suc
          by (simp add: not_less)
      qed
    qed
  next
    case False
    then show ?thesis
      by (subst ith_direction_loop.simps) (simp add: merkle_dirs.simps word_less_nat_alt)
  qed
qed

lemma merkle_dirs_length: "n \<le> 2 ^ k \<Longrightarrow> length (merkle_dirs n i) \<le> k"
proof (induction k arbitrary: n i)
  case (Suc k)
  show ?case
  proof (cases "1 < n")
    case True
    note sp = split_point_bounds [OF True]
    have "(2 :: nat) ^ (clog n - 1) < 2 ^ Suc k"
      using sp(2) Suc.prems by (simp add: split_point_def)
    then have "clog n - 1 \<le> k" by (simp only: power_strict_increasing_iff)
    then have m: "split_point n \<le> 2 ^ k"
      unfolding split_point_def by (intro power_increasing) simp_all
    then show ?thesis
      using True Suc.IH [of "split_point n" i] Suc.IH [of "n - split_point n" "i - split_point n"] sp(3)
      by (subst merkle_dirs.simps) auto
  qed (simp add: merkle_dirs.simps)
qed (simp add: merkle_dirs.simps)

lemma merkle_get_ith_direction_value:
  assumes "unat sz \<le> 2 ^ 31" "index < sz"
  shows "merkle_get_ith_direction sz index i =
    Some (if unat i < length (merkle_dirs (unat sz) (unat index)) then of_bool (merkle_dirs (unat sz) (unat index) ! unat i) else - 1)"
proof (cases "sz \<le> 1")
  case True
  then have "unat sz \<le> 1" by (simp add: word_le_nat_alt)
  then show ?thesis
    using True by (simp add: merkle_get_ith_direction_def merkle_dirs.simps)
next
  case False
  have "length (merkle_dirs (unat sz) (unat index)) \<le> 31"
    using assms(1) by (rule merkle_dirs_length)
  then show ?thesis
    using False assms ith_direction_loop_value [of sz index 0 i "unat i"]
    by (simp add: merkle_get_ith_direction_def word_less_nat_alt not_le)
qed

lemma merkle_get_ith_direction_eq:
  "merkle_get_ith_direction sz index i =
     (if unat sz \<le> 2 ^ 31 \<or> sz \<le> index
      then Some (if index < sz \<and> unat i < length (merkle_dirs (unat sz) (unat index))
                 then of_bool (merkle_dirs (unat sz) (unat index) ! unat i) else - 1)
      else None)"
proof -
  have "merkle_get_ith_direction sz index i = None" if "2 ^ 31 < unat sz" "index < sz"
  proof -
    have "1 < unat sz" using that(1) by simp
    then have "1 < sz" by (simp add: word_less_nat_alt)
    then show ?thesis
      using that(2) ceil_lg_diverges [OF that(1)]
      by (subst merkle_get_ith_direction_def, subst ith_direction_loop.simps) (simp add: not_le)
  qed
  moreover have "merkle_get_ith_direction sz index i = Some (- 1)" if "sz \<le> index"
    using that by (simp add: merkle_get_ith_direction_def)
  ultimately show ?thesis
    using merkle_get_ith_direction_value [of sz index i] by (cases "index < sz") (auto simp: not_le not_less)
qed

text \<open>C17: For trees of at most \<open>2 ^ 31\<close> leaves \<open>merkle_get_ith_direction\<close> returns the direction of
  the \<open>i\<close>-th step from the root to the leaf in a tree whose left subtree has the largest power of two below the
  size as its number of leaves, and -1 when there is no such step or no such leaf. For a larger
  size and an index within it the function does not return, since the counter of \<open>ceil_lg\<close> wraps around to zero.\<close>
theorem merkle_get_ith_direction_correct:
  "merkle_get_ith_direction sz index i =
     (if unat sz \<le> 2 ^ 31 \<or> sz \<le> index
      then Some (if index < sz \<and> unat i < length (merkle_dirs (unat sz) (unat index))
                 then of_bool (merkle_dirs (unat sz) (unat index) ! unat i) else - 1)
      else None)"
  by (rule merkle_get_ith_direction_eq)

section \<open>Proofs of inclusion\<close>

lemma split_point_less: "Suc 0 < n \<Longrightarrow> split_point n < n" "Suc 0 < n \<Longrightarrow> n - split_point n < n"
  using split_point_bounds [of n] by simp_all

function merkle_root :: "(bytes \<Rightarrow> bytes) \<Rightarrow> bytes list \<Rightarrow> bytes" where
  "merkle_root sha256 hs =
     (if length hs \<le> 1 then hd hs
      else merkle_combine_hashes sha256 (merkle_root sha256 (take (split_point (length hs)) hs))
             (merkle_root sha256 (drop (split_point (length hs)) hs)))"
  by pat_completeness auto

termination
  by (relation "measure (\<lambda>(sha256, hs). length hs)") (auto simp: split_point_less not_le)

declare merkle_root.simps [simp del]

text \<open>The strings that are hashed for the inner nodes of the tree.\<close>

function merkle_strings :: "(bytes \<Rightarrow> bytes) \<Rightarrow> bytes list \<Rightarrow> bytes set" where
  "merkle_strings sha256 hs =
     (if length hs \<le> 1 then {}
      else (let l = take (split_point (length hs)) hs; r = drop (split_point (length hs)) hs
            in insert (0x01 # merkle_root sha256 l @ merkle_root sha256 r) (merkle_strings sha256 l \<union> merkle_strings sha256 r)))"
  by pat_completeness auto

termination
  by (relation "measure (\<lambda>(sha256, hs). length hs)") (auto simp: split_point_less not_le)

declare merkle_strings.simps [simp del]

fun merkle_subtree :: "bool list \<Rightarrow> bytes list \<Rightarrow> bytes list" where
  "merkle_subtree [] hs = hs"
| "merkle_subtree (d # ds) hs =
     merkle_subtree ds (if d then drop (split_point (length hs)) hs else take (split_point (length hs)) hs)"

text \<open>The hash of the root from a node below it, with the directions and the siblings from the root down.\<close>

fun merkle_up :: "(bytes \<Rightarrow> bytes) \<Rightarrow> (bool \<times> bytes) list \<Rightarrow> bytes \<Rightarrow> bytes" where
  "merkle_up sha256 [] h = h"
| "merkle_up sha256 ((d, p) # rest) h =
     (let c = merkle_up sha256 rest h in if d then merkle_combine_hashes sha256 p c else merkle_combine_hashes sha256 c p)"

fun merkle_up_strings :: "(bytes \<Rightarrow> bytes) \<Rightarrow> (bool \<times> bytes) list \<Rightarrow> bytes \<Rightarrow> bytes list" where
  "merkle_up_strings sha256 [] h = []"
| "merkle_up_strings sha256 ((d, p) # rest) h =
     (let c = merkle_up sha256 rest h in (0x01 # (if d then p @ c else c @ p)) # merkle_up_strings sha256 rest h)"

lemma merkle_dirs_small: "n \<le> 1 \<Longrightarrow> merkle_dirs n i = []"
  by (simp add: merkle_dirs.simps)

lemma merkle_dirs_step:
  "1 < n \<Longrightarrow> merkle_dirs n i = (split_point n \<le> i) #
     (if split_point n \<le> i then merkle_dirs (n - split_point n) (i - split_point n) else merkle_dirs (split_point n) i)"
  by (simp add: merkle_dirs.simps [of n])

lemma merkle_combine_eq: "merkle_combine_hashes sha256 l r = sha256 (0x01 # l @ r)"
  by (simp add: merkle_combine_hashes_def crypto_hash_simps)

lemma merkle_root_length:
  assumes "\<forall>x. length (sha256 x) = 32" "hs \<noteq> []" "\<forall>h\<in>set hs. length h = 32"
  shows "length (merkle_root sha256 hs) = 32"
  using assms by (subst merkle_root.simps) (cases hs; simp add: merkle_combine_eq)

lemma merkle_up_length:
  assumes "\<forall>x. length (sha256 x) = 32" "length h = 32"
  shows "length (merkle_up sha256 ps h) = 32"
  using assms by (cases ps) (auto simp: merkle_combine_eq Let_def)

text \<open>
  A path that leads to the root of a tree starts in a node of the tree, or two different strings
  have the same hash, one of them hashed for the tree and the other one for the path.
\<close>

lemma merkle_up_sound:
  assumes sha: "\<forall>x. length (sha256 x) = 32"
    and "length h = 32" "\<forall>(d, p)\<in>set path. length p = 32"
    and "\<forall>x\<in>set hs. length x = 32" "i < length hs"
    and "map fst path = take k (merkle_dirs (length hs) i)"
    and "merkle_up sha256 path h = merkle_root sha256 hs"
  shows "h = merkle_root sha256 (merkle_subtree (map fst path) hs) \<or>
    (\<exists>x\<in>merkle_strings sha256 hs. \<exists>y\<in>set (merkle_up_strings sha256 path h). x \<noteq> y \<and> sha256 x = sha256 y)"
  using assms(2-)
proof (induction path arbitrary: hs i k)
  case (Cons dp path)
  obtain d p where dp: "dp = (d, p)" by fastforce
  let ?m = "split_point (length hs)"
  let ?l = "take ?m hs" and ?r = "drop ?m hs"
  let ?c = "merkle_up sha256 path h"
  have n: "1 < length hs"
    using Cons.prems(5) merkle_dirs_small [of "length hs" i] by (cases "length hs \<le> 1") auto
  note sp = split_point_bounds [OF n]
  have d: "d \<longleftrightarrow> ?m \<le> i"
    using Cons.prems(5) dp by (cases k) (simp_all add: merkle_dirs_step [OF n])
  then have dirs: "map fst path = take (k - 1) (merkle_dirs (length (if d then ?r else ?l)) (if d then i - ?m else i))"
    using Cons.prems(5) dp sp by (cases k) (simp_all add: merkle_dirs_step [OF n])
  let ?x = "0x01 # merkle_root sha256 ?l @ merkle_root sha256 ?r"
  let ?y = "0x01 # (if d then p @ ?c else ?c @ p)"
  have eq: "sha256 ?x = sha256 ?y"
    using Cons.prems(6) n dp by (auto simp: merkle_root.simps [of _ hs] merkle_combine_eq Let_def)
  have strings: "merkle_strings sha256 hs = insert ?x (merkle_strings sha256 ?l \<union> merkle_strings sha256 ?r)"
    using n by (simp add: merkle_strings.simps [of _ hs] Let_def)
  show ?case
  proof (cases "?x = ?y")
    case True
    have "hs \<noteq> []" using n by auto
    then have len: "length (merkle_root sha256 ?l) = 32" "length (merkle_root sha256 ?r) = 32" "length ?c = 32" "length p = 32"
      using Cons.prems(1-3) sp dp merkle_up_length [OF sha, of h path]
      by (auto intro!: merkle_root_length [OF sha] dest: in_set_takeD in_set_dropD)
    then have "?c = merkle_root sha256 (if d then ?r else ?l)"
      using True by (auto split: if_splits)
    then have "h = merkle_root sha256 (merkle_subtree (map fst path) (if d then ?r else ?l)) \<or>
      (\<exists>x\<in>merkle_strings sha256 (if d then ?r else ?l). \<exists>y\<in>set (merkle_up_strings sha256 path h). x \<noteq> y \<and> sha256 x = sha256 y)"
      using Cons.prems(1-4) dirs d dp sp
      by (intro Cons.IH [of _ "if d then i - ?m else i" "k - 1"]) (auto dest: in_set_takeD in_set_dropD)
    then show ?thesis
      using strings dp by (auto simp: Let_def split: if_splits)
  next
    case False
    then show ?thesis
      using eq strings dp by (intro disjI2 bexI [of _ ?x] bexI [of _ ?y]) (auto simp: Let_def)
  qed
qed simp

end
