(* ===== verification/Dispatcher.thy ===== *)
theory Dispatcher
  imports Crypto_Hash
begin

text \<open>
  The exchange of messages with the host: the parser of commands (\<open>src/boilerplate/apdu_parser.c\<close>),
  the response buffer and the timers (\<open>src/boilerplate/io.c\<close>), and the dispatcher with the
  interruptions in which a handler asks the host for data (\<open>src/boilerplate/dispatcher.c\<close>).

  The host is a parameter: a function from all messages sent to it so far to its next answer, so
  that a theorem for every host covers every strategy. \<open>None\<close> is an error of the transport.
  \<open>read_buffer\<close> points into the same array that responses are built in; its memory is always read
  from there.
\<close>

section \<open>State\<close>

type_synonym host = "bytes list \<Rightarrow> bytes option"

text \<open>The size of \<open>G_io_apdu_buffer\<close>, a constant of the device's SDK.\<close>

definition IO_APDU_BUFFER_SIZE :: nat where
  "IO_APDU_BUFFER_SIZE = 260"

record dispatcher_state =
  io_apdu_buffer :: bytes
  output_len :: u16
  sent :: "bytes list"
  disp_sw :: u16
  had_ux_flow :: bool
  was_processing_screen_shown :: bool
  ticks :: u16
  timeout_interruption :: bool
  timeout_processing :: bool
  interruption_timeout_start_tick :: u16
  processing_timeout_start_tick :: u16
  read_buffer :: buffer_t

definition CLA_FRAMEWORK :: u8 where "CLA_FRAMEWORK = 0xF8"
definition INS_CONTINUE :: u8 where "INS_CONTINUE = 0x01"
definition CURRENT_PROTOCOL_VERSION :: u8 where "CURRENT_PROTOCOL_VERSION = 1"

definition SW_OK :: u16 where "SW_OK = 0x9000"
definition SW_SECURITY_STATUS_NOT_SATISFIED :: u16 where "SW_SECURITY_STATUS_NOT_SATISFIED = 0x6982"
definition SW_DENY :: u16 where "SW_DENY = 0x6985"
definition SW_INCORRECT_DATA :: u16 where "SW_INCORRECT_DATA = 0x6A80"
definition SW_NOT_SUPPORTED :: u16 where "SW_NOT_SUPPORTED = 0x6A82"
definition SW_WRONG_P1P2 :: u16 where "SW_WRONG_P1P2 = 0x6A86"
definition SW_WRONG_DATA_LENGTH :: u16 where "SW_WRONG_DATA_LENGTH = 0x6A87"
definition SW_INS_NOT_SUPPORTED :: u16 where "SW_INS_NOT_SUPPORTED = 0x6D00"
definition SW_CLA_NOT_SUPPORTED :: u16 where "SW_CLA_NOT_SUPPORTED = 0x6E00"
definition SW_WRONG_RESPONSE_LENGTH :: u16 where "SW_WRONG_RESPONSE_LENGTH = 0xB000"
definition SW_BAD_STATE :: u16 where "SW_BAD_STATE = 0xB007"
definition SW_SIGNATURE_FAIL :: u16 where "SW_SIGNATURE_FAIL = 0xB008"
definition SW_INTERRUPTED_EXECUTION :: u16 where "SW_INTERRUPTED_EXECUTION = 0xE000"

lemmas sw_defs = SW_OK_def SW_SECURITY_STATUS_NOT_SATISFIED_def SW_DENY_def SW_INCORRECT_DATA_def SW_NOT_SUPPORTED_def
  SW_WRONG_P1P2_def SW_WRONG_DATA_LENGTH_def SW_INS_NOT_SUPPORTED_def SW_CLA_NOT_SUPPORTED_def SW_WRONG_RESPONSE_LENGTH_def
  SW_BAD_STATE_def SW_SIGNATURE_FAIL_def SW_INTERRUPTED_EXECUTION_def

section \<open>Commands\<close>

record command =
  cmd_cla :: u8
  cmd_ins :: u8
  cmd_p1 :: u8
  cmd_p2 :: u8
  cmd_lc :: u8
  cmd_data :: bytes

definition apdu_parser :: "bytes \<Rightarrow> size_t \<Rightarrow> command option" where
  "apdu_parser buf buf_len =
     (if buf_len < 5 \<or> buf_len - 5 \<noteq> ucast (buf ! 4) then None
      else Some \<lparr>cmd_cla = buf ! 0, cmd_ins = buf ! 1, cmd_p1 = buf ! 2, cmd_p2 = buf ! 3, cmd_lc = buf ! 4,
                 cmd_data = (if buf ! 4 > 0 then drop 5 buf else [])\<rparr>)"

section \<open>Responses\<close>

definition io_finalize_response :: "u16 \<Rightarrow> dispatcher_state \<Rightarrow> dispatcher_state" where
  "io_finalize_response sw dc =
     (if unat (output_len dc) \<ge> IO_APDU_BUFFER_SIZE - 2
      then dc\<lparr>output_len := of_nat IO_APDU_BUFFER_SIZE,
              io_apdu_buffer := write_u16_be (io_apdu_buffer dc) (IO_APDU_BUFFER_SIZE - 2) SW_WRONG_RESPONSE_LENGTH\<rparr>
      else dc\<lparr>io_apdu_buffer := write_u16_be (io_apdu_buffer dc) (unat (output_len dc)) sw,
              output_len := output_len dc + 2\<rparr>)"

text \<open>
  When the data does not fit, the function calls itself with another length and need not come to
  an end; \<open>None\<close> stands for that, and for reading behind \<open>rdata\<close>.
\<close>

partial_function (option) io_add_to_response :: "bytes \<Rightarrow> size_t \<Rightarrow> dispatcher_state \<Rightarrow> dispatcher_state option" where
  [code]: "io_add_to_response rdata rdata_len dc =
     (if unat (output_len dc) \<ge> IO_APDU_BUFFER_SIZE - 2
      then Some (dc\<lparr>output_len := of_nat IO_APDU_BUFFER_SIZE,
              io_apdu_buffer := write_u16_be (io_apdu_buffer dc) (IO_APDU_BUFFER_SIZE - 2) SW_WRONG_RESPONSE_LENGTH\<rparr>)
      else if ucast (output_len dc) + rdata_len > of_nat (IO_APDU_BUFFER_SIZE - 2)
      then do {
        dc \<leftarrow> io_add_to_response rdata (of_nat (IO_APDU_BUFFER_SIZE - 2) - rdata_len) dc;
        Some (io_finalize_response SW_WRONG_RESPONSE_LENGTH dc)
      }
      else if unat rdata_len > length rdata then None
      else Some (dc\<lparr>io_apdu_buffer := splice (io_apdu_buffer dc) (unat (output_len dc)) (take (unat rdata_len) rdata),
              output_len := output_len dc + ucast rdata_len\<rparr>))"

definition io_reset_response :: "dispatcher_state \<Rightarrow> dispatcher_state" where
  "io_reset_response dc = dc\<lparr>output_len := 0\<rparr>"

definition io_set_response :: "bytes option \<Rightarrow> size_t \<Rightarrow> u16 \<Rightarrow> dispatcher_state \<Rightarrow> dispatcher_state option" where
  "io_set_response rdata rdata_len sw dc = do {
     let dc = io_reset_response dc;
     dc \<leftarrow> (case rdata of None \<Rightarrow> Some dc | Some d \<Rightarrow> io_add_to_response d rdata_len dc);
     Some (io_finalize_response sw dc)
   }"

text \<open>The response goes out; the answer of the host is not waited for.\<close>

definition io_confirm_response :: "dispatcher_state \<Rightarrow> dispatcher_state" where
  "io_confirm_response dc = dc\<lparr>sent := sent dc @ [take (unat (output_len dc)) (io_apdu_buffer dc)], output_len := 0\<rparr>"

definition io_send_response :: "bytes option \<Rightarrow> size_t \<Rightarrow> u16 \<Rightarrow> dispatcher_state \<Rightarrow> dispatcher_state option" where
  "io_send_response rdata rdata_len sw dc = map_option io_confirm_response (io_set_response rdata rdata_len sw dc)"

definition io_send_sw :: "u16 \<Rightarrow> dispatcher_state \<Rightarrow> dispatcher_state option" where
  "io_send_sw sw dc = io_send_response None 0 sw dc"

text \<open>The functions of the dispatcher context, and the helpers of \<open>dispatcher.h\<close>.\<close>

definition add_to_response :: "bytes \<Rightarrow> size_t \<Rightarrow> dispatcher_state \<Rightarrow> dispatcher_state option" where
  "add_to_response rdata rdata_len dc = io_add_to_response rdata rdata_len dc"

definition finalize_response :: "u16 \<Rightarrow> dispatcher_state \<Rightarrow> dispatcher_state" where
  "finalize_response sw dc = io_finalize_response sw (dc\<lparr>disp_sw := sw\<rparr>)"

definition send_response :: "dispatcher_state \<Rightarrow> dispatcher_state" where
  "send_response dc = io_confirm_response dc"

definition set_ui_dirty :: "dispatcher_state \<Rightarrow> dispatcher_state" where
  "set_ui_dirty dc = dc\<lparr>had_ux_flow := True\<rparr>"

definition SEND_SW :: "u16 \<Rightarrow> dispatcher_state \<Rightarrow> dispatcher_state" where
  "SEND_SW sw dc = send_response (finalize_response sw dc)"

definition SET_RESPONSE :: "bytes \<Rightarrow> size_t \<Rightarrow> u16 \<Rightarrow> dispatcher_state \<Rightarrow> dispatcher_state option" where
  "SET_RESPONSE rdata rdata_len sw dc = map_option (finalize_response sw) (add_to_response rdata rdata_len dc)"

definition SEND_RESPONSE :: "bytes \<Rightarrow> size_t \<Rightarrow> u16 \<Rightarrow> dispatcher_state \<Rightarrow> dispatcher_state option" where
  "SEND_RESPONSE rdata rdata_len sw dc = map_option (\<lambda>dc. send_response (finalize_response sw dc)) (add_to_response rdata rdata_len dc)"

section \<open>Timers\<close>

definition INTERRUPTION_TIMEOUT_TICKS :: int where "INTERRUPTION_TIMEOUT_TICKS = 50"
definition PROCESSING_TIMEOUT_TICKS :: int where "PROCESSING_TIMEOUT_TICKS = 10"

definition io_start_interruption_timeout :: "dispatcher_state \<Rightarrow> dispatcher_state" where
  "io_start_interruption_timeout dc = dc\<lparr>interruption_timeout_start_tick := ticks dc, timeout_interruption := True\<rparr>"

definition io_clear_interruption_timeout :: "dispatcher_state \<Rightarrow> dispatcher_state" where
  "io_clear_interruption_timeout dc = dc\<lparr>timeout_interruption := False\<rparr>"

definition io_start_processing_timeout :: "dispatcher_state \<Rightarrow> dispatcher_state" where
  "io_start_processing_timeout dc = dc\<lparr>processing_timeout_start_tick := ticks dc, timeout_processing := True\<rparr>"

definition io_clear_processing_timeout :: "dispatcher_state \<Rightarrow> dispatcher_state" where
  "io_clear_processing_timeout dc = dc\<lparr>timeout_processing := False\<rparr>"

definition io_reset_timeouts :: "dispatcher_state \<Rightarrow> dispatcher_state" where
  "io_reset_timeouts dc =
     (io_clear_processing_timeout (io_clear_interruption_timeout dc))\<lparr>was_processing_screen_shown := False\<rparr>"

text \<open>
  The ticker event of \<open>io_event\<close>. Both operands of the differences are promoted to \<open>int\<close>. The
  first result tells whether \<open>EXCEPTION_IO_RESET\<close> is thrown.
\<close>

definition ticker_event :: "dispatcher_state \<Rightarrow> bool \<times> dispatcher_state" where
  "ticker_event dc =
     (let dc = dc\<lparr>ticks := ticks dc + 1\<rparr>;
          dc = (if timeout_processing dc \<and>
                   uint (ticks dc) - uint (processing_timeout_start_tick dc) \<ge> PROCESSING_TIMEOUT_TICKS
                then (io_clear_processing_timeout dc)\<lparr>was_processing_screen_shown := True\<rparr> else dc)
      in if timeout_interruption dc \<and>
            uint (ticks dc) - uint (interruption_timeout_start_tick dc) \<ge> INTERRUPTION_TIMEOUT_TICKS
         then (True, io_clear_interruption_timeout dc) else (False, dc))"

section \<open>Interruptions\<close>

text \<open>\<open>io_exchange\<close>: the response is sent and the next command replaces the front of the buffer.\<close>

definition io_exchange :: "host \<Rightarrow> dispatcher_state \<Rightarrow> (size_t \<times> dispatcher_state) option \<times> dispatcher_state" where
  "io_exchange host dc =
     (let dc = dc\<lparr>sent := sent dc @ [take (unat (output_len dc)) (io_apdu_buffer dc)]\<rparr>
      in case host (sent dc) of
           None \<Rightarrow> (None, dc)
         | Some rx \<Rightarrow>
             let rx = take IO_APDU_BUFFER_SIZE rx
             in (Some (of_nat (length rx), dc\<lparr>io_apdu_buffer := splice (io_apdu_buffer dc) 0 rx\<rparr>), dc))"

text \<open>\<open>False\<close> is the return value -1.\<close>

definition process_interruption :: "host \<Rightarrow> dispatcher_state \<Rightarrow> bool \<times> dispatcher_state" where
  "process_interruption host dc =
     (let dc = io_start_interruption_timeout dc
      in case io_exchange host dc of
           (None, dc) \<Rightarrow> (False, dc)
         | (Some (input_len, dc), _) \<Rightarrow>
             let dc = (io_clear_interruption_timeout dc)\<lparr>output_len := 0, disp_sw := 0\<rparr>
             in case apdu_parser (io_apdu_buffer dc) input_len of
                  None \<Rightarrow> (False, SEND_SW SW_WRONG_DATA_LENGTH dc)
                | Some cmd \<Rightarrow>
                    if cmd_cla cmd \<noteq> CLA_FRAMEWORK \<or> cmd_ins cmd \<noteq> INS_CONTINUE
                    then (False, SEND_SW SW_INCORRECT_DATA dc)
                    else (True, dc\<lparr>read_buffer := buffer_create 0 (cmd_data cmd) (ucast (cmd_lc cmd))\<rparr>))"

text \<open>The handlers read from \<open>read_buffer\<close>, whose memory is the data part of the array.\<close>

definition rb :: "dispatcher_state \<Rightarrow> buffer_t" where
  "rb dc = (read_buffer dc)\<lparr>buf_ptr := drop 5 (io_apdu_buffer dc)\<rparr>"

section \<open>Dispatching\<close>

record command_descriptor =
  desc_handler :: "u8 \<Rightarrow> dispatcher_state \<Rightarrow> dispatcher_state option"
  desc_cla :: u8
  desc_ins :: u8

text \<open>The search for the handler: whether the class and the instruction were found, and the handler.\<close>

primrec find_handler :: "command_descriptor list \<Rightarrow> u8 \<Rightarrow> u8 \<Rightarrow> bool \<Rightarrow>
    bool \<times> (u8 \<Rightarrow> dispatcher_state \<Rightarrow> dispatcher_state option) option" where
  "find_handler [] cla ins cla_found = (cla_found, None)"
| "find_handler (d # ds) cla ins cla_found =
     (if desc_cla d \<noteq> cla then find_handler ds cla ins cla_found
      else if desc_ins d \<noteq> ins then find_handler ds cla ins True
      else (True, Some (desc_handler d)))"

text \<open>
  \<open>termination_cb\<close> is the function that shows the main menu again; it changes nothing of this state.
\<close>

definition apdu_dispatcher :: "command_descriptor list \<Rightarrow> command \<Rightarrow> dispatcher_state \<Rightarrow> dispatcher_state option" where
  "apdu_dispatcher cmd_descriptors cmd dc = do {
     let dc = dc\<lparr>had_ux_flow := False, disp_sw := 0, read_buffer := buffer_create 0 (cmd_data cmd) (ucast (cmd_lc cmd))\<rparr>;
     if cmd_p2 cmd > CURRENT_PROTOCOL_VERSION then io_send_sw SW_WRONG_P1P2 dc
     else if cmd_cla cmd = CLA_FRAMEWORK \<and> cmd_ins cmd = INS_CONTINUE then io_send_sw SW_BAD_STATE dc
     else (case find_handler cmd_descriptors (cmd_cla cmd) (cmd_ins cmd) False of
         (False, _) \<Rightarrow> io_send_sw SW_CLA_NOT_SUPPORTED dc
       | (True, None) \<Rightarrow> io_send_sw SW_INS_NOT_SUPPORTED dc
       | (True, Some handler) \<Rightarrow> do {
           dc \<leftarrow> handler (cmd_p2 cmd) (io_start_processing_timeout dc);
           dc \<leftarrow> (if disp_sw dc = 0 then io_send_sw SW_BAD_STATE dc else Some dc);
           let is_ux_dirty = had_ux_flow dc \<or> was_processing_screen_shown dc;
           let dc = (if is_ux_dirty then dc\<lparr>was_processing_screen_shown := False\<rparr> else dc);
           Some (io_clear_processing_timeout dc)
         })
   }"

section \<open>Invariant and behaviour\<close>

text \<open>
  The array has its full length, and the cursor into its data part is well-formed. The response
  under construction is \<open>pending\<close>.
\<close>

definition io_ok :: "dispatcher_state \<Rightarrow> bool" where
  "io_ok dc \<longleftrightarrow> length (io_apdu_buffer dc) = IO_APDU_BUFFER_SIZE \<and> unat (output_len dc) \<le> IO_APDU_BUFFER_SIZE"

definition pending :: "dispatcher_state \<Rightarrow> bytes" where
  "pending dc = take (unat (output_len dc)) (io_apdu_buffer dc)"

lemma io_ok_read_buffer [simp]: "io_ok (dc\<lparr>read_buffer := b\<rparr>) = io_ok dc" "pending (dc\<lparr>read_buffer := b\<rparr>) = pending dc"
  by (simp_all add: io_ok_def pending_def)

lemma pending_length: "io_ok dc \<Longrightarrow> length (pending dc) = unat (output_len dc)"
  by (simp add: io_ok_def pending_def)

lemma u8_less: "unat (x :: u8) < 256"
  using unsigned_less [of x, where ?'a = nat] by simp

lemma io_finalize_response_sent [simp]: "sent (io_finalize_response sw dc) = sent dc"
  by (simp add: io_finalize_response_def)

lemma write_u16_be_length [simp]: "length (write_u16_be p at v) = length p"
  by (simp add: write_u16_be_def)

text \<open>Appending to the response while there is room for the data and the status word.\<close>

lemma io_add_to_response_eq:
  assumes "io_ok dc" "length (pending dc) < 258" "length (pending dc) + unat n \<le> 258" "unat n \<le> length rdata"
  shows "\<exists>dc'. io_add_to_response rdata n dc = Some dc' \<and> io_ok dc' \<and> pending dc' = pending dc @ take (unat n) rdata \<and>
    sent dc' = sent dc \<and> disp_sw dc' = disp_sw dc"
proof -
  define k where "k = unat (output_len dc)"
  have k: "k < 258" "k + unat n \<le> 258" "length (io_apdu_buffer dc) = 260" "length (take (unat n) rdata) = unat n"
    using assms by (simp_all add: pending_length k_def [symmetric] io_ok_def IO_APDU_BUFFER_SIZE_def)
  have "unat (ucast (output_len dc) + n :: size_t) = k + unat n"
    using k(1,2) k_def by (subst unat_add_no_wrap) (auto simp: unsigned_ucast_eq take_bit_eq_mod)
  then have fits: "\<not> ucast (output_len dc) + n > (of_nat 258 :: size_t)"
    using k(2) by (simp add: word_less_nat_alt)
  have len: "unat (output_len dc + ucast n) = k + unat n"
    using k(2) by (simp add: unat_word_ariths unsigned_ucast_eq take_bit_eq_mod k_def [symmetric])
  let ?b = "splice (io_apdu_buffer dc) k (take (unat n) rdata)"
  have e: "io_add_to_response rdata n dc = Some (dc\<lparr>io_apdu_buffer := ?b, output_len := output_len dc + ucast n\<rparr>)"
    using assms(4) k fits by (subst io_add_to_response.simps) (simp add: IO_APDU_BUFFER_SIZE_def k_def [symmetric])
  have "length ?b = 260" "take (k + unat n) ?b = take k (io_apdu_buffer dc) @ take (unat n) rdata"
    using k by (simp_all add: splice_def)
  then show ?thesis
    unfolding e using k len by (simp add: io_ok_def pending_def IO_APDU_BUFFER_SIZE_def k_def [symmetric])
qed

lemma io_finalize_response_eq:
  assumes "io_ok dc" "length (pending dc) < 258"
  shows "io_ok (io_finalize_response sw dc)" "pending (io_finalize_response sw dc) = pending dc @ enc_u16_be sw"
    "sent (io_finalize_response sw dc) = sent dc" "disp_sw (io_finalize_response sw dc) = disp_sw dc"
proof -
  define k where "k = unat (output_len dc)"
  have k: "k < 258" "length (io_apdu_buffer dc) = 260"
    using assms by (simp_all add: pending_length k_def [symmetric] io_ok_def IO_APDU_BUFFER_SIZE_def)
  have len: "unat (output_len dc + 2) = k + 2"
    using k(1) by (simp add: unat_word_ariths k_def [symmetric])
  let ?b = "splice (io_apdu_buffer dc) k (enc_u16_be sw)"
  have w: "write_u16_be (io_apdu_buffer dc) k sw = ?b"
    using k by (simp add: bytes_simps splice_def)
  have e: "io_finalize_response sw dc = dc\<lparr>io_apdu_buffer := ?b, output_len := output_len dc + 2\<rparr>"
    using k(1) w by (simp add: io_finalize_response_def IO_APDU_BUFFER_SIZE_def k_def [symmetric])
  have b: "length ?b = 260" "take (k + 2) ?b = take k (io_apdu_buffer dc) @ enc_u16_be sw"
    using k by (simp_all add: splice_def enc_u16_be_def)
  show "io_ok (io_finalize_response sw dc)" "pending (io_finalize_response sw dc) = pending dc @ enc_u16_be sw"
    "sent (io_finalize_response sw dc) = sent dc" "disp_sw (io_finalize_response sw dc) = disp_sw dc"
    unfolding e using b k len by (simp_all add: io_ok_def pending_def IO_APDU_BUFFER_SIZE_def k_def [symmetric])
qed

lemma io_finalize_response_ok: "io_ok dc \<Longrightarrow> io_ok (io_finalize_response sw dc)"
proof (cases "length (pending dc) < 258")
  case False
  then show "io_ok dc \<Longrightarrow> io_ok (io_finalize_response sw dc)"
    by (simp add: io_finalize_response_def io_ok_def pending_def IO_APDU_BUFFER_SIZE_def)
qed (simp add: io_finalize_response_eq)

lemma io_confirm_response_eq:
  assumes "io_ok dc"
  shows "io_ok (io_confirm_response dc)" "pending (io_confirm_response dc) = []"
    "sent (io_confirm_response dc) = sent dc @ [pending dc]" "disp_sw (io_confirm_response dc) = disp_sw dc"
  using assms by (simp_all add: io_confirm_response_def io_ok_def pending_def)

text \<open>Every change of the array keeps its length.\<close>

lemma append_in_room:
  assumes "io_ok dc" "\<not> unat (output_len dc) \<ge> 258" "\<not> ucast (output_len dc) + n > (of_nat 258 :: size_t)"
    "unat n < 2 ^ 31"
  shows "unat (output_len dc) + unat n \<le> 258" "unat (output_len dc + ucast n) = unat (output_len dc) + unat n"
proof -
  have "unat (ucast (output_len dc) + n :: size_t) = unat (output_len dc) + unat n"
    using assms(2,4) by (subst unat_add_no_wrap) (auto simp: unsigned_ucast_eq take_bit_eq_mod)
  then show le: "unat (output_len dc) + unat n \<le> 258"
    using assms(3) by (simp add: word_less_nat_alt)
  then show "unat (output_len dc + ucast n) = unat (output_len dc) + unat n"
    by (simp add: unat_word_ariths unsigned_ucast_eq take_bit_eq_mod)
qed

lemma io_add_to_response_ok:
  assumes "io_add_to_response rdata n dc = Some dc'" "io_ok dc" "length rdata < 2 ^ 31"
  shows "io_ok dc' \<and> sent dc' = sent dc"
proof -
  have "io_ok dc \<and> length rdata < 2 ^ 31 \<longrightarrow> io_ok dc' \<and> sent dc' = sent dc"
    using assms(1)
  proof (rule io_add_to_response.raw_induct [rotated], intro impI)
    fix f :: "bytes \<Rightarrow> size_t \<Rightarrow> dispatcher_state \<Rightarrow> dispatcher_state option" and rdata n dc dc'
    assume ih: "\<And>rdata n dc dc'. f rdata n dc = Some dc' \<Longrightarrow> io_ok dc \<and> length rdata < 2 ^ 31 \<longrightarrow> io_ok dc' \<and> sent dc' = sent dc"
      and ok: "io_ok dc \<and> length rdata < 2 ^ 31"
      and eq: "(if unat (output_len dc) \<ge> IO_APDU_BUFFER_SIZE - 2
      then Some (dc\<lparr>output_len := of_nat IO_APDU_BUFFER_SIZE,
              io_apdu_buffer := write_u16_be (io_apdu_buffer dc) (IO_APDU_BUFFER_SIZE - 2) SW_WRONG_RESPONSE_LENGTH\<rparr>)
      else if ucast (output_len dc) + n > of_nat (IO_APDU_BUFFER_SIZE - 2)
      then do { dc \<leftarrow> f rdata (of_nat (IO_APDU_BUFFER_SIZE - 2) - n) dc; Some (io_finalize_response SW_WRONG_RESPONSE_LENGTH dc) }
      else if unat n > length rdata then None
      else Some (dc\<lparr>io_apdu_buffer := splice (io_apdu_buffer dc) (unat (output_len dc)) (take (unat n) rdata),
              output_len := output_len dc + ucast n\<rparr>)) = Some dc'"
    show "io_ok dc' \<and> sent dc' = sent dc"
    proof (cases "unat (output_len dc) \<ge> 258 \<or> ucast (output_len dc) + n > (of_nat 258 :: size_t)")
      case True
      then show ?thesis
        using eq ok ih [of rdata "258 - n" dc]
        by (auto simp: IO_APDU_BUFFER_SIZE_def intro: io_finalize_response_ok split: if_splits bind_splits)
          (auto simp: io_ok_def IO_APDU_BUFFER_SIZE_def)
    next
      case False
      then have "unat n \<le> length rdata" and d: "dc' = dc\<lparr>io_apdu_buffer := splice (io_apdu_buffer dc) (unat (output_len dc)) (take (unat n) rdata),
              output_len := output_len dc + ucast n\<rparr>"
        using eq by (auto simp: IO_APDU_BUFFER_SIZE_def split: if_splits)
      then show ?thesis
        using append_in_room [of dc n] False ok by (simp add: d io_ok_def IO_APDU_BUFFER_SIZE_def splice_length)
    qed
  qed
  then show ?thesis using assms(2,3) by simp
qed

text \<open>The two outcomes of an interruption.\<close>

lemma apdu_parser_eq:
  assumes "length rx \<le> 260" "length p = 260"
  shows "apdu_parser (splice p 0 rx) (of_nat (length rx)) =
    (if 5 \<le> length rx \<and> length rx = 5 + unat (rx ! 4)
     then Some \<lparr>cmd_cla = rx ! 0, cmd_ins = rx ! 1, cmd_p1 = rx ! 2, cmd_p2 = rx ! 3, cmd_lc = rx ! 4,
                cmd_data = (if rx ! 4 > 0 then drop 5 (splice p 0 rx) else [])\<rparr>
     else None)"
proof (cases "5 \<le> length rx")
  case True
  have "unat (of_nat (length rx) - 5 :: size_t) = length rx - 5"
    using True assms(1) by (subst unat_sub_le) (simp_all add: word_le_nat_alt unat_of_nat)
  then have "of_nat (length rx) - 5 = (ucast (rx ! 4) :: size_t) \<longleftrightarrow> length rx = 5 + unat (rx ! 4)"
    using True u8_less [of "rx ! 4"] by (auto simp: word_unat_eq_iff unsigned_ucast_eq take_bit_eq_mod)
  moreover have "\<not> (of_nat (length rx) :: size_t) < 5"
    using True assms(1) by (simp add: word_less_nat_alt unat_of_nat)
  ultimately show ?thesis
    using True by (simp add: apdu_parser_def splice_def nth_append)
next
  case False
  then show ?thesis
    by (simp add: apdu_parser_def word_less_nat_alt unat_of_nat)
qed

text \<open>
  A well-formed answer to an interruption, and the state in which its data \<open>d\<close> is being read with
  the cursor at \<open>off\<close>.
\<close>

definition continue_apdu :: "bytes \<Rightarrow> bool" where
  "continue_apdu rx \<longleftrightarrow> 5 \<le> length rx \<and> length rx = 5 + unat (rx ! 4) \<and> rx ! 0 = CLA_FRAMEWORK \<and> rx ! 1 = INS_CONTINUE"

definition answer :: "bytes \<Rightarrow> nat \<Rightarrow> dispatcher_state \<Rightarrow> bool" where
  "answer d off dc \<longleftrightarrow> io_ok dc \<and> length d \<le> 255 \<and> off \<le> length d \<and> unat (buf_size (read_buffer dc)) = length d \<and>
     unat (buf_offset (read_buffer dc)) = off \<and> take (length d) (drop 5 (io_apdu_buffer dc)) = d"

lemma SEND_SW_eq:
  assumes "io_ok dc" "pending dc = []"
  shows "io_ok (SEND_SW sw dc)" "pending (SEND_SW sw dc) = []" "sent (SEND_SW sw dc) = sent dc @ [enc_u16_be sw]" "disp_sw (SEND_SW sw dc) = sw"
proof -
  have "io_ok (dc\<lparr>disp_sw := sw\<rparr>)" "pending (dc\<lparr>disp_sw := sw\<rparr>) = []"
    using assms by (simp_all add: io_ok_def pending_def)
  then show "io_ok (SEND_SW sw dc)" "pending (SEND_SW sw dc) = []" "sent (SEND_SW sw dc) = sent dc @ [enc_u16_be sw]" "disp_sw (SEND_SW sw dc) = sw"
    by (simp_all add: SEND_SW_def send_response_def finalize_response_def io_confirm_response_eq io_finalize_response_eq)
qed

lemma process_interruption_eq:
  fixes host :: host
  assumes "io_ok dc"
  defines "ans \<equiv> host (sent dc @ [pending dc])"
  shows "\<exists>dc'. process_interruption host dc = ((\<exists>rx. ans = Some rx \<and> continue_apdu (take 260 rx)), dc') \<and> io_ok dc' \<and>
    (\<exists>more. sent dc' = sent dc @ [pending dc] @ more) \<and>
    (\<forall>rx. ans = Some rx \<longrightarrow> continue_apdu (take 260 rx) \<longrightarrow>
       answer (drop 5 (take 260 rx)) 0 dc' \<and> sent dc' = sent dc @ [pending dc] \<and> pending dc' = [] \<and> disp_sw dc' = 0)"
proof (cases ans)
  case None
  then have "process_interruption host dc =
      (False, (io_start_interruption_timeout dc)\<lparr>sent := sent dc @ [pending dc]\<rparr>)"
    by (simp add: ans_def process_interruption_def io_exchange_def Let_def io_start_interruption_timeout_def pending_def)
  then show ?thesis
    using None assms(1) by (auto simp: io_ok_def io_start_interruption_timeout_def)
next
  case (Some rx)
  define r where "r = take 260 rx"
  let ?b = "splice (io_apdu_buffer dc) 0 r"
  define m where "m = (io_clear_interruption_timeout (io_start_interruption_timeout dc))
    \<lparr>sent := sent dc @ [pending dc], io_apdu_buffer := ?b, output_len := 0, disp_sw := 0\<rparr>"
  have l: "length r \<le> 260" "length (io_apdu_buffer dc) = 260"
    using assms(1) by (simp_all add: r_def io_ok_def IO_APDU_BUFFER_SIZE_def)
  have e: "process_interruption host dc =
     (case apdu_parser ?b (of_nat (length r)) of
        None \<Rightarrow> (False, SEND_SW SW_WRONG_DATA_LENGTH m)
      | Some cmd \<Rightarrow> if cmd_cla cmd \<noteq> CLA_FRAMEWORK \<or> cmd_ins cmd \<noteq> INS_CONTINUE then (False, SEND_SW SW_INCORRECT_DATA m)
          else (True, m\<lparr>read_buffer := buffer_create 0 (cmd_data cmd) (ucast (cmd_lc cmd))\<rparr>))"
    using Some
    by (cases dc) (simp add: ans_def process_interruption_def io_exchange_def Let_def io_start_interruption_timeout_def
        io_clear_interruption_timeout_def pending_def m_def r_def IO_APDU_BUFFER_SIZE_def split: option.split)
  have m: "io_ok m" "pending m = []" "sent m = sent dc @ [pending dc]" "disp_sw m = 0"
    using l by (simp_all add: m_def io_ok_def pending_def IO_APDU_BUFFER_SIZE_def splice_length)
  have "answer (drop 5 r) 0 (m\<lparr>read_buffer := buffer_create 0 p (ucast (r ! 4))\<rparr>)" if "continue_apdu r" for p
    using that m(1) l u8_less [of "r ! 4"]
    by (auto simp: answer_def continue_apdu_def m_def buffer_create_def io_ok_def splice_def unsigned_ucast_eq take_bit_eq_mod)
  then show ?thesis
    unfolding e apdu_parser_eq [OF l] Some option.inject r_def [symmetric] using m SEND_SW_eq [OF m(1,2)] r_def
    by (auto simp: continue_apdu_def)
qed

end
