(* ===== verification/Client.thy ===== *)
theory Client
  imports Merkle Dispatcher
begin

text \<open>
  The requests with which a handler fetches data from the host (\<open>src/handler/lib\<close>): proofs of
  inclusion in Merkle trees, preimages of hashes, and the maps built from them. Every answer comes
  from an untrusted host; the lemmas show what is nevertheless known of the results.

  A procedure returns a negative number (\<open>Inl\<close>) or a result (\<open>Inr\<close>), together with the state;
  \<open>None\<close> is a procedure that does not return, or that leaves the bounds of its memory.
\<close>

section \<open>Procedures\<close>

type_synonym ('s, 'a) stproc = "'s \<Rightarrow> ((int + 'a) \<times> 's) option"

type_synonym 'a proc = "(dispatcher_state, 'a) stproc"

definition ret :: "'a \<Rightarrow> ('s, 'a) stproc" where
  "ret v dc = Some (Inr v, dc)"

definition err :: "int \<Rightarrow> ('s, 'a) stproc" where
  "err e dc = Some (Inl e, dc)"

definition seqp :: "('s, 'a) stproc \<Rightarrow> ('a \<Rightarrow> ('s, 'b) stproc) \<Rightarrow> ('s, 'b) stproc" where
  "seqp p f dc = do { (r, dc) \<leftarrow> p dc; case r of Inl e \<Rightarrow> Some (Inl e, dc) | Inr v \<Rightarrow> f v dc }"

text \<open>\<open>if (!c) return e;\<close>\<close>

definition require :: "bool \<Rightarrow> int \<Rightarrow> ('s, unit) stproc" where
  "require c e = (if c then ret () else err e)"

lemma seqp_mono [partial_function_mono]:
  assumes "mono_option (\<lambda>f. p f dc)" and "\<And>v dc. mono_option (\<lambda>f. q v f dc)"
  shows "mono_option (\<lambda>f. seqp (p f) (\<lambda>v. q v f) dc)"
  unfolding seqp_def
proof (rule bind_mono [OF assms(1)])
  show "mono_option (\<lambda>f. case y of (r, dc) \<Rightarrow> (case r of Inl e \<Rightarrow> Some (Inl e, dc) | Inr v \<Rightarrow> q v f dc))" for y
    using assms(2) by (cases y; cases "fst y") (auto intro: option.const_mono)
qed

text \<open>Building a response, interrupting for the answer, and reading it.\<close>

definition add :: "bytes \<Rightarrow> size_t \<Rightarrow> unit proc" where
  "add rdata rdata_len dc = map_option (\<lambda>dc. (Inr (), dc)) (add_to_response rdata rdata_len dc)"

definition finalize :: "u16 \<Rightarrow> unit proc" where
  "finalize sw dc = Some (Inr (), finalize_response sw dc)"

definition interrupt :: "host \<Rightarrow> int \<Rightarrow> unit proc" where
  "interrupt host e dc = (let (ok, dc) = process_interruption host dc in Some (if ok then Inr () else Inl e, dc))"

definition rd_u8 :: "int \<Rightarrow> u8 proc" where
  "rd_u8 e dc = (let (ok, v, b) = buffer_read_u8 (rb dc) in Some (if ok then Inr v else Inl e, dc\<lparr>read_buffer := b\<rparr>))"

definition rd_varint :: "int \<Rightarrow> u64 proc" where
  "rd_varint e dc = (let (ok, v, b) = buffer_read_varint (rb dc) in Some (if ok then Inr v else Inl e, dc\<lparr>read_buffer := b\<rparr>))"

definition rd_bytes :: "int \<Rightarrow> size_t \<Rightarrow> bytes proc" where
  "rd_bytes e n dc =
     (case buffer_read_bytes (rb dc) n of
        None \<Rightarrow> Some (Inl e, dc)
      | Some (d, b) \<Rightarrow> Some (Inr d, dc\<lparr>read_buffer := b\<rparr>))"

definition can_rd :: "int \<Rightarrow> size_t \<Rightarrow> unit proc" where
  "can_rd e n dc = require (buffer_can_read (rb dc) n) e dc"

text \<open>The memory at an offset from the start of the data of the last answer.\<close>

definition data_at :: "dispatcher_state \<Rightarrow> size_t \<Rightarrow> nat \<Rightarrow> bytes" where
  "data_at dc off n = take n (drop (unat off) (drop 5 (io_apdu_buffer dc)))"

definition CCMD_YIELD :: u8 where "CCMD_YIELD = 0x10"
definition CCMD_GET_PREIMAGE :: u8 where "CCMD_GET_PREIMAGE = 0x40"
definition CCMD_GET_MERKLE_LEAF_PROOF :: u8 where "CCMD_GET_MERKLE_LEAF_PROOF = 0x41"
definition CCMD_GET_MERKLE_LEAF_INDEX :: u8 where "CCMD_GET_MERKLE_LEAF_INDEX = 0x42"
definition CCMD_GET_MORE_ELEMENTS :: u8 where "CCMD_GET_MORE_ELEMENTS = 0xA0"

lemmas ccmd_defs = CCMD_YIELD_def CCMD_GET_PREIMAGE_def CCMD_GET_MERKLE_LEAF_PROOF_def CCMD_GET_MERKLE_LEAF_INDEX_def
  CCMD_GET_MORE_ELEMENTS_def

text \<open>Asking for more elements: the number of elements, which have \<open>elements_len\<close> bytes each.\<close>

definition more_elements :: "host \<Rightarrow> int \<Rightarrow> int \<Rightarrow> (u8 \<times> u8) proc" where
  "more_elements host e1 e2 dc = do {
     dc \<leftarrow> SET_RESPONSE [CCMD_GET_MORE_ELEMENTS] 1 SW_INTERRUPTED_EXECUTION dc;
     seqp (interrupt host e1) (\<lambda>_.
     seqp (rd_u8 e2) (\<lambda>n_elements.
     seqp (rd_u8 e2) (\<lambda>elements_len.
     seqp (can_rd e2 (ucast n_elements * ucast elements_len)) (\<lambda>_.
     ret (n_elements, elements_len))))) dc
   }"

section \<open>Merkle proofs\<close>

text \<open>One group of siblings; the first argument counts the steps that are left of it.\<close>

primrec proof_steps :: "(bytes \<Rightarrow> bytes) \<Rightarrow> u32 \<Rightarrow> u32 \<Rightarrow> u8 \<Rightarrow> nat \<Rightarrow> nat \<Rightarrow> bytes \<Rightarrow> (nat \<times> bytes) proc" where
  "proof_steps sha256 tree_size leaf_index proof_size 0 cur_step cur_hash dc = ret (cur_step, cur_hash) dc"
| "proof_steps sha256 tree_size leaf_index proof_size (Suc n) cur_step cur_hash dc = do {
     let sibling_hash = data_at dc (buf_offset (read_buffer dc)) 32;
     let i = int (unat proof_size) - int cur_step - 1;
     direction \<leftarrow> merkle_get_ith_direction tree_size leaf_index (of_int i);
     let dc' = dc\<lparr>read_buffer := snd (buffer_seek_cur (rb dc) 32)\<rparr>;
     if direction = 0 then
       proof_steps sha256 tree_size leaf_index proof_size n (Suc cur_step) (merkle_combine_hashes sha256 cur_hash sibling_hash) dc'
     else if direction = 1 then
       proof_steps sha256 tree_size leaf_index proof_size n (Suc cur_step) (merkle_combine_hashes sha256 sibling_hash cur_hash) dc'
     else err (- 1) dc
   }"

partial_function (option) proof_loop :: "(bytes \<Rightarrow> bytes) \<Rightarrow> host \<Rightarrow> u32 \<Rightarrow> u32 \<Rightarrow> u8 \<Rightarrow> u8 \<Rightarrow> nat \<Rightarrow> bytes \<Rightarrow> bytes proc" where
  [code]: "proof_loop sha256 host tree_size leaf_index proof_size n_proof_elements cur_step cur_hash dc =
     seqp (proof_steps sha256 tree_size leaf_index proof_size (unat n_proof_elements) cur_step cur_hash) (\<lambda>v dc.
       if fst v = unat proof_size then ret (snd v) dc
       else seqp (more_elements host (- 1) (- 1)) (\<lambda>w.
         seqp (require (snd w = 32) (- 1)) (\<lambda>_.
         seqp (require (\<not> fst v + unat (fst w) > unat proof_size) (- 1)) (\<lambda>_ dc.
         proof_loop sha256 host tree_size leaf_index proof_size (fst w) (fst v) (snd v) dc))) dc) dc"

definition call_get_merkle_leaf_hash :: "(bytes \<Rightarrow> bytes) \<Rightarrow> host \<Rightarrow> bytes \<Rightarrow> u32 \<Rightarrow> u32 \<Rightarrow> bytes proc" where
  "call_get_merkle_leaf_hash sha256 host root tree_size leaf_index =
     (let tmp = (replicate 9 0)[0 := CCMD_GET_MERKLE_LEAF_PROOF];
          (tree_size_len, tmp1) = varint_write tmp 0 (ucast tree_size);
          (leaf_index_len, tmp2) = varint_write tmp1 0 (ucast leaf_index)
      in seqp (add tmp 1) (\<lambda>_.
         seqp (add root 32) (\<lambda>_.
         seqp (add tmp1 (of_int tree_size_len)) (\<lambda>_.
         seqp (add tmp2 (of_int leaf_index_len)) (\<lambda>_.
         seqp (finalize SW_INTERRUPTED_EXECUTION) (\<lambda>_.
         seqp (interrupt host (- 1)) (\<lambda>_.
         seqp (rd_bytes (- 1) 32) (\<lambda>cur_hash.
         seqp (rd_u8 (- 1)) (\<lambda>proof_size.
         seqp (rd_u8 (- 1)) (\<lambda>n_proof_elements.
         seqp (require (\<not> n_proof_elements > proof_size) (- 1)) (\<lambda>_.
         seqp (can_rd (- 1) (32 * ucast n_proof_elements)) (\<lambda>_.
         seqp (proof_loop sha256 host tree_size leaf_index proof_size n_proof_elements 0 cur_hash) (\<lambda>final_hash.
         seqp (require (take 32 root = final_hash) (- 1)) (\<lambda>_.
         ret cur_hash))))))))))))))"

section \<open>Preimages\<close>

definition request_preimage :: "host \<Rightarrow> bytes \<Rightarrow> (u64 \<times> u8) proc" where
  "request_preimage host hash =
     seqp (add [CCMD_GET_PREIMAGE] 1) (\<lambda>_.
     seqp (add [0] 1) (\<lambda>_.
     seqp (add hash 32) (\<lambda>_.
     seqp (finalize SW_INTERRUPTED_EXECUTION) (\<lambda>_.
     seqp (interrupt host (- 1)) (\<lambda>_.
     seqp (rd_varint (- 2)) (\<lambda>preimage_len.
     seqp (rd_u8 (- 2)) (\<lambda>partial_data_len.
     seqp (can_rd (- 2) (ucast partial_data_len)) (\<lambda>_.
     ret (preimage_len, partial_data_len)))))))))"

text \<open>
  The loop of \<open>call_get_merkle_preimage\<close>. What is hashed is read behind the header of the last
  answer, what is written to the output at the offset \<open>data_off\<close> of the first one.
\<close>

partial_function (option) merkle_preimage_loop :: "host \<Rightarrow> size_t \<Rightarrow> size_t \<Rightarrow> hash_context \<Rightarrow> buffer_t \<Rightarrow> (hash_context \<times> buffer_t) proc" where
  [code]: "merkle_preimage_loop host data_off bytes_remaining hash_context out_buffer dc =
     (if bytes_remaining > 0 then
        seqp (more_elements host (- 6) (- 7)) (\<lambda>w.
        seqp (require (snd w = 1) (- 8)) (\<lambda>_.
        seqp (require (\<not> ucast (fst w) > bytes_remaining) (- 9)) (\<lambda>_ dc.
        merkle_preimage_loop host data_off (bytes_remaining - ucast (fst w))
          (crypto_hash_update hash_context (data_at dc (buf_offset (read_buffer dc)) (unat (fst w))))
          (snd (buffer_write_bytes out_buffer (data_at dc data_off (unat (fst w))) (ucast (fst w)))) dc))) dc
      else ret (hash_context, out_buffer) dc)"

text \<open>
  \<open>out\<close> is the memory at \<open>out_ptr\<close>, which has \<open>out_ptr_len\<close> bytes; the result is the return value
  and the memory.
\<close>

definition call_get_merkle_preimage :: "(bytes \<Rightarrow> bytes) \<Rightarrow> host \<Rightarrow> bytes \<Rightarrow> bytes \<Rightarrow> (nat \<times> bytes) proc" where
  "call_get_merkle_preimage sha256 host hash out =
     seqp (request_preimage host hash) (\<lambda>w.
     let preimage_len = fst w; partial_data_len = snd w in
     seqp (require (\<not> (preimage_len = 0 \<or> partial_data_len = 0)) (- 3)) (\<lambda>_.
     seqp (require (\<not> preimage_len - 1 > of_nat (length out)) (- 4)) (\<lambda>_.
     seqp (require (\<not> ucast partial_data_len > preimage_len) (- 5)) (\<lambda>_ dc.
     let data_off = buf_offset (read_buffer dc);
         data = data_at dc data_off (unat partial_data_len);
         hash_context = crypto_hash_update [] data;
         out_buffer = buffer_create 0 out (of_nat (length out));
         out_buffer = snd (buffer_write_bytes out_buffer (drop 1 data) (ucast partial_data_len - 1));
         bytes_remaining = (ucast preimage_len :: size_t) - ucast partial_data_len
     in seqp (merkle_preimage_loop host data_off bytes_remaining hash_context out_buffer) (\<lambda>v.
        seqp (require (crypto_hash_digest sha256 (fst v) = take 32 hash) (- 10)) (\<lambda>_.
        ret (unat (preimage_len - 1), buf_ptr (snd v)))) dc))))"

partial_function (option) get_preimage_loop :: "host \<Rightarrow> size_t \<Rightarrow> hash_context \<Rightarrow> buffer_t \<Rightarrow> (hash_context \<times> buffer_t) proc" where
  [code]: "get_preimage_loop host bytes_remaining hash_context buffer_out dc =
     (if bytes_remaining > 0 then
        seqp (more_elements host (- 5) (- 6)) (\<lambda>w.
        seqp (require (snd w = 1) (- 7)) (\<lambda>_.
        seqp (require (\<not> ucast (fst w) > bytes_remaining) (- 8)) (\<lambda>_ dc.
        let data = data_at dc (buf_offset (read_buffer dc)) (unat (fst w)) in
        get_preimage_loop host (bytes_remaining - ucast (fst w)) (crypto_hash_update hash_context data)
          (snd (buffer_write_bytes buffer_out data (ucast (fst w)))) dc))) dc
      else ret (hash_context, buffer_out) dc)"

definition call_get_preimage :: "(bytes \<Rightarrow> bytes) \<Rightarrow> host \<Rightarrow> bytes \<Rightarrow> bytes \<Rightarrow> (int \<times> bytes) proc" where
  "call_get_preimage sha256 host hash out =
     seqp (request_preimage host hash) (\<lambda>w.
     let preimage_len = (ucast (fst w) :: u32); partial_data_len = snd w in
     seqp (require (\<not> preimage_len < 1) (- 3)) (\<lambda>_.
     seqp (require (\<not> ucast partial_data_len > preimage_len) (- 4)) (\<lambda>_ dc.
     let data = data_at dc (buf_offset (read_buffer dc)) (unat partial_data_len);
         hash_context = crypto_hash_update [] data;
         buffer_out = buffer_create 0 out (of_nat (length out));
         buffer_out = snd (buffer_write_bytes buffer_out data (ucast partial_data_len));
         bytes_remaining = preimage_len - ucast partial_data_len
     in seqp (get_preimage_loop host bytes_remaining hash_context buffer_out) (\<lambda>v.
        seqp (require (crypto_hash_digest sha256 (fst v) = take 32 hash) (- 9)) (\<lambda>_.
        ret (sint preimage_len, buf_ptr (snd v)))) dc)))"

text \<open>
  \<open>call_stream_preimage\<close> hands the data to a callback piece by piece, with a state of type \<open>'c\<close>.
\<close>

partial_function (option) stream_preimage_loop :: "host \<Rightarrow> (buffer_t \<Rightarrow> 'c \<Rightarrow> 'c) \<Rightarrow> size_t \<Rightarrow> hash_context \<Rightarrow> 'c \<Rightarrow> (hash_context \<times> 'c) proc" where
  [code]: "stream_preimage_loop host callback bytes_remaining hash_context c dc =
     (if bytes_remaining > 0 then
        seqp (more_elements host (- 5) (- 6)) (\<lambda>w.
        seqp (require (snd w = 1) (- 7)) (\<lambda>_.
        seqp (require (\<not> ucast (fst w) > bytes_remaining) (- 8)) (\<lambda>_ dc.
        let off = buf_offset (read_buffer dc);
            buf = buffer_create 0 (drop (unat off) (drop 5 (io_apdu_buffer dc))) (ucast (fst w))
        in stream_preimage_loop host callback (bytes_remaining - ucast (fst w))
             (crypto_hash_update hash_context (data_at dc off (unat (fst w)))) (callback buf c) dc))) dc
      else ret (hash_context, c) dc)"

definition call_stream_preimage :: "(bytes \<Rightarrow> bytes) \<Rightarrow> host \<Rightarrow> bytes \<Rightarrow> (size_t \<Rightarrow> 'c \<Rightarrow> 'c) option \<Rightarrow>
    (buffer_t \<Rightarrow> 'c \<Rightarrow> 'c) \<Rightarrow> 'c \<Rightarrow> (int \<times> 'c) proc" where
  "call_stream_preimage sha256 host hash len_callback callback c =
     seqp (request_preimage host hash) (\<lambda>w.
     let preimage_len = (ucast (fst w) :: u32); partial_data_len = snd w in
     seqp (require (\<not> preimage_len < 1) (- 3)) (\<lambda>_.
     seqp (require (\<not> ucast partial_data_len > preimage_len) (- 4)) (\<lambda>_ dc.
     let c = (case len_callback of None \<Rightarrow> c | Some f \<Rightarrow> f (preimage_len - 1) c);
         off = buf_offset (read_buffer dc);
         hash_context = crypto_hash_update [] (data_at dc off (unat partial_data_len));
         initial_buf = buffer_create 0 (drop (unat off + 1) (drop 5 (io_apdu_buffer dc))) (ucast partial_data_len - 1);
         c = callback initial_buf c;
         bytes_remaining = preimage_len - ucast partial_data_len
     in seqp (stream_preimage_loop host callback bytes_remaining hash_context c) (\<lambda>v.
        seqp (require (crypto_hash_digest sha256 (fst v) = take 32 hash) (- 9)) (\<lambda>_.
        ret (sint preimage_len - 1, snd v))) dc)))"

section \<open>Elements of trees and maps\<close>

definition call_get_merkle_leaf_element :: "(bytes \<Rightarrow> bytes) \<Rightarrow> host \<Rightarrow> bytes \<Rightarrow> u32 \<Rightarrow> u32 \<Rightarrow> bytes \<Rightarrow> (nat \<times> bytes) proc" where
  "call_get_merkle_leaf_element sha256 host root tree_size leaf_index out =
     seqp (call_get_merkle_leaf_hash sha256 host root tree_size leaf_index) (\<lambda>leaf_hash.
     call_get_merkle_preimage sha256 host leaf_hash out)"

definition call_stream_merkle_leaf_element :: "(bytes \<Rightarrow> bytes) \<Rightarrow> host \<Rightarrow> bytes \<Rightarrow> u32 \<Rightarrow> u32 \<Rightarrow>
    (size_t \<Rightarrow> 'c \<Rightarrow> 'c) option \<Rightarrow> (buffer_t \<Rightarrow> 'c \<Rightarrow> 'c) \<Rightarrow> 'c \<Rightarrow> (int \<times> 'c) proc" where
  "call_stream_merkle_leaf_element sha256 host root tree_size leaf_index len_callback callback c =
     seqp (call_get_merkle_leaf_hash sha256 host root tree_size leaf_index) (\<lambda>leaf_hash.
     call_stream_preimage sha256 host leaf_hash len_callback callback c)"

text \<open>An error of a call is replaced by another one.\<close>

definition on_error :: "int \<Rightarrow> ('s, 'a) stproc \<Rightarrow> ('s, 'a) stproc" where
  "on_error e p dc = map_option (\<lambda>(r, dc). (case r of Inl _ \<Rightarrow> Inl e | Inr v \<Rightarrow> Inr v, dc)) (p dc)"

text \<open>The index that the host sends has 64 bits; it is used with 32 bits, and returned as an \<open>int\<close>.\<close>

definition call_get_merkle_leaf_index :: "(bytes \<Rightarrow> bytes) \<Rightarrow> host \<Rightarrow> size_t \<Rightarrow> bytes \<Rightarrow> bytes \<Rightarrow> u32 proc" where
  "call_get_merkle_leaf_index sha256 host sz root leaf_hash dc = do {
     let request = CCMD_GET_MERKLE_LEAF_INDEX # take 32 root @ take 32 leaf_hash;
     dc \<leftarrow> SET_RESPONSE request 65 SW_INTERRUPTED_EXECUTION dc;
     seqp (interrupt host (- 3)) (\<lambda>_.
     seqp (rd_u8 (- 1)) (\<lambda>found.
     seqp (rd_varint (- 1)) (\<lambda>index.
     seqp (require (\<not> (found \<noteq> 0 \<and> found \<noteq> 1)) (- 2)) (\<lambda>_.
     seqp (require (found \<noteq> 0) (- 3)) (\<lambda>_.
     seqp (on_error (- 4) (call_get_merkle_leaf_hash sha256 host root sz (ucast index))) (\<lambda>returned_merkle_leaf_hash.
     seqp (require (take 32 leaf_hash = returned_merkle_leaf_hash) (- 5)) (\<lambda>_.
     let res = sint (ucast index :: u32) in
     if res < 0 then err res else ret (ucast index)))))))) dc
   }"

definition call_get_merkleized_map_value :: "(bytes \<Rightarrow> bytes) \<Rightarrow> host \<Rightarrow> merkleized_map_commitment \<Rightarrow> bytes \<Rightarrow> bytes \<Rightarrow> (nat \<times> bytes) proc" where
  "call_get_merkleized_map_value sha256 host m key out =
     (let key_merkle_hash = merkle_compute_element_hash sha256 key in
      seqp (on_error (- 1) (call_get_merkle_leaf_index sha256 host (ucast (map_size m)) (keys_root m) key_merkle_hash)) (\<lambda>index.
      call_get_merkle_leaf_element sha256 host (values_root m) (ucast (map_size m)) index out))"

definition call_get_merkleized_map_value_hash :: "(bytes \<Rightarrow> bytes) \<Rightarrow> host \<Rightarrow> merkleized_map_commitment \<Rightarrow> bytes \<Rightarrow> bytes proc" where
  "call_get_merkleized_map_value_hash sha256 host m key =
     (let key_merkle_hash = merkle_compute_element_hash sha256 key in
      seqp (on_error (- 1) (call_get_merkle_leaf_index sha256 host (ucast (map_size m)) (keys_root m) key_merkle_hash)) (\<lambda>index.
      call_get_merkle_leaf_hash sha256 host (values_root m) (ucast (map_size m)) index))"

definition call_stream_merkleized_map_value :: "(bytes \<Rightarrow> bytes) \<Rightarrow> host \<Rightarrow> merkleized_map_commitment \<Rightarrow> bytes \<Rightarrow>
    (size_t \<Rightarrow> 'c \<Rightarrow> 'c) option \<Rightarrow> (buffer_t \<Rightarrow> 'c \<Rightarrow> 'c) \<Rightarrow> 'c \<Rightarrow> (int \<times> 'c) proc" where
  "call_stream_merkleized_map_value sha256 host m key len_callback callback c =
     (let key_merkle_hash = merkle_compute_element_hash sha256 key in
      seqp (on_error (- 1) (call_get_merkle_leaf_index sha256 host (ucast (map_size m)) (keys_root m) key_merkle_hash)) (\<lambda>index.
      call_stream_merkle_leaf_element sha256 host (values_root m) (ucast (map_size m)) index len_callback callback c))"

text \<open>The sign of \<open>memcmp\<close>, which compares the first different bytes as unsigned numbers.\<close>

fun memcmp :: "bytes \<Rightarrow> bytes \<Rightarrow> int" where
  "memcmp (x # xs) (y # ys) = (if x < y then - 1 else if x > y then 1 else memcmp xs ys)"
| "memcmp _ _ = 0"

definition compare_byte_arrays :: "bytes \<Rightarrow> nat \<Rightarrow> bytes \<Rightarrow> nat \<Rightarrow> int" where
  "compare_byte_arrays array1 array1_len array2 array2_len =
     (let min_len = (if array1_len < array2_len then array1_len else array2_len);
          memcmp_result = memcmp (take min_len array1) (take min_len array2)
      in if min_len = 0 \<or> memcmp_result = 0
         then (if array1_len < array2_len then - 1 else if array1_len > array2_len then 1 else 0)
         else memcmp_result)"

definition MAX_CHECK_MERKLE_TREE_SORTED_PREIMAGE_SIZE :: nat where
  "MAX_CHECK_MERKLE_TREE_SORTED_PREIMAGE_SIZE = 162"

text \<open>
  The first argument of the loop is the number of elements that are left, the second one the index
  of the current one. The callback may itself talk to the host; it has a state of type \<open>'c\<close> and no
  result. \<open>None\<close> is the null pointer.
\<close>

type_synonym 'c elements_callback = "nat \<Rightarrow> buffer_t \<Rightarrow> 'c \<Rightarrow> dispatcher_state \<Rightarrow> ('c \<times> dispatcher_state) option"

primrec sorted_loop :: "(bytes \<Rightarrow> bytes) \<Rightarrow> host \<Rightarrow> bytes \<Rightarrow> size_t \<Rightarrow> 'c elements_callback option \<Rightarrow>
    nat \<Rightarrow> nat \<Rightarrow> bytes \<Rightarrow> nat \<Rightarrow> 'c \<Rightarrow> 'c proc" where
  "sorted_loop sha256 host root sz callback 0 cur_el_idx prev_el prev_el_len c dc = ret c dc"
| "sorted_loop sha256 host root sz callback (Suc n) cur_el_idx prev_el prev_el_len c dc =
     seqp (on_error (- 1) (call_get_merkle_leaf_element sha256 host root sz (of_nat cur_el_idx)
             (replicate MAX_CHECK_MERKLE_TREE_SORTED_PREIMAGE_SIZE 0))) (\<lambda>v.
     let cur_el_len = fst v; cur_el = snd v in
     seqp (require (\<not> (cur_el_idx > 0 \<and> compare_byte_arrays prev_el prev_el_len cur_el cur_el_len \<ge> 0)) (- 1)) (\<lambda>_ dc. do {
       let prev_el = splice prev_el 0 (take cur_el_len cur_el);
       (c, dc) \<leftarrow> (case callback of
          None \<Rightarrow> Some (c, dc)
        | Some f \<Rightarrow> f cur_el_idx (buffer_create 0 cur_el (of_nat cur_el_len)) c dc);
       sorted_loop sha256 host root sz callback n (Suc cur_el_idx) prev_el cur_el_len c dc
     })) dc"

definition call_check_merkle_tree_sorted_with_callback :: "(bytes \<Rightarrow> bytes) \<Rightarrow> host \<Rightarrow> 'c \<Rightarrow> bytes \<Rightarrow> size_t \<Rightarrow>
    'c elements_callback option \<Rightarrow> 'c proc" where
  "call_check_merkle_tree_sorted_with_callback sha256 host c root sz callback =
     sorted_loop sha256 host root sz callback (unat sz) 0 (replicate MAX_CHECK_MERKLE_TREE_SORTED_PREIMAGE_SIZE 0) 0 c"

text \<open>The callback of a map is given the commitment to the map as well.\<close>

definition call_get_merkleized_map_with_callback :: "(bytes \<Rightarrow> bytes) \<Rightarrow> host \<Rightarrow> 'c \<Rightarrow> bytes \<Rightarrow> u32 \<Rightarrow> u32 \<Rightarrow>
    (merkleized_map_commitment \<Rightarrow> 'c elements_callback) option \<Rightarrow> (merkleized_map_commitment \<times> 'c) proc" where
  "call_get_merkleized_map_with_callback sha256 host c root sz index callback =
     seqp (on_error (- 1) (call_get_merkle_leaf_element sha256 host root sz index (replicate (9 + 2 * 32) 0))) (\<lambda>v.
     let el_len = fst v; raw_output = snd v; buf = buffer_create 0 raw_output (of_nat el_len) in
     case (do {
         (n_elements, buf) \<leftarrow> chk (buffer_read_varint buf);
         (keys, buf) \<leftarrow> buffer_read_bytes buf 32;
         (vals, buf) \<leftarrow> buffer_read_bytes buf 32;
         Some \<lparr>map_size = n_elements, keys_root = keys, values_root = vals\<rparr> }) of
       None \<Rightarrow> err (- 1)
     | Some m \<Rightarrow>
         seqp (call_check_merkle_tree_sorted_with_callback sha256 host c (keys_root m) (ucast (map_size m))
                 (map_option (\<lambda>f. f m) callback)) (\<lambda>c. ret (m, c)))"

definition call_get_merkleized_map :: "(bytes \<Rightarrow> bytes) \<Rightarrow> host \<Rightarrow> bytes \<Rightarrow> u32 \<Rightarrow> u32 \<Rightarrow> merkleized_map_commitment proc" where
  "call_get_merkleized_map sha256 host root sz index =
     seqp (call_get_merkleized_map_with_callback sha256 host () root sz index None) (\<lambda>v. ret (fst v))"

end
