(* ===== verification/Policy_Keys.thy ===== *)
theory Policy_Keys
  imports Keys Policy_Script Client
begin

text \<open>
  The keys of a wallet policy: the parser of key information (\<open>parse_policy_map_key_info\<close> of
  \<open>src/common/wallet.c\<close>), and from \<open>src/handler/lib/policy.c\<close> the reading of a policy, the derivation
  of its public keys, the enumeration of its placeholders, the sanity checks of a policy, the test
  for the standard policies that need no registration, and the registration codes.
\<close>

section \<open>The surroundings of the application\<close>

text \<open>
  The operating system, the host and the user, and what the uninitialised memory of a device holds.
  A screen has the texts that it shows. \<open>e_user\<close> answers the last of a list of screens. \<open>e_mem\<close> is a stretch of memory that an uninitialised
  array may hold, \<open>e_beyond\<close> the one behind the table of \<open>compute_thresh_ops\<close>, \<open>e_junk\<close> the
  uninitialised byte of \<open>process_multi_a_sortedmulti_a_node\<close>, and \<open>e_addr\<close> the address of the array
  for a parsed policy.
\<close>

datatype screen =
    Screen_pubkey bytes bytes
  | Screen_pubkey_suspicious bytes bytes
  | Screen_message_hash bytes bytes
  | Screen_register_wallet bytes bytes
  | Screen_cosigner_pubkey bytes bytes
  | Screen_default_wallet_address bytes
  | Screen_receive_in_wallet bytes bytes
  | Screen_spend_from_wallet bytes
  | Screen_warning_external_inputs
  | Screen_unverified_segwit_inputs
  | Screen_nondefault_sighash
  | Screen_output int bytes bytes
  | Screen_output_no_index bytes bytes
  | Screen_warn_high_fee
  | Screen_accept_transaction bytes bool

record swap_state =
  swap_called :: bool
  swap_amount :: u64
  swap_fees :: u64
  swap_destination_address :: bytes

record env =
  e_hf :: hash_fns
  e_cx :: cx_ops
  e_os :: key_ops
  e_coin :: coin
  e_host :: host
  e_user :: "screen list \<Rightarrow> bool"
  e_pin_validated :: bool
  e_swap :: swap_state
  e_sizes :: node_sizes
  e_addr :: u32
  e_mem :: bytes
  e_beyond :: "nat \<Rightarrow> int"
  e_junk :: u8

definition uninit :: "env \<Rightarrow> nat \<Rightarrow> bytes" where
  "uninit E n = take n (e_mem E @ replicate n 0)"

abbreviation sha :: "env \<Rightarrow> bytes \<Rightarrow> bytes" where
  "sha E \<equiv> cx_hash_sha256 (e_hf E)"

section \<open>Key information\<close>

record policy_map_key_info =
  ki_master_key_derivation :: "u32 list"
  ki_master_key_fingerprint :: bytes
  ki_has_key_origin :: bool
  ki_has_wildcard :: bool
  ki_ext_pubkey :: serialized_extended_pubkey

definition MAX_SERIALIZED_PUBKEY_LENGTH :: nat where "MAX_SERIALIZED_PUBKEY_LENGTH = 113"
definition MAX_POLICY_KEY_INFO_LEN :: nat where "MAX_POLICY_KEY_INFO_LEN = 46 + MAX_SERIALIZED_PUBKEY_LENGTH + 3"

primrec fingerprint_loop :: "nat \<Rightarrow> buffer_t \<Rightarrow> (bytes \<times> buffer_t) option" where
  "fingerprint_loop 0 buffer = Some ([], buffer)"
| "fingerprint_loop (Suc n) buffer = do {
     (num, buffer) \<leftarrow> buffer_read_bytes buffer 2;
     guard (\<not> (\<not> is_lowercase_hex (num ! 0) \<or> \<not> is_lowercase_hex (num ! 1)));
     (out, buffer) \<leftarrow> fingerprint_loop n buffer;
     Some ((16 * lowercase_hex_to_int (num ! 0) + lowercase_hex_to_int (num ! 1)) # out, buffer)
   }"

text \<open>
  The first argument is the number of steps that may still be read: the test
  \<open>master_key_derivation_len > MAX_BIP32_PATH_STEPS\<close> lets nine of them pass.
\<close>

primrec derivation_loop :: "nat \<Rightarrow> buffer_t \<Rightarrow> (u32 list \<times> buffer_t) option" where
  "derivation_loop 0 buffer =
     (case consume_character buffer (ch CHR ''/'') of
        (True, _) \<Rightarrow> None
      | (False, buffer) \<Rightarrow> Some ([], buffer))"
| "derivation_loop (Suc n) buffer =
     (case consume_character buffer (ch CHR ''/'') of
        (False, buffer) \<Rightarrow> Some ([], buffer)
      | (True, buffer) \<Rightarrow> do {
          (der_step, buffer) \<leftarrow> buffer_read_derivation_step buffer;
          (steps, buffer) \<leftarrow> derivation_loop n buffer;
          Some (der_step # steps, buffer)
        })"

primrec pubkey_loop :: "nat \<Rightarrow> buffer_t \<Rightarrow> bytes \<times> buffer_t" where
  "pubkey_loop 0 buffer = ([], buffer)"
| "pubkey_loop (Suc n) buffer =
     (case buffer_peek buffer of
        None \<Rightarrow> ([], buffer)
      | Some c \<Rightarrow>
          if is_alphanumeric c then
            let (s, buffer) = pubkey_loop n (snd (buffer_seek_cur buffer 1)) in (c # s, buffer)
          else ([], buffer))"

text \<open>
  The ninth derivation step is written behind its array, over the fingerprint that follows in the
  structure. \<open>ext_pubkey_check\<close> is not initialised, and \<open>base58_decode\<close> may write less than its 82 bytes.
  A string of 113 characters is terminated one byte behind its array before it is rejected.
\<close>

definition parse_policy_map_key_info :: "env \<Rightarrow> buffer_t \<Rightarrow> int \<Rightarrow> policy_map_key_info option" where
  "parse_policy_map_key_info E buffer version = do {
     guard (\<not> (version \<noteq> WALLET_POLICY_VERSION_V1 \<and> version \<noteq> WALLET_POLICY_VERSION_V2));
     let (has_key_origin, buffer) = consume_character buffer (ch CHR ''['');
     (fingerprint, derivation, buffer) \<leftarrow>
       (if has_key_origin then do {
          guard (buffer_can_read buffer 9);
          (fingerprint, buffer) \<leftarrow> fingerprint_loop 4 buffer;
          (derivation, buffer) \<leftarrow> derivation_loop (Suc MAX_BIP32_PATH_STEPS) buffer;
          let fingerprint = (if length derivation > MAX_BIP32_PATH_STEPS
            then write_u32_le (replicate 4 0) 0 (derivation ! MAX_BIP32_PATH_STEPS) else fingerprint);
          buffer \<leftarrow> chkb (consume_character buffer (ch CHR '']''));
          Some (fingerprint, derivation, buffer)
        } else Some (replicate 4 0, [], buffer));
     let (ext_pubkey_str, buffer) = pubkey_loop MAX_SERIALIZED_PUBKEY_LENGTH buffer;
     guard (\<not> (length ext_pubkey_str < 111 \<or> length ext_pubkey_str > 112));
     decoded \<leftarrow> base58_decode ext_pubkey_str 82;
     let ext_pubkey_check = splice (uninit E 82) 0 decoded;
     guard (take 4 (drop 78 ext_pubkey_check) = crypto_get_checksum (e_hf E) (take 78 ext_pubkey_check));
     let info = \<lparr>ki_master_key_derivation = derivation, ki_master_key_fingerprint = fingerprint,
                 ki_has_key_origin = has_key_origin, ki_has_wildcard = False,
                 ki_ext_pubkey = xpub_of_bytes (take 78 ext_pubkey_check)\<rparr>;
     if \<not> buffer_can_read buffer 1 then do {
       guard (version \<noteq> WALLET_POLICY_VERSION_V1);
       Some info
     } else do {
       guard (version \<noteq> WALLET_POLICY_VERSION_V2);
       (wildcard, buffer) \<leftarrow> buffer_read_bytes buffer 3;
       guard (\<not> buffer_can_read buffer 1 \<and> wildcard = str ''/**'');
       Some (info\<lparr>ki_has_wildcard := True\<rparr>)
     }
   }"

section \<open>Derivation of the keys of a policy\<close>

text \<open>A result of -1 is an error; the code goes on with any other negative result.\<close>

definition only_minus_1 :: "('s, 'a) stproc \<Rightarrow> ('s, 'a) stproc" where
  "only_minus_1 p s = (case p s of Some (Inl e, s) \<Rightarrow> if e = - 1 then Some (Inl e, s) else None | r \<Rightarrow> r)"

definition of_option :: "int \<Rightarrow> 'a option \<Rightarrow> ('s, 'a) stproc" where
  "of_option e x = (case x of None \<Rightarrow> err e | Some v \<Rightarrow> ret v)"

record wallet_derivation_info =
  wdi_wallet_version :: int
  wdi_keys_merkle_root :: bytes
  wdi_n_keys :: u32
  wdi_address_index :: u32
  wdi_change :: bool

definition key_info_element :: "env \<Rightarrow> bytes \<Rightarrow> u32 \<Rightarrow> u32 \<Rightarrow> buffer_t proc" where
  "key_info_element E root n_keys index =
     seqp (call_get_merkle_leaf_element (sha E) (e_host E) root n_keys index (uninit E MAX_POLICY_KEY_INFO_LEN)) (\<lambda>v.
     ret (buffer_create 0 (snd v) (of_nat (fst v))))"

definition get_extended_pubkey :: "env \<Rightarrow> wallet_derivation_info \<Rightarrow> u32 \<Rightarrow> serialized_extended_pubkey proc" where
  "get_extended_pubkey E wdi index =
     seqp (only_minus_1 (key_info_element E (wdi_keys_merkle_root wdi) (wdi_n_keys wdi) index)) (\<lambda>key_info_buffer.
     seqp (of_option (- 1) (parse_policy_map_key_info E key_info_buffer (wdi_wallet_version wdi))) (\<lambda>key_info.
     ret (ki_ext_pubkey key_info)))"

text \<open>The result of \<open>bip32_CKDpub\<close> is not looked at; when it fails, the key stays as it was.\<close>

definition CKDpub_in_place :: "env \<Rightarrow> u32 \<Rightarrow> serialized_extended_pubkey \<Rightarrow> serialized_extended_pubkey" where
  "CKDpub_in_place E index k =
     (case bip32_CKDpub (e_cx E) (e_hf E) (e_os E) (uninit E 65) (xpub_compressed_pubkey k) k index of
        None \<Rightarrow> k | Some child \<Rightarrow> child)"

definition get_derived_pubkey :: "env \<Rightarrow> wallet_derivation_info \<Rightarrow> key_placeholder \<Rightarrow> bytes proc" where
  "get_derived_pubkey E wdi kp =
     seqp (get_extended_pubkey E wdi (of_nat (key_index kp))) (\<lambda>ext_pubkey.
     let ext_pubkey = CKDpub_in_place E (if wdi_change wdi then num_second kp else num_first kp) ext_pubkey;
         ext_pubkey = CKDpub_in_place E (wdi_address_index wdi) ext_pubkey
     in ret (take 33 (xpub_compressed_pubkey ext_pubkey)))"

text \<open>
  The derivation as the generator of scripts uses it, and its results as procedures. For the generator
  a derivation that leaves the bounds of its memory is one that fails.
\<close>

definition derive_pubkey_of :: "env \<Rightarrow> wallet_derivation_info \<Rightarrow> dispatcher_state derive_pubkey" where
  "derive_pubkey_of E wdi kp dc =
     (case get_derived_pubkey E wdi kp dc of Some (Inr pubkey, dc) \<Rightarrow> Some (pubkey, dc) | _ \<Rightarrow> None)"

text \<open>
  After an error the state is the one before: the caller only sends a status word then.
\<close>

definition of_nested :: "(dispatcher_state \<Rightarrow> ('a \<times> dispatcher_state) option option) \<Rightarrow> 'a proc" where
  "of_nested f dc =
     (case f dc of None \<Rightarrow> None | Some None \<Rightarrow> Some (Inl (- 1), dc) | Some (Some (v, dc)) \<Rightarrow> Some (Inr v, dc))"

definition wallet_script :: "env \<Rightarrow> wallet_derivation_info \<Rightarrow> policy_node \<Rightarrow> bytes proc" where
  "wallet_script E wdi policy =
     of_nested (\<lambda>dc. map_option (map_option (\<lambda>(len, out, dc). (take len out, dc)))
       (get_wallet_script (e_cx E) (derive_pubkey_of E wdi) (e_hf E) (e_junk E) policy (uninit E 34) dc))"

definition MAX_DESCRIPTOR_TEMPLATE_LENGTH :: nat where "MAX_DESCRIPTOR_TEMPLATE_LENGTH = 512"
definition MAX_WALLET_POLICY_BYTES :: nat where "MAX_WALLET_POLICY_BYTES = 768"
definition MAX_WALLET_POLICY_SERIALIZED_LENGTH :: nat where "MAX_WALLET_POLICY_SERIALIZED_LENGTH = 1 + 1 + 64 + 9 + 32 + 9 + 32"

text \<open>
  The length of the preimage is not looked at: the template is as long as the header says.
\<close>

definition read_and_parse_wallet_policy :: "env \<Rightarrow> buffer_t \<Rightarrow> (policy_map_wallet_header \<times> bytes \<times> policy_node) proc" where
  "read_and_parse_wallet_policy E buf =
     seqp (of_option (- 1) (read_wallet_policy_header buf)) (\<lambda>(wallet_header, _).
     seqp (if uint (hdr_version wallet_header) = WALLET_POLICY_VERSION_V1
           then ret (splice (uninit E MAX_DESCRIPTOR_TEMPLATE_LENGTH) 0
                  (take (unat (hdr_descriptor_template_len wallet_header)) (hdr_descriptor wallet_header)))
           else on_error (- 1) (seqp (call_get_preimage (sha E) (e_host E) (hdr_descriptor wallet_header)
                  (uninit E MAX_DESCRIPTOR_TEMPLATE_LENGTH)) (\<lambda>v.
                  seqp (require (\<not> fst v < 0) (- 1)) (\<lambda>_. ret (snd v))))) (\<lambda>descriptor_template.
     let policy_map_buffer = buffer_create 0 descriptor_template (ucast (hdr_descriptor_template_len wallet_header)) in
     seqp (of_option (- 1) (parse_descriptor_template (e_sizes E) policy_map_buffer (e_addr E)
             (uninit E MAX_WALLET_POLICY_BYTES) (of_nat MAX_WALLET_POLICY_BYTES) (uint (hdr_version wallet_header)))) (\<lambda>(policy, _).
     ret (wallet_header, descriptor_template, policy))))"

section \<open>Standard policies\<close>

fun purpose_and_key :: "policy_node \<Rightarrow> (int \<times> key_placeholder) option" where
  "purpose_and_key (Node_with_key t _ kp) =
     (if t = TOKEN_PKH then Some (44, kp) else if t = TOKEN_WPKH then Some (84, kp) else None)"
| "purpose_and_key (Node_with_script t _ (Node_with_key t' _ kp)) =
     (if t = TOKEN_SH \<and> t' = TOKEN_WPKH then Some (49, kp) else None)"
| "purpose_and_key (Node_tr t _ kp None) = (if t = TOKEN_TR then Some (86, kp) else None)"
| "purpose_and_key _ = None"

definition get_bip44_purpose :: "policy_node \<Rightarrow> int" where
  "get_bip44_purpose descriptor_template =
     (case purpose_and_key descriptor_template of
        None \<Rightarrow> - 1
      | Some (purpose, kp) \<Rightarrow>
          if key_index kp \<noteq> 0 \<or> num_first kp \<noteq> 0 \<or> num_second kp \<noteq> 1 then - 1 else purpose)"

text \<open>An error is the result \<open>false\<close>.\<close>

definition is_wallet_policy_standard :: "env \<Rightarrow> policy_map_wallet_header \<Rightarrow> policy_node \<Rightarrow> unit proc" where
  "is_wallet_policy_standard E wallet_policy_header descriptor_template =
     (let bip44_purpose = get_bip44_purpose descriptor_template in
      seqp (require (\<not> bip44_purpose < 0) (- 1)) (\<lambda>_.
      seqp (require (hdr_n_keys wallet_policy_header = 1) (- 1)) (\<lambda>_.
      let master_key_fingerprint = crypto_get_master_key_fingerprint (e_hf E) (e_os E) (uninit E 33) (e_coin E) in
      seqp (on_error (- 1) (key_info_element E (hdr_keys_info_merkle_root wallet_policy_header)
              (hdr_n_keys wallet_policy_header) 0)) (\<lambda>key_info_buffer.
      seqp (of_option (- 1) (parse_policy_map_key_info E key_info_buffer (uint (hdr_version wallet_policy_header)))) (\<lambda>key_info.
      seqp (require (ki_has_key_origin key_info) (- 1)) (\<lambda>_.
      seqp (require (read_u32_be (ki_master_key_fingerprint key_info) 0 = master_key_fingerprint) (- 1)) (\<lambda>_.
      seqp (of_option (- 1) (get_extended_pubkey_at_path (e_hf E) (e_os E) (ki_master_key_derivation key_info)
              (BIP32_PUBKEY_VERSION (e_coin E)))) (\<lambda>derived_pubkey.
      seqp (require (xpub_bytes (ki_ext_pubkey key_info) = xpub_bytes derived_pubkey) (- 1)) (\<lambda>_.
      let path = ki_master_key_derivation key_info; H = BIP32_FIRST_HARDENED_CHILD in
      require (\<not> (length path \<noteq> 3 \<or> path ! 0 \<noteq> H + of_int bip44_purpose \<or> path ! 1 \<noteq> H + BIP44_COIN_TYPE (e_coin E) \<or>
                path ! 2 < H \<or> path ! 2 > H + MAX_BIP44_ACCOUNT_RECOMMENDED)) (- 1))))))))))"

section \<open>Registration codes\<close>

definition WALLET_SLIP0021_LABEL :: bytes where
  "WALLET_SLIP0021_LABEL = 0 # str ''LEDGER-Wallet policy''"

definition compute_wallet_hmac :: "key_ops \<Rightarrow> bytes \<Rightarrow> bytes option" where
  "compute_wallet_hmac os wallet_id = do {
     key \<leftarrow> crypto_derive_symmetric_key os WALLET_SLIP0021_LABEL;
     Some (cx_hmac_sha256 os key (take 32 wallet_id))
   }"

definition check_wallet_hmac :: "key_ops \<Rightarrow> bytes \<Rightarrow> bytes \<Rightarrow> bool" where
  "check_wallet_hmac os wallet_id wallet_hmac =
     (case crypto_derive_symmetric_key os WALLET_SLIP0021_LABEL of
        None \<Rightarrow> False
      | Some key \<Rightarrow> take 32 wallet_hmac = cx_hmac_sha256 os key (take 32 wallet_id))"

section \<open>Placeholders\<close>

text \<open>
  The result has the number of placeholders, what is written to \<open>out_placeholder\<close> and the leaf that
  is written to \<open>out_tapleaf_ptr\<close>; \<open>None\<close> is -1. Where the code passes \<open>NULL\<close> because the
  placeholder was found already, the parts of the second result are dropped.
\<close>

type_synonym placeholder_result = "nat \<times> key_placeholder option \<times> policy_node option"

definition then_placeholder :: "nat \<Rightarrow> placeholder_result option \<Rightarrow> (nat \<Rightarrow> placeholder_result option) \<Rightarrow> placeholder_result option" where
  "then_placeholder i r1 f = do {
     (ret1, kp1, tl1) \<leftarrow> r1;
     let found = i < ret1;
     (ret2, kp2, tl2) \<leftarrow> f (if found then 0 else i - ret1);
     Some (ret1 + ret2, if found then (kp1, tl1) else (kp2, tl2))
   }"

lemma then_placeholder_cong [fundef_cong]:
  "i = i' \<Longrightarrow> r = r' \<Longrightarrow> (\<And>j. f j = f' j) \<Longrightarrow> then_placeholder i r f = then_placeholder i' r' f'"
  by (simp add: then_placeholder_def)

fun get_key_placeholder_by_index :: "policy_node \<Rightarrow> nat \<Rightarrow> placeholder_result option"
and get_key_placeholder_by_index_in_tree :: "policy_tree \<Rightarrow> nat \<Rightarrow> placeholder_result option"
and thresh_placeholder :: "policy_node list \<Rightarrow> nat \<Rightarrow> placeholder_result option" where
  "get_key_placeholder_by_index (Node_constant t _) i = (if t = TOKEN_0 \<or> t = TOKEN_1 then Some (0, None, None) else None)"
| "get_key_placeholder_by_index (Node_with_uint32 t _ _) i = (if t = TOKEN_OLDER \<or> t = TOKEN_AFTER then Some (0, None, None) else None)"
| "get_key_placeholder_by_index (Node_with_hash_160 t _ _) i = (if t = TOKEN_RIPEMD160 \<or> t = TOKEN_HASH160 then Some (0, None, None) else None)"
| "get_key_placeholder_by_index (Node_with_hash_256 t _ _) i = (if t = TOKEN_SHA256 \<or> t = TOKEN_HASH256 then Some (0, None, None) else None)"
| "get_key_placeholder_by_index (Node_with_key t _ kp) i =
     (if t = TOKEN_PK_K \<or> t = TOKEN_PK_H \<or> t = TOKEN_PK \<or> t = TOKEN_PKH \<or> t = TOKEN_WPKH
      then Some (1, if i = 0 then Some kp else None, None) else None)"
| "get_key_placeholder_by_index (Node_tr t _ kp tree) i =
     (if t \<noteq> TOKEN_TR then None
      else case tree of
        None \<Rightarrow> Some (1, if i = 0 then Some kp else None, None)
      | Some tr \<Rightarrow> do {
          (ret_tree, kp_tree, tapleaf) \<leftarrow> get_key_placeholder_by_index_in_tree tr (if i = 0 then 0 else i - 1);
          Some (1 + ret_tree, if i = 0 then (Some kp, None) else (kp_tree, tapleaf))
        })"
| "get_key_placeholder_by_index (Node_multisig t _ _ kps) i =
     (if t = TOKEN_MULTI \<or> t = TOKEN_MULTI_A \<or> t = TOKEN_SORTEDMULTI \<or> t = TOKEN_SORTEDMULTI_A
      then Some (length kps, if i < length kps then Some (kps ! i) else None, None) else None)"
| "get_key_placeholder_by_index (Node_with_script t _ x) i =
     (if t \<in> {TOKEN_SH, TOKEN_WSH, TOKEN_A, TOKEN_S, TOKEN_C, TOKEN_T, TOKEN_D, TOKEN_V, TOKEN_J, TOKEN_N, TOKEN_L, TOKEN_U}
      then get_key_placeholder_by_index x i else None)"
| "get_key_placeholder_by_index (Node_with_script2 t _ x y) i =
     (if t \<in> {TOKEN_AND_V, TOKEN_AND_B, TOKEN_AND_N, TOKEN_OR_B, TOKEN_OR_C, TOKEN_OR_D, TOKEN_OR_I}
      then then_placeholder i (get_key_placeholder_by_index x i) (\<lambda>j. get_key_placeholder_by_index y j) else None)"
| "get_key_placeholder_by_index (Node_with_script3 t _ x y z) i =
     (if t = TOKEN_ANDOR
      then then_placeholder i
             (then_placeholder i (get_key_placeholder_by_index x i) (\<lambda>j. get_key_placeholder_by_index y j))
             (\<lambda>j. get_key_placeholder_by_index z j)
      else None)"
| "get_key_placeholder_by_index (Node_thresh t _ _ xs) i = (if t = TOKEN_THRESH then thresh_placeholder xs i else None)"
| "get_key_placeholder_by_index_in_tree (Tree_leaf script) i = do {
     (ret, kp, _) \<leftarrow> get_key_placeholder_by_index script i;
     Some (ret, kp, if i < ret then Some script else None)
   }"
| "get_key_placeholder_by_index_in_tree (Tree_branch left_tree right_tree) i =
     then_placeholder i (get_key_placeholder_by_index_in_tree left_tree i) (\<lambda>j. get_key_placeholder_by_index_in_tree right_tree j)"
| "thresh_placeholder [] i = Some (0, None, None)"
| "thresh_placeholder (x # xs) i = then_placeholder i (get_key_placeholder_by_index x i) (\<lambda>j. thresh_placeholder xs j)"

partial_function (option) count_keys_loop :: "policy_node \<Rightarrow> nat \<Rightarrow> int \<Rightarrow> int option" where
  [code]: "count_keys_loop policy cur res =
     (case get_key_placeholder_by_index policy cur of
        None \<Rightarrow> Some res
      | Some (n_placeholders, placeholder, _) \<Rightarrow>
          if cur < n_placeholders then count_keys_loop policy (Suc cur) (max res (int (key_index (the placeholder)) + 1))
          else Some res)"

definition count_distinct_keys_info :: "policy_node \<Rightarrow> int option" where
  "count_distinct_keys_info policy = count_keys_loop policy 0 (- 1)"

section \<open>Sanity of a policy\<close>

definition get_pubkey_from_merkle_tree :: "env \<Rightarrow> int \<Rightarrow> bytes \<Rightarrow> u32 \<Rightarrow> u32 \<Rightarrow> serialized_extended_pubkey proc" where
  "get_pubkey_from_merkle_tree E wallet_version keys_merkle_root n_keys index =
     seqp (only_minus_1 (key_info_element E keys_merkle_root n_keys index)) (\<lambda>key_info_buffer.
     seqp (of_option (- 1) (parse_policy_map_key_info E key_info_buffer wallet_version)) (\<lambda>key_info.
     ret (ki_ext_pubkey key_info)))"

definition MAX_STANDARD_P2WSH_STACK_ITEMS :: int where "MAX_STANDARD_P2WSH_STACK_ITEMS = 100"
definition MAX_STANDARD_P2WSH_SCRIPT_SIZE :: int where "MAX_STANDARD_P2WSH_SCRIPT_SIZE = 3600"
definition MAX_OPS_PER_SCRIPT :: int where "MAX_OPS_PER_SCRIPT = 201"

definition miniscript_sane :: "env \<Rightarrow> policy_node \<Rightarrow> bool" where
  "miniscript_sane E inner =
     (case flags_of inner of
        None \<Rightarrow> True
      | Some flags \<Rightarrow>
          ms_type flags = MINISCRIPT_TYPE_B \<and>
          (case compute_miniscript_policy_ext_info (e_beyond E) inner of
             None \<Rightarrow> False
           | Some ext_info \<Rightarrow>
               ext_m ext_info \<and> ext_s ext_info \<and> ext_k ext_info \<and>
               \<not> (ss_sat (ext_ss ext_info) = - 1 \<or> uint (of_int (ss_sat (ext_ss ext_info)) :: u32) > MAX_STANDARD_P2WSH_STACK_ITEMS) \<and>
               ops_sat (ext_ops ext_info) \<noteq> - 1 \<and>
               \<not> uint (ucast (ops_count (ext_ops ext_info)) + of_int (ops_sat (ext_ops ext_info)) :: u32) > MAX_OPS_PER_SCRIPT \<and>
               \<not> uint (script_size ext_info) > MAX_STANDARD_P2WSH_SCRIPT_SIZE))"

text \<open>The first argument counts the keys that are left to compare.\<close>

primrec pubkeys_differ :: "nat \<Rightarrow> env \<Rightarrow> int \<Rightarrow> bytes \<Rightarrow> u32 \<Rightarrow> serialized_extended_pubkey \<Rightarrow> u32 \<Rightarrow> unit proc" where
  "pubkeys_differ 0 E wallet_version root n_keys pubkey_i j = ret ()"
| "pubkeys_differ (Suc n) E wallet_version root n_keys pubkey_i j =
     seqp (get_pubkey_from_merkle_tree E wallet_version root n_keys j) (\<lambda>pubkey_j.
     seqp (require (xpub_compressed_pubkey pubkey_i \<noteq> xpub_compressed_pubkey pubkey_j) (- 1)) (\<lambda>_.
     pubkeys_differ n E wallet_version root n_keys pubkey_i (j + 1)))"

primrec pubkeys_distinct :: "nat \<Rightarrow> env \<Rightarrow> int \<Rightarrow> bytes \<Rightarrow> u32 \<Rightarrow> u32 \<Rightarrow> unit proc" where
  "pubkeys_distinct 0 E wallet_version root n_keys i = ret ()"
| "pubkeys_distinct (Suc n) E wallet_version root n_keys i =
     seqp (get_pubkey_from_merkle_tree E wallet_version root n_keys i) (\<lambda>pubkey_i.
     seqp (pubkeys_differ (unat n_keys - unat (i + 1)) E wallet_version root n_keys pubkey_i (i + 1)) (\<lambda>_.
     pubkeys_distinct n E wallet_version root n_keys (i + 1)))"

definition repeated_derivation :: "key_placeholder \<Rightarrow> key_placeholder \<Rightarrow> bool" where
  "repeated_derivation kp_i kp_j \<longleftrightarrow> key_index kp_i = key_index kp_j \<and>
     (num_first kp_i = num_first kp_j \<or> num_first kp_i = num_second kp_j \<or>
      num_second kp_i = num_first kp_j \<or> num_second kp_i = num_second kp_j)"

definition placeholders_disjoint :: "policy_node \<Rightarrow> bool" where
  "placeholders_disjoint policy =
     (case get_key_placeholder_by_index policy 0 of
        None \<Rightarrow> False
      | Some (n_placeholders, _) \<Rightarrow>
          list_all (\<lambda>i. case get_key_placeholder_by_index policy i of
              None \<Rightarrow> False
            | Some (_, kp_i, _) \<Rightarrow>
                list_all (\<lambda>j. case get_key_placeholder_by_index policy j of
                    None \<Rightarrow> False
                  | Some (_, kp_j, _) \<Rightarrow> \<not> repeated_derivation (the kp_i) (the kp_j)) [i + 1..<n_placeholders])
            [0..<n_placeholders - 1])"

definition is_policy_sane :: "env \<Rightarrow> policy_node \<Rightarrow> int \<Rightarrow> bytes \<Rightarrow> u32 \<Rightarrow> unit proc" where
  "is_policy_sane E policy wallet_version keys_merkle_root n_keys =
     seqp (require (case policy of
              Node_with_script t _ inner \<Rightarrow> t = TOKEN_WSH \<longrightarrow> miniscript_sane E inner | _ \<Rightarrow> True) (- 1)) (\<lambda>_.
     seqp (pubkeys_distinct (unat (n_keys - 1)) E wallet_version keys_merkle_root n_keys 0) (\<lambda>_.
     require (placeholders_disjoint policy) (- 1)))"

section \<open>The placeholders of a policy\<close>

text \<open>All placeholders in the order of the descriptor, with the leaf of the taproot tree that they are in.\<close>

fun placeholders :: "policy_node \<Rightarrow> (key_placeholder \<times> policy_node option) list"
and tree_placeholders :: "policy_tree \<Rightarrow> (key_placeholder \<times> policy_node option) list" where
  "placeholders (Node_with_key _ _ kp) = [(kp, None)]"
| "placeholders (Node_tr _ _ kp tree) = (kp, None) # (case tree of None \<Rightarrow> [] | Some tr \<Rightarrow> tree_placeholders tr)"
| "placeholders (Node_multisig _ _ _ kps) = map (\<lambda>kp. (kp, None)) kps"
| "placeholders (Node_with_script _ _ x) = placeholders x"
| "placeholders (Node_with_script2 _ _ x y) = placeholders x @ placeholders y"
| "placeholders (Node_with_script3 _ _ x y z) = placeholders x @ placeholders y @ placeholders z"
| "placeholders (Node_thresh _ _ _ xs) = concat (map placeholders xs)"
| "placeholders _ = []"
| "tree_placeholders (Tree_leaf script) = map (\<lambda>(kp, _). (kp, Some script)) (placeholders script)"
| "tree_placeholders (Tree_branch left_tree right_tree) = tree_placeholders left_tree @ tree_placeholders right_tree"

definition lookup :: "(key_placeholder \<times> policy_node option) list \<Rightarrow> nat \<Rightarrow> placeholder_result" where
  "lookup kps i = (length kps, if i < length kps then (Some (fst (kps ! i)), snd (kps ! i)) else (None, None))"

lemma then_placeholder_lookup:
  assumes "r = Some (lookup xs i)" "\<And>j. f j = Some (lookup ys j)"
  shows "then_placeholder i r f = Some (lookup (xs @ ys) i)"
  unfolding then_placeholder_def assms by (auto simp: lookup_def nth_append)

lemma get_key_placeholder_lookup:
  "script_ok d c p \<Longrightarrow> get_key_placeholder_by_index p i = Some (lookup (placeholders p) i)"
  "tree_ok d tr \<Longrightarrow> get_key_placeholder_by_index_in_tree tr i = Some (lookup (tree_placeholders tr) i)"
  "list_all (script_ok d c) xs \<Longrightarrow> thresh_placeholder xs i = Some (lookup (concat (map placeholders xs)) i)"
proof (induction p i and tr i and xs i arbitrary: d c and d and d c
    rule: get_key_placeholder_by_index_get_key_placeholder_by_index_in_tree_thresh_placeholder.induct)
  case (6 t f kp tree i)
  show ?case
  proof (cases tree)
    case (Some tr)
    then show ?thesis using 6 by (cases i) (auto simp: lookup_def)
  qed (use 6 in \<open>simp add: lookup_def\<close>)
next
  case (8 t f x i)
  then show ?case by (auto simp: is_wrapper_def split: if_splits)
next
  case (9 t f x y i)
  have t: "t \<in> {TOKEN_AND_V, TOKEN_AND_B, TOKEN_AND_N, TOKEN_OR_B, TOKEN_OR_C, TOKEN_OR_D, TOKEN_OR_I}"
    using 9(3) by (cases t) (auto simp: script2_rule_def split: option.splits)
  moreover have "then_placeholder i (get_key_placeholder_by_index x i) (\<lambda>j. get_key_placeholder_by_index y j) =
      Some (lookup (placeholders x @ placeholders y) i)"
    using 9 t by (intro then_placeholder_lookup) auto
  ultimately show ?case by simp
next
  case (10 t f x y z i)
  then have "then_placeholder i (then_placeholder i (get_key_placeholder_by_index x i) (\<lambda>j. get_key_placeholder_by_index y j))
      (\<lambda>j. get_key_placeholder_by_index z j) = Some (lookup ((placeholders x @ placeholders y) @ placeholders z) i)"
    by (intro then_placeholder_lookup) auto
  then show ?case using 10(4) by simp
next
  case (13 l r i)
  then have "then_placeholder i (get_key_placeholder_by_index_in_tree l i) (\<lambda>j. get_key_placeholder_by_index_in_tree r j) =
      Some (lookup (tree_placeholders l @ tree_placeholders r) i)"
    by (intro then_placeholder_lookup) auto
  then show ?case by simp
next
  case (15 x xs i)
  then have "then_placeholder i (get_key_placeholder_by_index x i) (\<lambda>j. thresh_placeholder xs j) =
      Some (lookup (placeholders x @ concat (map placeholders xs)) i)"
    by (intro then_placeholder_lookup) auto
  then show ?case by simp
next
  case (12 script i)
  then show ?case by (auto simp: lookup_def split_beta)
qed (auto simp: lookup_def)

end
