(* ===== verification/Client_Rules.thy ===== *)
theory Client_Rules
  imports Client
begin

text \<open>
  Rules for reasoning about procedures that talk to the host: when a sequence succeeds, what a read
  returns while an answer of the host is being consumed, what an interruption delivers, and that
  every procedure keeps the invariant of the message buffer whatever the host does.
\<close>

named_theorems proc_simps \<open>evaluation and successful runs of procedures\<close>
named_theorems keeps_rules \<open>procedures that keep the invariant of the message buffer\<close>

section \<open>Sequencing\<close>

lemma seqp_Inr [proc_simps]:
  "seqp p f dc = Some (Inr v, dc') \<longleftrightarrow> (\<exists>u dc1. p dc = Some (Inr u, dc1) \<and> f u dc1 = Some (Inr v, dc'))"
  by (auto simp: seqp_def split: bind_splits sum.splits)

lemma seqp_Some:
  "seqp p f dc = Some (r, dc') \<longleftrightarrow>
     (\<exists>e. p dc = Some (Inl e, dc') \<and> r = Inl e) \<or> (\<exists>u dc1. p dc = Some (Inr u, dc1) \<and> f u dc1 = Some (r, dc'))"
  by (auto simp: seqp_def split: bind_splits sum.splits)

lemma seqp_run [proc_simps]: "p dc = Some (Inr u, dc1) \<Longrightarrow> seqp p f dc = f u dc1"
  by (simp add: seqp_def)

lemma ret_simps [proc_simps]: "ret v dc = Some (Inr v, dc)" "err e dc = Some (Inl e, dc)"
  "require c e dc = Some (if c then Inr () else Inl e, dc)"
  by (simp_all add: ret_def err_def require_def)

lemma on_error_Inr [proc_simps]: "on_error e p dc = Some (Inr v, dc') \<longleftrightarrow> p dc = Some (Inr v, dc')"
proof (cases "p dc")
  case (Some rd)
  then show ?thesis by (cases "fst rd") (auto simp: on_error_def split: prod.splits)
qed (simp add: on_error_def)

section \<open>Reading an answer\<close>

text \<open>The state after \<open>n\<close> bytes of the answer were read.\<close>

definition step :: "dispatcher_state \<Rightarrow> size_t \<Rightarrow> dispatcher_state" where
  "step dc n = dc\<lparr>read_buffer := buf_adv (rb dc) n\<rparr>"

lemma step_fields [simp]:
  "sent (step dc n) = sent dc" "pending (step dc n) = pending dc" "disp_sw (step dc n) = disp_sw dc"
  "io_apdu_buffer (step dc n) = io_apdu_buffer dc" "io_ok (step dc n) = io_ok dc" "output_len (step dc n) = output_len dc"
  by (simp_all add: step_def)

lemma answer_rb:
  assumes "answer d off dc"
  shows "buf_ok (rb dc)" "buf_rest (rb dc) = drop off d"
proof -
  show "buf_ok (rb dc)"
    using assms by (auto simp: answer_def buf_ok_def rb_def word_le_nat_alt io_ok_def IO_APDU_BUFFER_SIZE_def)
  have "buf_rest (rb dc) = drop off (take (length d) (drop 5 (io_apdu_buffer dc)))"
    using assms unfolding drop_take by (simp add: answer_def buf_rest_def rb_def)
  also have "take (length d) (drop 5 (io_apdu_buffer dc)) = d"
    using assms by (simp add: answer_def)
  finally show "buf_rest (rb dc) = drop off d" .
qed

lemma answer_step:
  assumes "answer d off dc" "off + unat n \<le> length d"
  shows "answer d (off + unat n) (step dc n)"
proof -
  have "unat (buf_offset (rb dc) + n) = unat (buf_offset (rb dc)) + unat n"
    using answer_rb [OF assms(1)] assms(2) by (intro buf_adv_offset) simp_all
  then show ?thesis
    using assms by (simp add: answer_def step_def rb_def)
qed

lemma answer_refl: "answer d off dc \<Longrightarrow> answer d off (dc\<lparr>read_buffer := rb dc\<rparr>)"
  by (simp add: answer_def rb_def)

lemma answer_ok: "answer d off dc \<Longrightarrow> io_ok dc"
  by (simp add: answer_def)

lemma answer_data:
  assumes "answer d off dc" "k + n \<le> length d" "unat p = k"
  shows "data_at dc p n = take n (drop k d)"
proof -
  have "take n (drop k (take (length d) (drop 5 (io_apdu_buffer dc)))) = take n (drop k (drop 5 (io_apdu_buffer dc)))"
    using assms(2) by (simp add: drop_take min_def)
  then show ?thesis
    using assms by (simp add: data_at_def answer_def)
qed

lemma answer_offset: "answer d off dc \<Longrightarrow> unat (buf_offset (read_buffer dc)) = off"
  by (simp add: answer_def)

lemma rd_u8_eq [proc_simps]:
  "answer d off dc \<Longrightarrow> rd_u8 e dc =
     (if off < length d then Some (Inr (d ! off), step dc 1) else Some (Inl e, dc\<lparr>read_buffer := rb dc\<rparr>))"
  using answer_rb [of d off dc]
  by (auto simp: rd_u8_def buffer_read_u8_eq step_def Cons_nth_drop_Suc [symmetric] split: list.splits)

lemma rd_bytes_eq [proc_simps]:
  "answer d off dc \<Longrightarrow> rd_bytes e n dc =
     (if off + unat n \<le> length d then Some (Inr (take (unat n) (drop off d)), step dc n) else Some (Inl e, dc))"
proof -
  assume a: "answer d off dc"
  then have "off \<le> length d" by (simp add: answer_def)
  then have "unat n \<le> length d - off \<longleftrightarrow> off + unat n \<le> length d" by linarith
  then show ?thesis
    using answer_rb [OF a] by (simp add: rd_bytes_def buffer_read_bytes_eq step_def)
qed

lemma rd_varint_eq [proc_simps]:
  "answer d off dc \<Longrightarrow> rd_varint e dc =
     (case varint_read (drop off d) (length d - off) of
        None \<Rightarrow> Some (Inl e, dc\<lparr>read_buffer := rb dc\<rparr>)
      | Some (len, v) \<Rightarrow> Some (Inr v, step dc (of_nat len)))"
  using answer_rb [of d off dc]
  by (auto simp: rd_varint_def buffer_read_varint_eq step_def split: option.splits)

lemma can_rd_eq [proc_simps]:
  "answer d off dc \<Longrightarrow> can_rd e n dc = Some (if off + unat n \<le> length d then Inr () else Inl e, dc)"
proof -
  assume a: "answer d off dc"
  then have "off \<le> length d" by (simp add: answer_def)
  then have "unat n \<le> length d - off \<longleftrightarrow> off + unat n \<le> length d" by linarith
  then show ?thesis
    using answer_rb [OF a] by (simp add: can_rd_def buffer_can_read_iff require_def ret_def err_def)
qed

text \<open>The successful runs of a sequence that begins with a read or a test.\<close>

lemma seqp_require:
  "seqp (require c e) f dc = Some (Inr v, dc') \<longleftrightarrow> c \<and> f () dc = Some (Inr v, dc')"
  by (auto simp: seqp_Inr ret_simps)

lemma seqp_rd_u8:
  "answer d off dc \<Longrightarrow> seqp (rd_u8 e) f dc = Some (Inr v, dc') \<longleftrightarrow> off < length d \<and> f (d ! off) (step dc 1) = Some (Inr v, dc')"
  by (auto simp: seqp_Inr rd_u8_eq)

lemma seqp_rd_bytes:
  "answer d off dc \<Longrightarrow> seqp (rd_bytes e n) f dc = Some (Inr v, dc') \<longleftrightarrow>
     off + unat n \<le> length d \<and> f (take (unat n) (drop off d)) (step dc n) = Some (Inr v, dc')"
  by (auto simp: seqp_Inr rd_bytes_eq)

lemma seqp_rd_varint:
  "answer d off dc \<Longrightarrow> seqp (rd_varint e) f dc = Some (Inr v, dc') \<longleftrightarrow>
     (\<exists>len x. varint_read (drop off d) (length d - off) = Some (len, x) \<and> f x (step dc (of_nat len)) = Some (Inr v, dc'))"
  by (auto simp: seqp_Inr rd_varint_eq split: option.splits)

lemma seqp_can_rd:
  "answer d off dc \<Longrightarrow> seqp (can_rd e n) f dc = Some (Inr v, dc') \<longleftrightarrow> off + unat n \<le> length d \<and> f () dc = Some (Inr v, dc')"
  by (auto simp: seqp_Inr can_rd_eq)

section \<open>Sending a request\<close>

lemma add_eq:
  assumes "io_ok dc" "length (pending dc) < 258" "length (pending dc) + unat n \<le> 258" "unat n \<le> length rdata"
  shows "\<exists>dc'. add rdata n dc = Some (Inr (), dc') \<and> io_ok dc' \<and> pending dc' = pending dc @ take (unat n) rdata \<and> sent dc' = sent dc"
  using io_add_to_response_eq [OF assms] by (auto simp: add_def add_to_response_def)

lemma finalize_response_fields [simp]:
  "sent (finalize_response sw dc) = sent dc"
  by (simp add: finalize_response_def)

lemma finalize_response_pending:
  assumes "io_ok dc" "length (pending dc) < 258"
  shows "io_ok (finalize_response sw dc)" "pending (finalize_response sw dc) = pending dc @ enc_u16_be sw"
proof -
  have "io_ok (dc\<lparr>disp_sw := sw\<rparr>)" "pending (dc\<lparr>disp_sw := sw\<rparr>) = pending dc"
    using assms by (simp_all add: io_ok_def pending_def)
  then show "io_ok (finalize_response sw dc)" "pending (finalize_response sw dc) = pending dc @ enc_u16_be sw"
    using assms(2) by (simp_all add: finalize_response_def io_finalize_response_eq)
qed

lemma finalize_eq [proc_simps]: "finalize sw dc = Some (Inr (), finalize_response sw dc)"
  by (simp add: finalize_def)

lemma interrupt_Inr:
  assumes "io_ok dc" "interrupt host e dc = Some (Inr u, dc')"
  shows "\<exists>rx. host (sent dc @ [pending dc]) = Some rx \<and> continue_apdu (take 260 rx) \<and> answer (drop 5 (take 260 rx)) 0 dc' \<and>
    sent dc' = sent dc @ [pending dc] \<and> pending dc' = []"
  using process_interruption_eq [OF assms(1), of host] assms(2) by (auto simp: interrupt_def split: if_splits)

lemma interrupt_run:
  assumes "io_ok dc" "host (sent dc @ [pending dc]) = Some (0xF8 # 1 # p1 # p2 # of_nat (length d) # d)" "length d \<le> 255"
  shows "\<exists>dc'. interrupt host e dc = Some (Inr (), dc') \<and> answer d 0 dc' \<and> sent dc' = sent dc @ [pending dc] \<and> pending dc' = []"
proof -
  let ?rx = "0xF8 # 1 # p1 # p2 # of_nat (length d) # d"
  have "take 260 ?rx = ?rx" using assms(3) by simp
  moreover have "continue_apdu ?rx"
    using assms(3) by (simp add: continue_apdu_def CLA_FRAMEWORK_def INS_CONTINUE_def unat_of_nat)
  ultimately show ?thesis
    using process_interruption_eq [OF assms(1), of host] assms(2) by (auto simp: interrupt_def)
qed

section \<open>The invariant\<close>

definition keeps :: "'a proc \<Rightarrow> bool" where
  "keeps p \<longleftrightarrow> (\<forall>dc r dc'. io_ok dc \<longrightarrow> p dc = Some (r, dc') \<longrightarrow> io_ok dc')"

lemma keepsD: "keeps p \<Longrightarrow> p dc = Some (r, dc') \<Longrightarrow> io_ok dc \<Longrightarrow> io_ok dc'"
  by (auto simp: keeps_def)

lemma keeps_seqp [keeps_rules]: "keeps p \<Longrightarrow> (\<And>v. keeps (f v)) \<Longrightarrow> keeps (seqp p f)"
  unfolding keeps_def seqp_Some by metis

lemma keeps_basic [keeps_rules]: "keeps (ret v)" "keeps (err e)" "keeps (require c e)" "keeps (rd_u8 e)" "keeps (rd_varint e)" "keeps (rd_bytes e n)"
  "keeps (can_rd e n)"
  by (auto simp: keeps_def ret_def err_def require_def rd_u8_def rd_varint_def rd_bytes_def can_rd_def split: if_splits option.splits prod.splits)

lemma keeps_interrupt [keeps_rules]: "keeps (interrupt host e)"
  unfolding keeps_def
proof (intro allI impI)
  fix dc r dc'
  assume "io_ok dc" "interrupt host e dc = Some (r, dc')"
  then show "io_ok dc'"
    using process_interruption_eq [of dc host] by (auto simp: interrupt_def)
qed

lemma finalize_response_ok: "io_ok dc \<Longrightarrow> io_ok (finalize_response sw dc)"
  unfolding finalize_response_def by (rule io_finalize_response_ok) (simp add: io_ok_def)

lemma keeps_finalize [keeps_rules]: "keeps (finalize sw)"
  by (auto simp: keeps_def finalize_def finalize_response_ok)

lemma keeps_add [keeps_rules]: "length rdata < 2 ^ 31 \<Longrightarrow> keeps (add rdata n)"
  using io_add_to_response_ok by (auto simp: keeps_def add_def add_to_response_def)

lemma keeps_on_error [keeps_rules]: "keeps p \<Longrightarrow> keeps (on_error e p)"
  by (auto simp: keeps_def on_error_def)

lemma keeps_case [keeps_rules]:
  "(c \<Longrightarrow> keeps p) \<Longrightarrow> (\<not> c \<Longrightarrow> keeps q) \<Longrightarrow> keeps (if c then p else q)"
  by simp

end
