(* ===== verification/Client_Sound.thy ===== *)
theory Client_Sound
  imports Client_Rules
begin

text \<open>
  What a device knows of the data that an untrusted host delivers: soundness of the proofs of
  inclusion and of the preimages, and where the checks fall short.
\<close>

section \<open>Requests\<close>

lemma SET_RESPONSE_eq:
  assumes "io_ok dc" "pending dc = []" "unat n \<le> length rdata" "unat n < 258"
  shows "\<exists>dc'. SET_RESPONSE rdata n sw dc = Some dc' \<and> io_ok dc' \<and> pending dc' = take (unat n) rdata @ enc_u16_be sw \<and> sent dc' = sent dc"
proof -
  obtain dc' where "io_add_to_response rdata n dc = Some dc'" "io_ok dc'" "pending dc' = take (unat n) rdata" "sent dc' = sent dc"
    using io_add_to_response_eq [of dc n rdata] assms by auto
  then show ?thesis
    using finalize_response_pending [of dc' sw] assms(4)
    by (auto simp: SET_RESPONSE_def add_to_response_def)
qed

definition more_request :: bytes where
  "more_request = CCMD_GET_MORE_ELEMENTS # enc_u16_be SW_INTERRUPTED_EXECUTION"

lemma unat_mult_u8: "unat (ucast x * ucast y :: size_t) = unat (x :: u8) * unat (y :: u8)"
proof -
  have "unat x * unat y \<le> 255 * 255"
    using u8_less [of x] u8_less [of y] by (intro mult_mono) simp_all
  then show ?thesis
    using u8_less [of x] u8_less [of y]
    by (simp add: unat_word_ariths unsigned_ucast_eq take_bit_eq_mod)
qed

lemma more_elements_Inr:
  assumes "io_ok dc" "pending dc = []" "more_elements host e1 e2 dc = Some (Inr w, dc')"
  shows "\<exists>rx d. host (sent dc @ [more_request]) = Some rx \<and> d = drop 5 (take 260 rx) \<and>
    answer d 2 dc' \<and> w = (d ! 0, d ! 1) \<and> 2 + unat (d ! 0) * unat (d ! 1) \<le> length d \<and>
    pending dc' = [] \<and> sent dc' = sent dc @ [more_request]"
proof -
  obtain dc1 where dc1: "SET_RESPONSE [CCMD_GET_MORE_ELEMENTS] 1 SW_INTERRUPTED_EXECUTION dc = Some dc1"
    "io_ok dc1" "pending dc1 = more_request" "sent dc1 = sent dc"
    using SET_RESPONSE_eq [OF assms(1,2), of 1 "[CCMD_GET_MORE_ELEMENTS]"] by (auto simp: more_request_def)
  have run: "seqp (interrupt host e1) (\<lambda>_. seqp (rd_u8 e2) (\<lambda>n_elements. seqp (rd_u8 e2) (\<lambda>elements_len.
     seqp (can_rd e2 (ucast n_elements * ucast elements_len)) (\<lambda>_. ret (n_elements, elements_len))))) dc1 = Some (Inr w, dc')"
    using assms(3) dc1(1) by (simp add: more_elements_def)
  then obtain dc2 where dc2: "interrupt host e1 dc1 = Some (Inr (), dc2)"
    by (auto simp: seqp_Inr)
  then obtain rx where rx: "host (sent dc @ [more_request]) = Some rx" "answer (drop 5 (take 260 rx)) 0 dc2"
    "sent dc2 = sent dc @ [more_request]" "pending dc2 = []"
    using interrupt_Inr [OF dc1(2) dc2] dc1(3,4) by auto
  define d where "d = drop 5 (take 260 rx)"
  note a0 = rx(2) [folded d_def]
  have l0: "0 < length d" and r0: "seqp (rd_u8 e2) (\<lambda>elements_len. seqp (can_rd e2 (ucast (d ! 0) * ucast elements_len))
      (\<lambda>_. ret (d ! 0, elements_len))) (step dc2 1) = Some (Inr w, dc')"
    using run by (auto simp: seqp_Inr dc2 rd_u8_eq [OF a0] split: if_splits)
  have a1: "answer d 1 (step dc2 1)" using answer_step [OF a0, of 1] l0 by simp
  have l1: "1 < length d" and r1: "seqp (can_rd e2 (ucast (d ! 0) * ucast (d ! 1))) (\<lambda>_. ret (d ! 0, d ! 1)) (step (step dc2 1) 1) = Some (Inr w, dc')"
    using r0 by (auto simp: seqp_Inr rd_u8_eq [OF a1] split: if_splits)
  have a2: "answer d 2 (step (step dc2 1) 1)" using answer_step [OF a1, of 1] l1 by (simp add: numeral_2_eq_2)
  have p: "unat (ucast (d ! 0) * ucast (d ! 1) :: size_t) = unat (d ! 0) * unat (d ! 1)"
    by (rule unat_mult_u8)
  have "w = (d ! 0, d ! 1)" "2 + unat (d ! 0) * unat (d ! 1) \<le> length d" "dc' = step (step dc2 1) 1"
    using r1 p by (auto simp: seqp_Inr can_rd_eq [OF a2] ret_def split: if_splits)
  moreover from this have "answer d 2 dc'" "pending dc' = []" "sent dc' = sent dc @ [more_request]"
    using rx(3,4) a2 by simp_all
  ultimately show ?thesis
    using rx(1) d_def by blast
qed

section \<open>Proofs of inclusion\<close>

definition path_fold :: "(bytes \<Rightarrow> bytes) \<Rightarrow> bool list \<Rightarrow> bytes list \<Rightarrow> bytes \<Rightarrow> bytes" where
  "path_fold sha256 ds ps h =
     foldl (\<lambda>c (d, p). if d then merkle_combine_hashes sha256 p c else merkle_combine_hashes sha256 c p) h (zip ds ps)"

lemma path_fold_append:
  "length ds = length ps \<Longrightarrow> path_fold sha256 (ds @ es) (ps @ qs) h = path_fold sha256 es qs (path_fold sha256 ds ps h)"
  by (simp add: path_fold_def)

lemma path_fold_up:
  assumes "length ps = length ds"
  shows "path_fold sha256 (rev ds) ps h = merkle_up sha256 (zip ds (rev ps)) h"
proof -
  have "zip (rev ds) ps = rev (zip ds (rev ps))"
    using assms by (metis length_rev rev_rev_ident zip_rev)
  moreover have "foldl (\<lambda>c (d, p). if d then merkle_combine_hashes sha256 p c else merkle_combine_hashes sha256 c p) h (rev qs) = merkle_up sha256 qs h" for qs
    by (induction qs) (auto simp: Let_def)
  ultimately show ?thesis by (simp add: path_fold_def)
qed

lemma ith_direction_01:
  assumes "merkle_get_ith_direction sz index i = Some dir" "dir = 0 \<or> dir = 1"
  shows "index < sz \<and> unat i < length (merkle_dirs (unat sz) (unat index)) \<and> (dir = 1 \<longleftrightarrow> merkle_dirs (unat sz) (unat index) ! unat i)"
  using assms by (auto simp: merkle_get_ith_direction_eq split: if_splits)

lemma step_index: "s < unat K \<Longrightarrow> unat (of_int (int (unat (K :: u8)) - int s - 1) :: size_t) = unat K - s - 1"
proof -
  assume "s < unat K"
  then have "int (unat K) - int s - 1 = int (unat K - s - 1)" by simp
  then show ?thesis
    using u8_less [of K] by (simp only: of_int_of_nat_eq) (simp add: unat_of_nat_size_t)
qed

lemma seek_step:
  "answer d off dc \<Longrightarrow> off + 32 \<le> length d \<Longrightarrow> dc\<lparr>read_buffer := snd (buffer_seek_cur (rb dc) 32)\<rparr> = step dc 32"
  using answer_rb [of d off dc] by (simp add: buffer_seek_cur_eq step_def)

lemma proof_steps_Inr:
  fixes sz index :: u32 and K :: u8
  defines "D \<equiv> merkle_dirs (unat sz) (unat index)"
  assumes "answer d off dc" "off + 32 * n \<le> length d" "s + n \<le> unat K" "0 < s \<longrightarrow> unat K \<le> length D \<and> index < sz"
    and "proof_steps sha256 sz index K n s cur dc = Some (Inr (s', cur'), dc')"
  shows "\<exists>ps. length ps = n \<and> (\<forall>p\<in>set ps. length p = 32) \<and> s' = s + n \<and>
    cur' = path_fold sha256 (take n (drop s (rev (take (unat K) D)))) ps cur \<and>
    io_ok dc' \<and> sent dc' = sent dc \<and> pending dc' = pending dc \<and> (0 < s + n \<longrightarrow> unat K \<le> length D \<and> index < sz)"
  using assms(2-)
proof (induction n arbitrary: off s cur dc)
  case 0
  then show ?case by (auto simp: ret_def path_fold_def answer_ok)
next
  case (Suc n)
  let ?p = "data_at dc (buf_offset (read_buffer dc)) 32"
  let ?i = "of_int (int (unat K) - int s - 1) :: size_t"
  have p: "?p = take 32 (drop off d)"
    using Suc.prems(2) by (intro answer_data [OF Suc.prems(1)]) (simp_all add: answer_offset [OF Suc.prems(1)])
  have plen: "length ?p = 32" using Suc.prems(2) by (simp add: p)
  have i: "unat ?i = unat K - s - 1"
    using Suc.prems(3) by (intro step_index) simp
  have st: "dc\<lparr>read_buffer := snd (buffer_seek_cur (rb dc) 32)\<rparr> = step dc 32"
    using Suc.prems(2) by (intro seek_step [OF Suc.prems(1)]) (simp only: mult_Suc_right)
  obtain dir where dir: "merkle_get_ith_direction sz index ?i = Some dir" "dir = 0 \<or> dir = 1"
    using Suc.prems(5) by (auto simp: err_def Let_def split: bind_splits if_splits)
  note dd = ith_direction_01 [OF dir, folded D_def, unfolded i]
  let ?R = "rev (take (unat K) D)"
  have K: "unat K \<le> length D" "index < sz"
    using dd Suc.prems(3,4) by (cases "s = 0"; auto)+
  have R: "?R ! s \<longleftrightarrow> dir = 1"
    using dd K Suc.prems(3) by (simp add: rev_nth)
  define cur1 where "cur1 = path_fold sha256 [?R ! s] [?p] cur"
  have a: "answer d (off + 32) (step dc 32)"
    using answer_step [OF Suc.prems(1), of 32] Suc.prems(2) by simp
  have run: "proof_steps sha256 sz index K n (Suc s) cur1 (step dc 32) = Some (Inr (s', cur'), dc')"
    using Suc.prems(5) dir R by (auto simp: st Let_def cur1_def path_fold_def)
  obtain ps where ps: "length ps = n" "\<forall>p\<in>set ps. length p = 32" "s' = Suc s + n"
    "cur' = path_fold sha256 (take n (drop (Suc s) ?R)) ps cur1" "io_ok dc'" "sent dc' = sent dc" "pending dc' = pending dc"
    using Suc.IH [OF a _ _ _ run] Suc.prems(2,3) K by auto
  have "take (Suc n) (drop s ?R) = ?R ! s # take n (drop (Suc s) ?R)"
    using Suc.prems(3) K by (simp add: Cons_nth_drop_Suc [symmetric])
  then show ?case
    using ps plen K by (intro exI [of _ "?p # ps"]) (simp add: path_fold_def cur1_def)
qed

lemma proof_loop_Inr:
  assumes "proof_loop sha256 host sz index K n s cur dc = Some (r, dc')"
    and "answer d off dc" "pending dc = []" "off + 32 * unat n \<le> length d" "s + unat n \<le> unat K"
    and "0 < s \<longrightarrow> unat K \<le> length (merkle_dirs (unat sz) (unat index)) \<and> index < sz" "r = Inr cur'"
  shows "\<exists>ps. length ps = unat K - s \<and> (\<forall>p\<in>set ps. length p = 32) \<and>
    cur' = path_fold sha256 (drop s (rev (take (unat K) (merkle_dirs (unat sz) (unat index))))) ps cur \<and>
    io_ok dc' \<and> pending dc' = [] \<and> (0 < unat K \<longrightarrow> unat K \<le> length (merkle_dirs (unat sz) (unat index)) \<and> index < sz)"
proof -
  let ?D = "\<lambda>sz index :: u32. merkle_dirs (unat sz) (unat index)"
  let ?P = "\<lambda>sha256 host sz index K n s cur dc rd. \<forall>d off cur'. answer d off dc \<longrightarrow> pending dc = [] \<longrightarrow>
     off + 32 * unat n \<le> length d \<longrightarrow> s + unat n \<le> unat K \<longrightarrow> (0 < s \<longrightarrow> unat K \<le> length (?D sz index) \<and> index < sz) \<longrightarrow>
     fst rd = Inr cur' \<longrightarrow>
     (\<exists>ps. length ps = unat K - s \<and> (\<forall>p\<in>set ps. length p = 32) \<and>
       cur' = path_fold sha256 (drop s (rev (take (unat K) (?D sz index)))) ps cur \<and>
       io_ok (snd rd) \<and> pending (snd rd) = [] \<and> (0 < unat K \<longrightarrow> unat K \<le> length (?D sz index) \<and> index < sz))"
  have "?P sha256 host sz index K n s cur dc (r, dc')"
    using assms(1)
  proof (rule proof_loop.raw_induct [rotated, where P = ?P])
    fix f sha256 host sz index K n s cur dc rd
    assume ih: "\<And>sha256 host sz index K n s cur dc rd. f sha256 host sz index K n s cur dc = Some rd \<Longrightarrow> ?P sha256 host sz index K n s cur dc rd"
      and eq: "seqp (proof_steps sha256 sz index K (unat n) s cur) (\<lambda>v dc.
       if fst v = unat K then ret (snd v) dc
       else seqp (more_elements host (- 1) (- 1)) (\<lambda>w.
         seqp (require (snd w = 32) (- 1)) (\<lambda>_.
         seqp (require (\<not> unat K < fst v + unat (fst w)) (- 1)) (\<lambda>_ dc.
         f sha256 host sz index K (fst w) (fst v) (snd v) dc))) dc) dc = Some rd"
    show "?P sha256 host sz index K n s cur dc rd"
    proof (intro allI impI)
      fix d off cur'
      assume pre: "answer d off dc" "pending dc = []" "off + 32 * unat n \<le> length d" "s + unat n \<le> unat K"
        "0 < s \<longrightarrow> unat K \<le> length (?D sz index) \<and> index < sz" and r: "fst rd = Inr cur'"
      let ?R = "rev (take (unat K) (?D sz index))"
      obtain v dc1 where v: "proof_steps sha256 sz index K (unat n) s cur dc = Some (Inr v, dc1)"
        and rest: "(if fst v = unat K then ret (snd v) dc1
         else seqp (more_elements host (- 1) (- 1)) (\<lambda>w. seqp (require (snd w = 32) (- 1)) (\<lambda>_.
           seqp (require (\<not> unat K < fst v + unat (fst w)) (- 1)) (\<lambda>_ dc.
           f sha256 host sz index K (fst w) (fst v) (snd v) dc))) dc1) = Some rd"
        using eq r by (cases rd) (auto simp: seqp_Inr)
      obtain ps where ps: "length ps = unat n" "\<forall>p\<in>set ps. length p = 32" "fst v = s + unat n"
        "snd v = path_fold sha256 (take (unat n) (drop s ?R)) ps cur" "io_ok dc1" "pending dc1 = []"
        "0 < s + unat n \<longrightarrow> unat K \<le> length (?D sz index) \<and> index < sz"
        using proof_steps_Inr [OF pre(1,3,4,5), of sha256 cur "fst v" "snd v" dc1] v pre(2) by auto
      have R: "length (take (unat n) (drop s ?R)) = unat n"
        using ps(7) pre(4) by (cases "s + unat n = 0") auto
      show "\<exists>ps. length ps = unat K - s \<and> (\<forall>p\<in>set ps. length p = 32) \<and> cur' = path_fold sha256 (drop s ?R) ps cur \<and>
        io_ok (snd rd) \<and> pending (snd rd) = [] \<and> (0 < unat K \<longrightarrow> unat K \<le> length (?D sz index) \<and> index < sz)"
      proof (cases "fst v = unat K")
        case True
        then show ?thesis
          using rest r ps by (intro exI [of _ ps]) (auto simp: ret_def)
      next
        case False
        obtain w dc2 where w: "more_elements host (- 1) (- 1) dc1 = Some (Inr w, dc2)" "snd w = 32" "fst v + unat (fst w) \<le> unat K"
          "f sha256 host sz index K (fst w) (fst v) (snd v) dc2 = Some rd"
          using rest r False by (cases rd) (auto simp: seqp_Inr require_def ret_def err_def split: if_splits)
        obtain d2 where "answer d2 2 dc2" "w = (d2 ! 0, d2 ! 1)" "2 + unat (d2 ! 0) * unat (d2 ! 1) \<le> length d2" "pending dc2 = []"
          using more_elements_Inr [OF ps(5,6) w(1)] by blast
        then have d2: "answer d2 2 dc2" "2 + 32 * unat (fst w) \<le> length d2" "pending dc2 = []"
          using w(2) by (simp_all add: mult.commute)
        obtain qs where qs: "length qs = unat K - fst v" "\<forall>p\<in>set qs. length p = 32" "cur' = path_fold sha256 (drop (fst v) ?R) qs (snd v)"
          "io_ok (snd rd)" "pending (snd rd) = []" "0 < unat K \<longrightarrow> unat K \<le> length (?D sz index) \<and> index < sz"
          using ih [OF w(4), rule_format, OF d2(1,3,2) w(3) _ r] ps(3,7) by auto
        have "drop s ?R = take (unat n) (drop s ?R) @ drop (fst v) ?R"
          unfolding ps(3) by (metis add.commute append_take_drop_id drop_drop)
        then have "path_fold sha256 (drop s ?R) (ps @ qs) cur = path_fold sha256 (drop (fst v) ?R) qs (snd v)"
          using path_fold_append [of "take (unat n) (drop s ?R)" ps sha256 "drop (fst v) ?R" qs cur] R ps(1,4) by simp
        then show ?thesis
          using qs ps(1-3) pre(4) by (intro exI [of _ "ps @ qs"]) auto
      qed
    qed
  qed
  then show ?thesis using assms(2-) by auto
qed

lemma varint_write_length: "length (snd (varint_write tmp 0 v)) = length tmp"
  by (simp add: varint_write_def Let_def write_defs)

text \<open>A successful run of a procedure after requests of any kind and an interruption.\<close>

lemma seqp_keeps_Inr:
  assumes "seqp p f dc = Some (Inr v, dc')" "keeps p" "io_ok dc"
  obtains u dc1 where "f u dc1 = Some (Inr v, dc')" "io_ok dc1"
  using assms by (auto simp: seqp_Inr dest: keepsD)

definition read_proof :: "(bytes \<Rightarrow> bytes) \<Rightarrow> host \<Rightarrow> bytes \<Rightarrow> u32 \<Rightarrow> u32 \<Rightarrow> bytes proc" where
  "read_proof sha256 host root sz index =
     seqp (rd_bytes (- 1) 32) (\<lambda>cur_hash.
     seqp (rd_u8 (- 1)) (\<lambda>proof_size.
     seqp (rd_u8 (- 1)) (\<lambda>n_proof_elements.
     seqp (require (\<not> n_proof_elements > proof_size) (- 1)) (\<lambda>_.
     seqp (can_rd (- 1) (32 * ucast n_proof_elements)) (\<lambda>_.
     seqp (proof_loop sha256 host sz index proof_size n_proof_elements 0 cur_hash) (\<lambda>final_hash.
     seqp (require (take 32 root = final_hash) (- 1)) (\<lambda>_.
     ret cur_hash)))))))"

lemma read_proof_Inr:
  fixes sz index :: u32
  assumes "answer d 0 dc" "pending dc = []" "length root = 32" "read_proof sha256 host root sz index dc = Some (Inr h, dc')"
  shows "length h = 32 \<and> io_ok dc' \<and> pending dc' = [] \<and>
    (\<exists>path. map fst path = take (length path) (merkle_dirs (unat sz) (unat index)) \<and> (\<forall>(d, p)\<in>set path. length p = 32) \<and>
       merkle_up sha256 path h = root \<and> (path \<noteq> [] \<longrightarrow> index < sz))"
proof -
  let ?D = "merkle_dirs (unat sz) (unat index)"
  note run = assms(4) [unfolded read_proof_def]
  have l: "32 \<le> length d" using run by (simp add: seqp_rd_bytes [OF assms(1)])
  have a1: "answer d 32 (step dc 32)" using answer_step [OF assms(1), of 32] l by simp
  have "32 < length d" using run by (simp add: seqp_rd_bytes [OF assms(1)] seqp_rd_u8 [OF a1])
  then have a2: "answer d 33 (step (step dc 32) 1)" using answer_step [OF a1, of 1] by simp
  have "33 < length d"
    using run by (simp add: seqp_rd_bytes [OF assms(1)] seqp_rd_u8 [OF a1] seqp_rd_u8 [OF a2])
  then have a3: "answer d 34 (step (step (step dc 32) 1) 1)" using answer_step [OF a2, of 1] by simp
  let ?K = "d ! 32" and ?n = "d ! 33"
  have n: "unat (32 * ucast ?n :: size_t) = 32 * unat ?n"
    using u8_less [of ?n] by (simp add: unat_word_ariths unsigned_ucast_eq take_bit_eq_mod)
  have p: "?n \<le> ?K" "34 + 32 * unat ?n \<le> length d" "h = take 32 d"
    "proof_loop sha256 host sz index ?K ?n 0 h (step (step (step dc 32) 1) 1) = Some (Inr root, dc')"
    using run assms(3)
    by (auto simp: seqp_rd_bytes [OF assms(1)] seqp_rd_u8 [OF a1] seqp_rd_u8 [OF a2] seqp_require seqp_can_rd [OF a3] n
        seqp_Inr [of "proof_loop _ _ _ _ _ _ _ _"] ret_def not_less)
  obtain ps where ps: "length ps = unat ?K" "\<forall>p\<in>set ps. length p = 32" "root = path_fold sha256 (rev (take (unat ?K) ?D)) ps h"
    "io_ok dc'" "pending dc' = []" "0 < unat ?K \<longrightarrow> unat ?K \<le> length ?D \<and> index < sz"
    using proof_loop_Inr [OF p(4) a3, of root] p(1,2) assms(2) by (auto simp: word_le_nat_alt)
  have K: "length (take (unat ?K) ?D) = length ps"
    using ps(1,6) by (cases "unat ?K = 0") auto
  let ?path = "zip (take (unat ?K) ?D) (rev ps)"
  have "map fst ?path = take (length ?path) ?D" "merkle_up sha256 ?path h = root" "\<forall>(d, p)\<in>set ?path. length p = 32"
    "?path \<noteq> [] \<longrightarrow> index < sz"
    using K ps path_fold_up [of ps "take (unat ?K) ?D" sha256 h] by (auto dest!: set_zip_rightD)
  moreover have "length h = 32" using p(3) l by simp
  ultimately show ?thesis
    using ps(4,5) by blast
qed

lemma call_get_merkle_leaf_hash_Inr:
  fixes sz index :: u32
  assumes "io_ok dc" "length root = 32" "call_get_merkle_leaf_hash sha256 host root sz index dc = Some (Inr h, dc')"
  shows "length h = 32 \<and> io_ok dc' \<and> pending dc' = [] \<and>
    (\<exists>path. map fst path = take (length path) (merkle_dirs (unat sz) (unat index)) \<and> (\<forall>(d, p)\<in>set path. length p = 32) \<and>
       merkle_up sha256 path h = root \<and> (path \<noteq> [] \<longrightarrow> index < sz))"
proof -
  let ?tmp = "(replicate 9 0)[0 := CCMD_GET_MERKLE_LEAF_PROOF]"
  obtain l1 tmp1 where t1: "varint_write ?tmp 0 (ucast sz) = (l1, tmp1)" by fastforce
  obtain l2 tmp2 where t2: "varint_write tmp1 0 (ucast index) = (l2, tmp2)" by fastforce
  have len: "length tmp1 = 9" "length tmp2 = 9"
    using varint_write_length [of ?tmp "ucast sz"] varint_write_length [of tmp1 "ucast index"] t1 t2 by simp_all
  define tail where "tail = (\<lambda>_ :: unit. seqp (interrupt host (- 1)) (\<lambda>_. read_proof sha256 host root sz index))"
  have "seqp (add ?tmp 1) (\<lambda>_. seqp (add root 32) (\<lambda>_. seqp (add tmp1 (of_int l1)) (\<lambda>_.
      seqp (add tmp2 (of_int l2)) (\<lambda>_. seqp (finalize SW_INTERRUPTED_EXECUTION) tail)))) dc = Some (Inr h, dc')"
    using assms(3) by (simp add: call_get_merkle_leaf_hash_def t1 t2 tail_def read_proof_def Let_def)
  then obtain dc1 where "tail () dc1 = Some (Inr h, dc')" "io_ok dc1"
    using len assms(1,2) by (auto elim!: seqp_keeps_Inr intro!: keeps_rules)
  then obtain dc2 d where "answer d 0 dc2" "pending dc2 = []" "read_proof sha256 host root sz index dc2 = Some (Inr h, dc')"
    unfolding tail_def by (auto simp: seqp_Inr dest!: interrupt_Inr)
  then show ?thesis
    using assms(2) by (intro read_proof_Inr)
qed

text \<open>
  The result of the Merkle proof of a leaf, where the tree is committed to by its root: the hash
  belongs to a node on the path to the leaf, or the host found a second preimage of a string
  that is hashed in the tree.
\<close>

definition second_preimage :: "(bytes \<Rightarrow> bytes) \<Rightarrow> bytes set \<Rightarrow> bool" where
  "second_preimage sha256 S \<longleftrightarrow> (\<exists>x\<in>S. \<exists>y. y \<noteq> x \<and> sha256 y = sha256 x)"

lemma merkle_leaf_hash_node:
  fixes index :: u32
  assumes "\<forall>x. length (sha256 x) = 32" "io_ok dc" "\<forall>x\<in>set leaves. length x = 32"
    and "length leaves = unat sz" "index < sz" "root = merkle_root sha256 leaves"
    and "call_get_merkle_leaf_hash sha256 host root sz index dc = Some (Inr h, dc')"
  shows "(\<exists>k \<le> length (merkle_dirs (unat sz) (unat index)).
      h = merkle_root sha256 (merkle_subtree (take k (merkle_dirs (unat sz) (unat index))) leaves)) \<or>
    second_preimage sha256 (merkle_strings sha256 leaves)"
proof -
  let ?D = "merkle_dirs (unat sz) (unat index)"
  have i: "unat index < length leaves" using assms(4,5) by (simp add: word_less_nat_alt)
  then have "leaves \<noteq> []" by auto
  then have "length root = 32"
    using assms(1,3,6) by (simp add: merkle_root_length)
  then obtain path where p: "length h = 32" "map fst path = take (length path) ?D" "\<forall>(d, p)\<in>set path. length p = 32" "merkle_up sha256 path h = root"
    using call_get_merkle_leaf_hash_Inr [OF assms(2) _ assms(7)] by auto
  then have "h = merkle_root sha256 (merkle_subtree (map fst path) leaves) \<or>
    (\<exists>x\<in>merkle_strings sha256 leaves. \<exists>y\<in>set (merkle_up_strings sha256 path h). x \<noteq> y \<and> sha256 x = sha256 y)"
    using assms(1,3,4,6) i by (intro merkle_up_sound [where k = "length path"]) auto
  moreover have "length path \<le> length ?D"
    using arg_cong [OF p(2), of length] by simp
  ultimately show ?thesis
    using p(2) by (auto simp: second_preimage_def) metis+
qed

section \<open>An honest host\<close>

lemma proof_steps_run:
  fixes sz index :: u32 and K :: u8
  defines "D \<equiv> merkle_dirs (unat sz) (unat index)"
  assumes "answer d off dc" "drop off d = concat ps @ rest" "\<forall>p\<in>set ps. length p = 32" "s + length ps \<le> unat K"
    and "unat K \<le> length D" "index < sz" "unat sz \<le> 2 ^ 31"
  shows "\<exists>dc'. proof_steps sha256 sz index K (length ps) s cur dc =
      Some (Inr (s + length ps, path_fold sha256 (take (length ps) (drop s (rev (take (unat K) D)))) ps cur), dc') \<and>
    io_ok dc' \<and> sent dc' = sent dc \<and> pending dc' = pending dc"
  using assms(2-5)
proof (induction ps arbitrary: off s cur dc)
  case Nil
  then show ?case by (auto simp: ret_def path_fold_def answer_ok)
next
  case (Cons p ps)
  let ?R = "rev (take (unat K) D)"
  let ?i = "of_int (int (unat K) - int s - 1) :: size_t"
  have l: "off + 32 \<le> length d" "take 32 (drop off d) = p" "drop (off + 32) d = concat ps @ rest"
  proof -
    have "drop (off + 32) d = drop 32 (drop off d)" by (simp add: add.commute)
    then show "take 32 (drop off d) = p" "drop (off + 32) d = concat ps @ rest"
      using Cons.prems(2,3) by simp_all
    show "off + 32 \<le> length d"
      using arg_cong [OF Cons.prems(2), of length] Cons.prems(3) by simp
  qed
  have d: "data_at dc (buf_offset (read_buffer dc)) 32 = p"
    using answer_data [OF Cons.prems(1) l(1)] answer_offset [OF Cons.prems(1)] l(2) by simp
  have i: "unat ?i = unat K - s - 1"
    using Cons.prems(4) by (intro step_index) simp
  have st: "dc\<lparr>read_buffer := snd (buffer_seek_cur (rb dc) 32)\<rparr> = step dc 32"
    using Cons.prems(1) l(1) by (rule seek_step)
  have a: "answer d (off + 32) (step dc 32)"
    using answer_step [OF Cons.prems(1), of 32] l(1) by simp
  have dir: "merkle_get_ith_direction sz index ?i = Some (of_bool (?R ! s))"
    using assms(6-8) Cons.prems(4) i by (simp add: merkle_get_ith_direction_eq rev_nth D_def)
  define cur1 where "cur1 = path_fold sha256 [?R ! s] [p] cur"
  have "proof_steps sha256 sz index K (length (p # ps)) s cur dc = proof_steps sha256 sz index K (length ps) (Suc s) cur1 (step dc 32)"
    unfolding length_Cons proof_steps.simps Let_def d st dir
    by (cases "?R ! s") (simp_all add: cur1_def path_fold_def)
  moreover have "take (Suc (length ps)) (drop s ?R) = ?R ! s # take (length ps) (drop (Suc s) ?R)"
    using Cons.prems(4) assms(6) by (simp add: Cons_nth_drop_Suc [symmetric])
  moreover obtain dc' where "proof_steps sha256 sz index K (length ps) (Suc s) cur1 (step dc 32) =
      Some (Inr (Suc s + length ps, path_fold sha256 (take (length ps) (drop (Suc s) ?R)) ps cur1), dc')"
    "io_ok dc'" "sent dc' = sent dc" "pending dc' = pending dc"
    using Cons.IH [OF a l(3), of "Suc s" cur1] Cons.prems(3,4) by auto
  ultimately show ?case
    by (auto simp: path_fold_def cur1_def)
qed

text \<open>A procedure that first appends \<open>m\<close> to the response and goes on as \<open>k\<close>.\<close>

definition builds :: "'a proc \<Rightarrow> bytes \<Rightarrow> 'a proc \<Rightarrow> bool" where
  "builds q m k \<longleftrightarrow> (\<forall>dc. io_ok dc \<longrightarrow> length (pending dc) + length m \<le> 255 \<longrightarrow>
     (\<exists>dc'. q dc = k dc' \<and> io_ok dc' \<and> pending dc' = pending dc @ m \<and> sent dc' = sent dc))"

lemma builds_done: "builds k [] k"
  by (auto simp: builds_def)

lemma builds_add:
  assumes "builds q m k" "unat n \<le> length rdata"
  shows "builds (seqp (add rdata n) (\<lambda>_. q)) (take (unat n) rdata @ m) k"
  unfolding builds_def
proof (intro allI impI)
  fix dc
  assume dc: "io_ok dc" "length (pending dc) + length (take (unat n) rdata @ m) \<le> 255"
  then obtain dc1 where 1: "add rdata n dc = Some (Inr (), dc1)" "io_ok dc1" "pending dc1 = pending dc @ take (unat n) rdata" "sent dc1 = sent dc"
    using add_eq [of dc n rdata] assms(2) by auto
  then obtain dc' where "q dc1 = k dc'" "io_ok dc'" "pending dc' = pending dc1 @ m" "sent dc' = sent dc1"
    using assms(1) dc(2) unfolding builds_def by fastforce
  then show "\<exists>dc'. seqp (add rdata n) (\<lambda>_. q) dc = k dc' \<and> io_ok dc' \<and> pending dc' = pending dc @ take (unat n) rdata @ m \<and> sent dc' = sent dc"
    using 1 by (auto simp: seqp_run)
qed

lemma builds_finalize: "builds q m k \<Longrightarrow> builds (seqp (finalize sw) (\<lambda>_. q)) (enc_u16_be sw @ m) k"
  unfolding builds_def
proof (intro allI impI)
  fix dc
  assume q: "\<forall>dc. io_ok dc \<longrightarrow> length (pending dc) + length m \<le> 255 \<longrightarrow>
     (\<exists>dc'. q dc = k dc' \<and> io_ok dc' \<and> pending dc' = pending dc @ m \<and> sent dc' = sent dc)"
    and dc: "io_ok dc" "length (pending dc) + length (enc_u16_be sw @ m) \<le> 255"
  then have "io_ok (finalize_response sw dc)" "pending (finalize_response sw dc) = pending dc @ enc_u16_be sw"
    using finalize_response_pending [of dc sw] by simp_all
  then show "\<exists>dc'. seqp (finalize sw) (\<lambda>_. q) dc = k dc' \<and> io_ok dc' \<and> pending dc' = pending dc @ enc_u16_be sw @ m \<and> sent dc' = sent dc"
    using q [rule_format, of "finalize_response sw dc"] dc(2) by (auto simp: seqp_run finalize_eq)
qed

definition proof_request :: "bytes \<Rightarrow> u32 \<Rightarrow> u32 \<Rightarrow> bytes" where
  "proof_request root sz index = CCMD_GET_MERKLE_LEAF_PROOF # root @ varint_enc (ucast sz) @ varint_enc (ucast index) @
     enc_u16_be SW_INTERRUPTED_EXECUTION"

text \<open>The answer of the host in a message of its own.\<close>

definition reply :: "bytes \<Rightarrow> bytes" where
  "reply d = 0xF8 # 1 # 0 # 0 # of_nat (length d) # d"

lemma varint_write_take:
  assumes "length tmp = 9"
  shows "varint_write tmp 0 v = (int (varint_size v), varint_enc v @ drop (varint_size v) tmp)"
  using varint_write_splice [of 0 v tmp] varint_size_le [of v] assms by simp

lemma unat_varint_size: "unat (of_int (int (varint_size v)) :: size_t) = varint_size v"
  using varint_size_le [of v] by (simp only: of_int_of_nat_eq) (simp add: unat_of_nat_size_t)

lemma leaf_request_builds:
  assumes "length root = 32"
  shows "builds (call_get_merkle_leaf_hash sha256 host root sz index) (proof_request root sz index)
    (seqp (interrupt host (- 1)) (\<lambda>_. read_proof sha256 host root sz index))"
proof -
  let ?s = "varint_size (ucast sz)" and ?i = "varint_size (ucast index)"
  let ?k = "seqp (interrupt host (- 1)) (\<lambda>_. read_proof sha256 host root sz index)"
  define tmp where "tmp = (replicate 9 0)[0 := CCMD_GET_MERKLE_LEAF_PROOF]"
  define tmp1 where "tmp1 = varint_enc (ucast sz) @ drop ?s tmp"
  define tmp2 where "tmp2 = varint_enc (ucast index) @ drop ?i tmp1"
  have len: "length tmp = 9" "?s \<le> 9" "?i \<le> 9" "length (varint_enc (ucast sz)) = ?s" "length (varint_enc (ucast index)) = ?i"
    by (simp_all add: tmp_def varint_size_le varint_enc_length)
  then have len1: "length tmp1 = 9" "length tmp2 = 9" by (simp_all add: tmp1_def tmp2_def)
  have w: "varint_write tmp 0 (ucast sz) = (int ?s, tmp1)" "varint_write tmp1 0 (ucast index) = (int ?i, tmp2)"
    using varint_write_take len len1 by (simp_all add: tmp1_def tmp2_def)
  have e: "call_get_merkle_leaf_hash sha256 host root sz index =
     seqp (add tmp 1) (\<lambda>_. seqp (add root 32) (\<lambda>_. seqp (add tmp1 (of_int (int ?s))) (\<lambda>_.
      seqp (add tmp2 (of_int (int ?i))) (\<lambda>_. seqp (finalize SW_INTERRUPTED_EXECUTION) (\<lambda>_. ?k)))))"
    unfolding call_get_merkle_leaf_hash_def Let_def tmp_def [symmetric] w prod.case read_proof_def by (rule refl)
  have "builds (call_get_merkle_leaf_hash sha256 host root sz index)
     (take (unat (1 :: size_t)) tmp @ take (unat (32 :: size_t)) root @ take (unat (of_int (int ?s) :: size_t)) tmp1 @
      take (unat (of_int (int ?i) :: size_t)) tmp2 @ enc_u16_be SW_INTERRUPTED_EXECUTION @ []) ?k"
    unfolding e using assms len len1 unat_varint_size
    by (intro builds_add builds_finalize builds_done) simp_all
  moreover have "take 1 tmp = [CCMD_GET_MERKLE_LEAF_PROOF]"
    by (simp add: tmp_def numeral_eq_Suc)
  ultimately show ?thesis
    using assms len by (simp add: proof_request_def unat_varint_size tmp1_def tmp2_def del: of_int_of_nat_eq)
qed

lemma read_proof_run:
  fixes sz index :: u32
  defines "D \<equiv> merkle_dirs (unat sz) (unat index)"
  assumes "answer (h @ [of_nat (length ps), of_nat (length ps)] @ concat ps) 0 dc" "pending dc = []"
    and "length h = 32" "\<forall>p\<in>set ps. length p = 32" "length ps \<le> 6" "length ps \<le> length D"
    and "ps = [] \<or> index < sz \<and> unat sz \<le> 2 ^ 31" "take 32 root = merkle_up sha256 (zip (take (length ps) D) (rev ps)) h"
  shows "\<exists>dc'. read_proof sha256 host root sz index dc = Some (Inr h, dc') \<and> io_ok dc' \<and> sent dc' = sent dc \<and> pending dc' = []"
proof -
  define d where "d = h @ [of_nat (length ps), of_nat (length ps)] @ concat ps"
  let ?K = "of_nat (length ps) :: u8"
  have c: "length (concat ps) = 32 * length ps"
    using assms(5) by (induction ps) simp_all
  have d: "length d = 34 + 32 * length ps" "d ! 32 = ?K" "d ! 33 = ?K" "take 32 d = h" "drop 34 d = concat ps"
    using assms(4) c by (simp_all add: d_def nth_append)
  note a0 = assms(2) [folded d_def]
  have a1: "answer d 32 (step dc 32)" using answer_step [OF a0, of 32] d(1) by simp
  have a2: "answer d 33 (step (step dc 32) 1)" using answer_step [OF a1, of 1] d(1) by simp
  have a3: "answer d 34 (step (step (step dc 32) 1) 1)" using answer_step [OF a2, of 1] d(1) by simp
  have K: "unat ?K = length ps" using assms(6) by (simp add: unat_of_nat)
  have n: "unat (32 * ucast ?K :: size_t) = 32 * length ps"
    using K assms(6) by (simp add: unat_word_ariths unsigned_ucast_eq take_bit_eq_mod)
  have "\<exists>dc'. proof_steps sha256 sz index ?K (length ps) 0 h (step (step (step dc 32) 1) 1) =
      Some (Inr (length ps, path_fold sha256 (rev (take (length ps) D)) ps h), dc') \<and> io_ok dc' \<and> sent dc' = sent dc \<and> pending dc' = pending dc"
  proof (cases "ps = []")
    case False
    then show ?thesis
      using proof_steps_run [OF a3, of ps "[]" 0 ?K sz index sha256 h] d(5) assms(5,7,8) K by (simp add: D_def)
  qed (use answer_ok [OF a3] in \<open>auto simp: ret_def path_fold_def\<close>)
  moreover have "path_fold sha256 (rev (take (length ps) D)) ps h = take 32 root"
    using assms(7,9) by (simp add: path_fold_up)
  ultimately obtain dc' where q: "proof_steps sha256 sz index ?K (length ps) 0 h (step (step (step dc 32) 1) 1) = Some (Inr (length ps, take 32 root), dc')"
    "io_ok dc'" "sent dc' = sent dc" "pending dc' = pending dc"
    by auto
  then have p: "proof_loop sha256 host sz index ?K ?K 0 h (step (step (step dc 32) 1) 1) = Some (Inr (take 32 root), dc')"
    by (subst proof_loop.simps) (simp add: K seqp_run ret_def)
  have "read_proof sha256 host root sz index dc = Some (Inr h, dc')"
    unfolding read_proof_def
    by (simp add: seqp_rd_bytes [OF a0] seqp_rd_u8 [OF a1] seqp_rd_u8 [OF a2] seqp_require seqp_can_rd [OF a3] d n p seqp_Inr [of "proof_loop _ _ _ _ _ _ _ _"]
        ret_def)
  then show ?thesis using q assms(3) by auto
qed

lemma leaf_hash_run:
  fixes sz index :: u32
  defines "D \<equiv> merkle_dirs (unat sz) (unat index)"
  assumes "io_ok dc" "pending dc = []" "length root = 32"
    and "host (sent dc @ [proof_request root sz index]) = Some (reply (h @ [of_nat (length ps), of_nat (length ps)] @ concat ps))"
    and "length h = 32" "\<forall>p\<in>set ps. length p = 32" "length ps \<le> 6" "length ps \<le> length D"
    and "ps = [] \<or> index < sz \<and> unat sz \<le> 2 ^ 31" "root = merkle_up sha256 (zip (take (length ps) D) (rev ps)) h"
  shows "\<exists>dc'. call_get_merkle_leaf_hash sha256 host root sz index dc = Some (Inr h, dc') \<and> io_ok dc' \<and>
    sent dc' = sent dc @ [proof_request root sz index] \<and> pending dc' = []"
proof -
  let ?d = "h @ [of_nat (length ps), of_nat (length ps)] @ concat ps"
  have c: "length (concat ps) = 32 * length ps"
    using assms(7) by (induction ps) simp_all
  have "length (proof_request root sz index) \<le> 255"
    using assms(4) varint_size_le [of "ucast sz"] varint_size_le [of "ucast index"]
    by (simp add: proof_request_def varint_enc_length enc_u16_be_def)
  then obtain dc1 where 1: "call_get_merkle_leaf_hash sha256 host root sz index dc = seqp (interrupt host (- 1)) (\<lambda>_. read_proof sha256 host root sz index) dc1"
    "io_ok dc1" "pending dc1 = proof_request root sz index" "sent dc1 = sent dc"
    using leaf_request_builds [OF assms(4), of sha256 host sz index] assms(2,3) by (auto simp: builds_def)
  have "length ?d \<le> 255" using assms(6,8) c by simp
  then obtain dc2 where 2: "interrupt host (- 1) dc1 = Some (Inr (), dc2)" "answer ?d 0 dc2" "sent dc2 = sent dc @ [proof_request root sz index]" "pending dc2 = []"
    using interrupt_run [of dc1 host 0 0 ?d "- 1"] 1 assms(5) by (auto simp: reply_def)
  show ?thesis
    using read_proof_run [OF 2(2,4) assms(6,7,8), of sz index root sha256 host] assms(4,9-) 1(1) 2(1,3) by (simp add: seqp_run D_def)
qed

text \<open>The siblings on the path to a leaf, from the root down.\<close>

function merkle_path :: "(bytes \<Rightarrow> bytes) \<Rightarrow> bytes list \<Rightarrow> nat \<Rightarrow> (bool \<times> bytes) list" where
  "merkle_path sha256 hs i =
     (if length hs \<le> 1 then []
      else let l = take (split_point (length hs)) hs; r = drop (split_point (length hs)) hs
           in if i < split_point (length hs) then (False, merkle_root sha256 r) # merkle_path sha256 l i
              else (True, merkle_root sha256 l) # merkle_path sha256 r (i - split_point (length hs)))"
  by pat_completeness auto

termination
  by (relation "measure (\<lambda>(sha256, hs, i). length hs)") (auto simp: split_point_less not_le)

declare merkle_path.simps [simp del]

lemma merkle_path_correct:
  assumes "i < length hs"
  shows "map fst (merkle_path sha256 hs i) = merkle_dirs (length hs) i \<and> merkle_up sha256 (merkle_path sha256 hs i) (hs ! i) = merkle_root sha256 hs"
  using assms
proof (induction sha256 hs i rule: merkle_path.induct)
  case (1 sha256 hs i)
  show ?case
  proof (cases "length hs \<le> 1")
    case True
    then obtain h where "hs = [h]" using "1.prems" by (cases hs) auto
    then show ?thesis using "1.prems" by (simp add: merkle_path.simps merkle_dirs_small merkle_root.simps)
  next
    case False
    then have n: "1 < length hs" by simp
    let ?m = "split_point (length hs)"
    note sp = split_point_bounds [OF n]
    show ?thesis
    proof (cases "i < ?m")
      case True
      then show ?thesis
        using "1.IH"(1) [OF False refl refl True] sp n
        by (simp add: merkle_path.simps [of _ hs] merkle_dirs_step [OF n] merkle_root.simps [of _ hs] Let_def)
    next
      case i: False
      then show ?thesis
        using "1.IH"(2) [OF False refl refl i] sp n "1.prems"
        by (simp add: merkle_path.simps [of _ hs] merkle_dirs_step [OF n] merkle_root.simps [of _ hs] Let_def)
    qed
  qed
qed

lemma merkle_path_lengths:
  assumes "\<forall>x. length (sha256 x) = 32" "\<forall>x\<in>set hs. length x = 32" "i < length hs"
  shows "\<forall>p\<in>set (map snd (merkle_path sha256 hs i)). length p = 32"
  using assms
proof (induction sha256 hs i rule: merkle_path.induct)
  case (1 sha256 hs i)
  let ?m = "split_point (length hs)"
  show ?case
  proof (cases "length hs \<le> 1")
    case False
    then have n: "1 < length hs" and "hs \<noteq> []" by auto
    note sp = split_point_bounds [OF n]
    have s: "\<forall>x\<in>set (take ?m hs). length x = 32" "\<forall>x\<in>set (drop ?m hs). length x = 32"
      using "1.prems"(2) by (auto dest: in_set_takeD in_set_dropD)
    then have r: "length (merkle_root sha256 (take ?m hs)) = 32" "length (merkle_root sha256 (drop ?m hs)) = 32"
      using "1.prems"(1) sp \<open>hs \<noteq> []\<close> by (auto intro!: merkle_root_length)
    show ?thesis
      using "1.IH"(1) [OF False refl refl _ "1.prems"(1) s(1)] "1.IH"(2) [OF False refl refl _ "1.prems"(1) s(2)] r sp n "1.prems"(3)
      by (auto simp: merkle_path.simps [of _ hs] Let_def)
  qed (simp add: merkle_path.simps)
qed

end
