(* ===== verification/Client_Props.thy ===== *)
theory Client_Props
  imports Client_Sound
begin

text \<open>
  What the device knows of data that it fetched from the host, and what an honest host gets.
\<close>

section \<open>Concrete instances\<close>

definition idle :: dispatcher_state where
  "idle = \<lparr>io_apdu_buffer = replicate 260 0, output_len = 0, sent = [], disp_sw = 0, had_ux_flow = False,
     was_processing_screen_shown = False, ticks = 0, timeout_interruption = False, timeout_processing = False,
     interruption_timeout_start_tick = 0, processing_timeout_start_tick = 0, read_buffer = buffer_create 0 [] 0\<rparr>"

text \<open>A digest of 32 bytes that computes, and a host with a list of answers.\<close>

definition digest32 :: "bytes \<Rightarrow> bytes" where
  "digest32 x = take 32 (x @ replicate 32 0)"

definition scripted :: "bytes list \<Rightarrow> host" where
  "scripted as msgs = (if 0 < length msgs \<and> length msgs \<le> length as then Some (as ! (length msgs - 1)) else None)"

lemma idle_simps [simp]: "io_ok idle" "pending idle = []" "sent idle = []"
  by (simp_all add: idle_def io_ok_def pending_def IO_APDU_BUFFER_SIZE_def)

lemma digest32_length [simp]: "length (digest32 x) = 32"
  by (simp add: digest32_def)

lemma scripted_1 [simp]: "scripted (a # as) [m] = Some a"
  by (simp add: scripted_def)

definition leaf_a :: bytes where "leaf_a = replicate 32 7"
definition leaf_b :: bytes where "leaf_b = replicate 32 9"

lemma leaf_lengths [simp]: "length leaf_a = 32" "length leaf_b = 32"
  by (simp_all add: leaf_a_def leaf_b_def)

lemma split_point_2 [simp]: "split_point 2 = 1"
  by (simp add: split_point_def clog.simps [of 2] clog.simps [of "Suc 0"])

lemma merkle_root_2: "merkle_root sha256 [a, b] = merkle_combine_hashes sha256 a b"
  by (simp add: merkle_root.simps [of _ "[a, b]"] merkle_root.simps [of _ "[a]"] merkle_root.simps [of _ "[b]"] split_point_2 [unfolded numeral_2_eq_2])

lemma merkle_dirs_2: "merkle_dirs 2 0 = [False]"
  by (simp add: merkle_dirs_step merkle_dirs_small)

lemma leaf_hash_instance:
  "\<exists>dc'. call_get_merkle_leaf_hash digest32 (scripted [reply (leaf_a @ [1, 1] @ leaf_b)]) (merkle_root digest32 [leaf_a, leaf_b]) 2 0 idle =
     Some (Inr leaf_a, dc')"
  using leaf_hash_run [of idle "merkle_root digest32 [leaf_a, leaf_b]" "scripted [reply (leaf_a @ [1, 1] @ leaf_b)]" 2 0 leaf_a "[leaf_b]" digest32]
  by (auto simp: merkle_root_2 merkle_dirs_2 merkle_combine_eq)

section \<open>Merkle proofs\<close>



lemma length_merkle_path:
  assumes "i < length hs"
  shows "length (merkle_path sha256 hs i) = length (merkle_dirs (length hs) i)"
  using merkle_path_correct [OF assms, of sha256] by (metis length_map)

text \<open>C23: A host that answers the request for a leaf with the hash of the leaf and the siblings on its
  path is believed: for a tree of at most 64 leaves, whose paths fit into one message,
  \<open>call_get_merkle_leaf_hash\<close> returns the leaf, after one request.\<close>
theorem call_get_merkle_leaf_hash_complete:
  fixes index :: u32
  assumes "\<forall>x. length (sha256 x) = 32" "io_ok dc" "pending dc = []" "\<forall>x\<in>set leaves. length x = 32"
    and "length leaves = unat sz" "index < sz" "unat sz \<le> 64" "root = merkle_root sha256 leaves"
    and "path = rev (map snd (merkle_path sha256 leaves (unat index)))"
    and "host (sent dc @ [proof_request root sz index]) =
      Some (reply (leaves ! unat index @ [of_nat (length path), of_nat (length path)] @ concat path))"
  shows "\<exists>dc'. call_get_merkle_leaf_hash sha256 host root sz index dc = Some (Inr (leaves ! unat index), dc') \<and>
    io_ok dc' \<and> sent dc' = sent dc @ [proof_request root sz index] \<and> pending dc' = []"
proof (rule leaf_hash_run [where ps = path and h = "leaves ! unat index" and dc = dc and host = host and root = root and sz = sz and index = index, OF assms(2,3) _ assms(10)])
  let ?D = "merkle_dirs (unat sz) (unat index)"
  have i: "unat index < length leaves" using assms(5,6) by (simp add: word_less_nat_alt)
  have l: "length path = length ?D" using i assms(5,9) by (simp add: length_merkle_path)
  show "length root = 32"
    using assms(1,4,8) i by (auto intro!: merkle_root_length)
  show "length (leaves ! unat index) = 32" using i assms(4) by simp
  show "\<forall>p\<in>set path. length p = 32"
    using merkle_path_lengths [OF assms(1,4) i] assms(9) by simp
  show "length path \<le> 6" using merkle_dirs_length [of "unat sz" 6] assms(7) l by simp
  show "length path \<le> length ?D" using l by simp
  show "path = [] \<or> index < sz \<and> unat sz \<le> 2 ^ 31" using assms(6,7) by simp
  have "zip (take (length path) ?D) (rev path) = merkle_path sha256 leaves (unat index)"
    using merkle_path_correct [OF i, of sha256] assms(5,9) l by (metis rev_rev_ident take_all order_refl zip_map_fst_snd)
  then show "root = merkle_up sha256 (zip (take (length path) ?D) (rev path)) (leaves ! unat index)"
    using merkle_path_correct [OF i, of sha256] assms(8) by simp
qed

lemma merkle_path_2: "merkle_path sha256 [a, b] 0 = [(False, b)]"
  by (simp add: merkle_path.simps [of _ "[a, b]"] merkle_path.simps [of _ "[a]"] merkle_root.simps [of _ "[b]"] split_point_2 [unfolded numeral_2_eq_2])

theorem call_get_merkle_leaf_hash_complete_witness:
  "\<exists>dc'. call_get_merkle_leaf_hash digest32 (scripted [reply (leaf_a @ [1, 1] @ leaf_b)]) (merkle_root digest32 [leaf_a, leaf_b]) 2 0 idle =
     Some (Inr leaf_a, dc')"
  using call_get_merkle_leaf_hash_complete [of digest32 idle "[leaf_a, leaf_b]" 2 0 "merkle_root digest32 [leaf_a, leaf_b]" "[leaf_b]"
      "scripted [reply (leaf_a @ [1, 1] @ leaf_b)]"]
  by (auto simp: merkle_path_2)

text \<open>C25: The number of steps of a proof is the host's choice: with no step at all, the root of the
  tree is accepted as the hash of each of its leaves.\<close>
theorem call_get_merkle_leaf_hash_accepts_root:
  assumes "io_ok dc" "pending dc = []" "length root = 32"
    and "host (sent dc @ [proof_request root sz index]) = Some (reply (root @ [0, 0]))"
  shows "\<exists>dc'. call_get_merkle_leaf_hash sha256 host root sz index dc = Some (Inr root, dc')"
  using leaf_hash_run [of dc root host sz index root "[]" sha256] assms by auto

theorem call_get_merkle_leaf_hash_accepts_root_witness:
  "\<exists>dc'. call_get_merkle_leaf_hash digest32 (scripted [reply (leaf_a @ [0, 0])]) leaf_a 5 3 idle = Some (Inr leaf_a, dc')"
  using call_get_merkle_leaf_hash_accepts_root [of idle leaf_a "scripted [reply (leaf_a @ [0, 0])]" 5 3 digest32] by simp

end
