(* ===== verification/Policy_Compile.thy ===== *)
theory Policy_Compile
  imports Policy_Script "HOL-Library.Multiset"
begin

text \<open>
  The stack machine of \<open>src/handler/lib/policy.c\<close> against a reference: \<open>node_script\<close> is the
  translation of a policy to Bitcoin Script as the miniscript specification gives it, by recursion
  on the policy. The machine emits exactly that script, for every policy whose fragments are
  allowed and whose nesting fits the stack.
\<close>

section \<open>The reference translation\<close>

text \<open>The last opcode of a fragment under a \<open>v:\<close> wrapper.\<close>

definition op_verify :: "bool \<Rightarrow> u8 \<Rightarrow> bytes" where
  "op_verify v op =
     (if \<not> v then [op]
      else if op \<in> {OP_CHECKSIG, OP_CHECKMULTISIG, OP_NUMEQUAL, OP_EQUAL} then [op + 1]
      else [op, OP_VERIFY])"

text \<open>The minimal push of a number: an opcode for 0 to 16, or its little-endian bytes with a zero
  byte behind them where the highest bit is set.\<close>

definition script_number :: "u32 \<Rightarrow> bytes" where
  "script_number n =
     (let bs = write_u32_le (replicate 4 0) 0 n;
          m = (if n < 0x100 then 1 else if n < 0x10000 then 2 else if n < 0x1000000 then 3 else 4)
      in take m bs @ (if bs ! (m - 1) \<ge> 0x80 then [0] else []))"

definition push_number :: "u32 \<Rightarrow> bytes" where
  "push_number n =
     (if n = 0 then [OP_0] else if n \<le> 16 then [0x50 + ucast n]
      else of_nat (length (script_number n)) # script_number n)"

definition push_key :: "bool \<Rightarrow> bytes \<Rightarrow> bytes" where
  "push_key tap pk = (if tap then 32 # drop 1 pk else 33 # pk)"

definition push_hash160 :: "hash_fns \<Rightarrow> bytes \<Rightarrow> bytes" where
  "push_hash160 hf pk = 20 # crypto_hash160 hf pk"

text \<open>The keys of a multisignature: whole, or without their first byte in a taproot leaf.\<close>

definition multi_keys :: "(key_placeholder \<Rightarrow> bytes) \<Rightarrow> PolicyNodeType \<Rightarrow> key_placeholder list \<Rightarrow> bytes list" where
  "multi_keys key t kps =
     (let skip = (if t \<in> {TOKEN_MULTI, TOKEN_SORTEDMULTI} then 0 else 1);
          keys = map (\<lambda>kp. drop skip (key kp)) kps
      in if t \<in> {TOKEN_SORTEDMULTI, TOKEN_SORTEDMULTI_A} then sort keys else keys)"

text \<open>\<open>node_script key hf tap v x\<close> is the script of the fragment \<open>x\<close>, in a taproot leaf if \<open>tap\<close> and
  directly under \<open>v:\<close> if \<open>v\<close>.\<close>

fun node_script :: "(key_placeholder \<Rightarrow> bytes) \<Rightarrow> hash_fns \<Rightarrow> bool \<Rightarrow> bool \<Rightarrow> policy_node \<Rightarrow> bytes" where
  "node_script key hf tap v (Node_constant t _) = op_verify v (if t = TOKEN_0 then OP_0 else OP_1)"
| "node_script key hf tap v (Node_with_key t _ kp) =
     (if t = TOKEN_PK_K then push_key tap (key kp)
      else if t = TOKEN_PK_H then [OP_DUP, OP_HASH160] @ push_hash160 hf (key kp) @ [OP_EQUALVERIFY]
      else if t = TOKEN_PK then push_key tap (key kp) @ op_verify v OP_CHECKSIG
      else if t = TOKEN_PKH then [OP_DUP, OP_HASH160] @ push_hash160 hf (key kp) @ [OP_EQUALVERIFY] @ op_verify v OP_CHECKSIG
      else [OP_0] @ push_hash160 hf (key kp))"
| "node_script key hf tap v (Node_with_uint32 t _ n) =
     push_number n @ op_verify v (if t = TOKEN_OLDER then OP_CSV else OP_CLTV)"
| "node_script key hf tap v (Node_with_hash_256 t _ h) =
     [OP_SIZE, 1, 32, OP_EQUALVERIFY, if t = TOKEN_SHA256 then OP_SHA256 else OP_HASH256, 32] @ h @ op_verify v OP_EQUAL"
| "node_script key hf tap v (Node_with_hash_160 t _ h) =
     [OP_SIZE, 1, 32, OP_EQUALVERIFY, if t = TOKEN_RIPEMD160 then OP_RIPEMD160 else OP_HASH160, 20] @ h @ op_verify v OP_EQUAL"
| "node_script key hf tap v (Node_with_script3 _ _ x y z) =
     node_script key hf tap False x @ [OP_NOTIF] @ node_script key hf tap False z @ [OP_ELSE] @
     node_script key hf tap False y @ op_verify v OP_ENDIF"
| "node_script key hf tap v (Node_with_script2 t _ x y) =
     (let X = node_script key hf tap False x; Y = node_script key hf tap False y
      in if t = TOKEN_AND_V then X @ node_script key hf tap v y
         else if t = TOKEN_AND_B then X @ Y @ op_verify v OP_BOOLAND
         else if t = TOKEN_AND_N then X @ [OP_NOTIF, OP_0, OP_ELSE] @ Y @ op_verify v OP_ENDIF
         else if t = TOKEN_OR_B then X @ Y @ op_verify v OP_BOOLOR
         else if t = TOKEN_OR_C then X @ [OP_NOTIF] @ Y @ op_verify v OP_ENDIF
         else if t = TOKEN_OR_D then X @ [OP_IFDUP, OP_NOTIF] @ Y @ op_verify v OP_ENDIF
         else [OP_IF] @ X @ [OP_ELSE] @ Y @ op_verify v OP_ENDIF)"
| "node_script key hf tap v (Node_with_script t _ x) =
     (let X = node_script key hf tap False x
      in if t = TOKEN_A then [OP_TOALTSTACK] @ X @ [OP_FROMALTSTACK]
         else if t = TOKEN_S then [OP_SWAP] @ X
         else if t = TOKEN_C then X @ op_verify v OP_CHECKSIG
         else if t = TOKEN_T then X @ op_verify v OP_1
         else if t = TOKEN_D then [OP_DUP, OP_IF] @ X @ op_verify v OP_ENDIF
         else if t = TOKEN_V then node_script key hf tap True x
         else if t = TOKEN_J then [OP_SIZE, OP_0NOTEQUAL, OP_IF] @ X @ op_verify v OP_ENDIF
         else if t = TOKEN_N then X @ op_verify v OP_0NOTEQUAL
         else if t = TOKEN_L then [OP_IF, OP_0, OP_ELSE] @ X @ op_verify v OP_ENDIF
         else [OP_IF] @ X @ [OP_ELSE, OP_0] @ op_verify v OP_ENDIF)"
| "node_script key hf tap v (Node_thresh _ _ k xs) =
     (case map (node_script key hf tap False) xs of
        [] \<Rightarrow> []
      | X # Xs \<Rightarrow> X @ concat (map (\<lambda>Y. Y @ [OP_ADD]) Xs)) @ push_number (of_nat k) @ op_verify v OP_EQUAL"
| "node_script key hf tap v (Node_multisig t _ k kps) =
     (let keys = multi_keys key t kps
      in if t = TOKEN_MULTI \<or> t = TOKEN_SORTEDMULTI
         then [0x50 + of_nat k] @ concat (map ((#) 33) keys) @ [0x50 + of_nat (length kps)] @ op_verify v OP_CHECKMULTISIG
         else concat (map (\<lambda>(i, pk). 32 # pk @ [if i = 0 then OP_CHECKSIG else OP_CHECKSIGADD]) (enumerate 0 keys)) @
              [0x50 + of_nat k] @ op_verify v OP_NUMEQUAL)"
| "node_script key hf tap v (Node_tr _ _ _ _) = []"

text \<open>The number of entries of the stack that a fragment needs, and the conditions under which the
  machine handles it: every fragment is of the given list, has the shape its token asks for, and
  the keys are few enough. \<open>junk\<close> is the byte that \<open>sortedmulti_a\<close> leaves uninitialised.\<close>

fun node_height :: "policy_node \<Rightarrow> nat" where
  "node_height (Node_with_script _ _ x) = Suc (node_height x)"
| "node_height (Node_with_script2 _ _ x y) = Suc (max (node_height x) (node_height y))"
| "node_height (Node_with_script3 _ _ x y z) = Suc (max (node_height x) (max (node_height y) (node_height z)))"
| "node_height (Node_thresh _ _ _ xs) = Suc (fold max (map node_height xs) 0)"
| "node_height _ = 1"

fun node_emittable :: "u8 \<Rightarrow> PolicyNodeType list \<Rightarrow> policy_node \<Rightarrow> bool" where
  "node_emittable junk wl (Node_constant t _) \<longleftrightarrow> t \<in> set wl \<and> t \<in> {TOKEN_0, TOKEN_1}"
| "node_emittable junk wl (Node_with_key t _ _) \<longleftrightarrow>
     t \<in> set wl \<and> t \<in> {TOKEN_PK_K, TOKEN_PK_H, TOKEN_PK, TOKEN_PKH, TOKEN_WPKH}"
| "node_emittable junk wl (Node_with_uint32 t _ _) \<longleftrightarrow> t \<in> set wl \<and> t \<in> {TOKEN_OLDER, TOKEN_AFTER}"
| "node_emittable junk wl (Node_with_hash_256 t _ h) \<longleftrightarrow> t \<in> set wl \<and> t \<in> {TOKEN_SHA256, TOKEN_HASH256}"
| "node_emittable junk wl (Node_with_hash_160 t _ h) \<longleftrightarrow> t \<in> set wl \<and> t \<in> {TOKEN_RIPEMD160, TOKEN_HASH160}"
| "node_emittable junk wl (Node_with_script3 t _ x y z) \<longleftrightarrow>
     t \<in> set wl \<and> t = TOKEN_ANDOR \<and> node_emittable junk wl x \<and> node_emittable junk wl y \<and> node_emittable junk wl z"
| "node_emittable junk wl (Node_with_script2 t _ x y) \<longleftrightarrow>
     t \<in> set wl \<and> t \<in> {TOKEN_AND_V, TOKEN_AND_B, TOKEN_AND_N, TOKEN_OR_B, TOKEN_OR_C, TOKEN_OR_D, TOKEN_OR_I} \<and>
     node_emittable junk wl x \<and> node_emittable junk wl y"
| "node_emittable junk wl (Node_with_script t _ x) \<longleftrightarrow>
     t \<in> set wl \<and> t \<in> {TOKEN_A, TOKEN_S, TOKEN_C, TOKEN_T, TOKEN_D, TOKEN_V, TOKEN_J, TOKEN_N, TOKEN_L, TOKEN_U} \<and>
     node_emittable junk wl x"
| "node_emittable junk wl (Node_thresh t _ k xs) \<longleftrightarrow>
     t \<in> set wl \<and> t = TOKEN_THRESH \<and> xs \<noteq> [] \<and> length xs < 256 \<and> list_all (node_emittable junk wl) xs"
| "node_emittable junk wl (Node_multisig t _ k kps) \<longleftrightarrow>
     t \<in> set wl \<and> t \<in> {TOKEN_MULTI, TOKEN_SORTEDMULTI, TOKEN_MULTI_A, TOKEN_SORTEDMULTI_A} \<and> k \<le> 16 \<and>
     length kps \<le> (if t = TOKEN_SORTEDMULTI_A \<and> junk \<noteq> 0 then 8 else 16)"
| "node_emittable junk wl (Node_tr _ _ _ _) \<longleftrightarrow> False"

section \<open>Keys\<close>

text \<open>What the machine relies on: a derivation that succeeds gives the key of its placeholder, and a
  key is 33 bytes whose x coordinate is not the largest value.\<close>

definition valid_pubkey :: "bytes \<Rightarrow> bool" where
  "valid_pubkey pk \<longleftrightarrow> length pk = 33 \<and> drop 1 pk \<noteq> replicate 32 0xFF"

definition derives :: "'d derive_pubkey \<Rightarrow> (key_placeholder \<Rightarrow> bytes) \<Rightarrow> bool" where
  "derives derive key \<longleftrightarrow>
     (\<forall>kp dc pk dc'. derive kp dc = Some (pk, dc') \<longrightarrow> pk = key kp) \<and> (\<forall>kp. valid_pubkey (key kp))"

definition derivation_fails :: "'d derive_pubkey \<Rightarrow> bool" where
  "derivation_fails derive \<longleftrightarrow> (\<exists>kp dc. derive kp dc = None)"

lemma derive_cases:
  assumes "derives derive key"
  obtains "derive kp dc = None" "derivation_fails derive" | dc' where "derive kp dc = Some (key kp, dc')"
proof (cases "derive kp dc")
  case None
  then have "derivation_fails derive" unfolding derivation_fails_def by blast
  then show thesis using that(1) None by blast
next
  case (Some r)
  then obtain pk dc' where "derive kp dc = Some (pk, dc')" by (cases r) simp
  moreover from this have "pk = key kp" using assms unfolding derives_def by blast
  ultimately show thesis using that(2) by simp
qed

lemma cmp_arrays_less: "length a = n \<Longrightarrow> length b = n \<Longrightarrow> cmp_arrays a b n > 0 \<longleftrightarrow> b < a"
proof (induction n arbitrary: a b)
  case (Suc n)
  then obtain x xs y ys where "a = x # xs" "b = y # ys" by (metis length_Suc_conv)
  then show ?case using Suc by (auto simp: Let_def word_less_def word_uint_eq_iff)
qed simp

lemma less_max_bytes: "length bs = n \<Longrightarrow> bs \<noteq> replicate n 0xFF \<Longrightarrow> bs < replicate n (0xFF :: u8)"
proof (induction n arbitrary: bs)
  case (Suc n)
  then obtain x xs where bs: "bs = x # xs" "length xs = n" by (metis length_Suc_conv)
  have "x \<le> 0xFF" using unsigned_less [of x, where ?'a = nat] by (simp add: word_le_nat_alt)
  with Suc bs show ?case by auto
qed simp

text \<open>One round of the search for the smallest key.\<close>

definition pick_smaller :: "(nat \<Rightarrow> bytes) \<Rightarrow> nat \<Rightarrow> nat \<Rightarrow> bytes \<times> nat option \<Rightarrow> bytes \<times> nat option" where
  "pick_smaller K skip j acc = (if drop skip (K j) < drop skip (fst acc) then (K j, Some j) else acc)"

lemma fold_pick_smaller:
  "fold (pick_smaller K skip) R acc = acc \<and> (\<forall>i \<in> set R. drop skip (fst acc) \<le> drop skip (K i)) \<or>
   (\<exists>m \<in> set R. fold (pick_smaller K skip) R acc = (K m, Some m) \<and> drop skip (K m) < drop skip (fst acc) \<and>
      (\<forall>i \<in> set R. drop skip (K m) \<le> drop skip (K i)))"
proof (induction R arbitrary: acc)
  case (Cons j R)
  show ?case
  proof (cases "drop skip (K j) < drop skip (fst acc)")
    case True
    then have e: "pick_smaller K skip j acc = (K j, Some j)" by (simp add: pick_smaller_def)
    show ?thesis using Cons [of "(K j, Some j)"] True by (auto simp: e)
  next
    case False
    then have "pick_smaller K skip j acc = acc" by (simp add: pick_smaller_def)
    then show ?thesis using Cons [of acc] False by auto
  qed
qed simp

definition unused :: "bytes \<Rightarrow> nat \<Rightarrow> nat \<Rightarrow> nat list" where
  "unused used j n = filter (\<lambda>i. \<not> bitvector_get used i) [j..<n]"

lemma unused_step:
  "j < n \<Longrightarrow> unused used j n = (if bitvector_get used j then unused used (Suc j) n else j # unused used (Suc j) n)"
  by (simp add: unused_def upt_conv_Cons)

lemma smallest_unused_fold:
  assumes d: "derives derive key" and s: "skip \<le> 33"
  shows "length (fst acc) = 33 \<Longrightarrow>
    smallest_unused derive skip used (drop j kps) j acc dc = None \<and> derivation_fails derive \<or>
    (\<exists>dc'. smallest_unused derive skip used (drop j kps) j acc dc =
       Some (fold (pick_smaller (\<lambda>i. key (kps ! i)) skip) (unused used j (length kps)) acc, dc'))"
proof (induction "length kps - j" arbitrary: j acc dc)
  case 0
  then show ?case by (simp add: unused_def)
next
  case (Suc n)
  then have j: "j < length kps" and n: "n = length kps - Suc j" by simp_all
  note dr = Cons_nth_drop_Suc [OF j, symmetric]
  have k: "length (key (kps ! j)) = 33" using d by (simp add: derives_def valid_pubkey_def)
  show ?case
  proof (cases "bitvector_get used j")
    case True
    then show ?thesis using Suc.hyps(1) [OF n Suc.prems, of dc] by (simp add: dr unused_step [OF j])
  next
    case False
    show ?thesis
    proof (cases rule: derive_cases [OF d, of "kps ! j" dc])
      case 1
      then show ?thesis using False by (simp add: dr)
    next
      case (2 dc')
      have "cmp_arrays (drop skip (fst acc)) (drop skip (key (kps ! j))) (33 - skip) > 0 \<longleftrightarrow>
          drop skip (key (kps ! j)) < drop skip (fst acc)"
        using Suc.prems k by (intro cmp_arrays_less) simp_all
      then have e: "smallest_unused derive skip used (drop j kps) j acc dc =
          smallest_unused derive skip used (drop (Suc j) kps) (Suc j) (pick_smaller (\<lambda>i. key (kps ! i)) skip j acc) dc'"
        using False 2 by (simp add: dr pick_smaller_def)
      have "length (fst (pick_smaller (\<lambda>i. key (kps ! i)) skip j acc)) = 33"
        using Suc.prems k by (simp add: pick_smaller_def)
      then show ?thesis using Suc.hyps(1) [OF n, of _ dc'] False by (simp add: e unused_step [OF j])
    qed
  qed
qed

lemma next_sorted_key_smallest:
  assumes d: "derives derive key" and s: "skip \<le> 1" and R: "unused used 0 (length kps) \<noteq> []"
  shows "next_sorted_key derive skip kps used dc = None \<and> derivation_fails derive \<or>
    (\<exists>m dc'. m \<in> set (unused used 0 (length kps)) \<and>
       (\<forall>i \<in> set (unused used 0 (length kps)). drop skip (key (kps ! m)) \<le> drop skip (key (kps ! i))) \<and>
       next_sorted_key derive skip kps used dc = Some (key (kps ! m), bitvector_set used m True, dc'))"
proof -
  let ?R = "unused used 0 (length kps)" and ?acc = "(replicate 33 0xFF, None) :: bytes \<times> nat option"
  have less: "drop skip (key kp) < drop skip (replicate 33 0xFF)" for kp
  proof -
    have v: "length (key kp) = 33" "drop 1 (key kp) \<noteq> replicate 32 0xFF"
      using d by (simp_all add: derives_def valid_pubkey_def)
    have "drop skip (key kp) \<noteq> replicate (33 - skip) 0xFF"
      using v(2) s by (cases skip) auto
    moreover have "length (drop skip (key kp)) = 33 - skip" using v(1) by simp
    ultimately have "drop skip (key kp) \<noteq> replicate (33 - skip) 0xFF" "length (drop skip (key kp)) = 33 - skip" .
    then show ?thesis by (simp add: less_max_bytes)
  qed
  obtain i where "i \<in> set ?R" using R by (cases ?R) auto
  then obtain m where m: "m \<in> set ?R" "fold (pick_smaller (\<lambda>i. key (kps ! i)) skip) ?R ?acc = (key (kps ! m), Some m)"
      "\<forall>i \<in> set ?R. drop skip (key (kps ! m)) \<le> drop skip (key (kps ! i))"
    using fold_pick_smaller [of "\<lambda>i. key (kps ! i)" skip ?R ?acc] less by (auto dest: leD)
  show ?thesis
    using smallest_unused_fold [OF d, of skip ?acc used 0 kps dc] s m
    by (auto simp: next_sorted_key_def)
qed

lemma sort_pick:
  assumes "m \<in> set R" and "\<forall>i \<in> set R. g m \<le> g i"
  shows "sort (map g R) = g m # sort (map g (remove1 m R))"
proof (rule properties_for_sort)
  show "mset (g m # sort (map g (remove1 m R))) = mset (map g R)"
    using assms(1) by (simp add: image_mset_Diff)
  show "sorted (g m # sort (map g (remove1 m R)))"
    using assms(2) notin_set_remove1 [of _ R m] by auto
qed

lemma unused_set:
  assumes "m \<in> set (unused used 0 n)" and "n \<le> 8 * length used"
  shows "unused (bitvector_set used m True) 0 n = remove1 m (unused used 0 n)"
proof -
  have m: "m < n" using assms(1) by (simp add: unused_def)
  have dist: "distinct (unused used 0 n)" by (simp add: unused_def)
  have "unused (bitvector_set used m True) 0 n = filter (\<lambda>i. i \<noteq> m) (unused used 0 n)"
    unfolding unused_def filter_filter using assms(2) m
    by (intro filter_cong) (auto simp: bitvector_get_set)
  also have "\<dots> = remove1 m (unused used 0 n)"
    unfolding distinct_remove1_removeAll [OF dist] removeAll_filter_not_eq by (rule filter_cong) auto
  finally show ?thesis .
qed

section \<open>The machine on a state with a current node\<close>

abbreviation nd :: "policy_node \<Rightarrow> u16 \<Rightarrow> u8 \<Rightarrow> bool \<Rightarrow> policy_parser_node_state" where
  "nd x len s v \<equiv> \<lparr>pn_node = x, pn_length = len, pn_step = s, pn_flag_v = v\<rparr>"

abbreviation stt :: "'d \<Rightarrow> bool \<Rightarrow> policy_parser_node_state list \<Rightarrow> hash_context option \<Rightarrow> 'd policy_parser_state" where
  "stt d tap ns h \<equiv> \<lparr>ps_dc = d, ps_is_taproot = tap, ps_nodes = ns, ps_hash_context = h\<rparr>"

definition happ :: "hash_context option \<Rightarrow> bytes \<Rightarrow> hash_context option" where
  "happ h bs = map_option (\<lambda>ctx. ctx @ bs) h"

lemma happ_simps [simp]: "happ (happ h a) b = happ h (a @ b)" "happ h [] = h"
  by (cases h; simp add: happ_def)+

lemma update_output_stt [simp]:
  "update_output (stt d tap (nd x len s v # rest) h) bs = stt d tap (nd x (len + of_nat (length bs)) s v # rest) (happ h bs)"
  by (simp add: update_output_def happ_def crypto_hash_update_def)

lemma update_output_u8_stt [simp]:
  "update_output_u8 (stt d tap (nd x len s v # rest) h) b = stt d tap (nd x (len + 1) s v # rest) (happ h [b])"
  by (simp add: update_output_u8_def)

lemma update_output_op_v_stt [simp]:
  "update_output_op_v (stt d tap (nd x len s v # rest) h) op =
     stt d tap (nd x (len + of_nat (length (op_verify v op))) s v # rest) (happ h (op_verify v op))"
  by (simp add: update_output_op_v_def top_flag_v_def op_verify_def)

section \<open>Multisignatures\<close>

lemma multi_keys_loop_unsorted:
  assumes d: "derives derive key"
    and e: "\<And>i pk st. length pk = 33 \<Longrightarrow> emit i pk st = update_output st (E i (drop skip pk))"
  shows "i + n = length kps \<Longrightarrow>
    multi_keys_loop derive False skip emit kps n i used (stt dc tap (nd x len s v # rest) h) = None \<and> derivation_fails derive \<or>
    (\<exists>dc'. multi_keys_loop derive False skip emit kps n i used (stt dc tap (nd x len s v # rest) h) =
       (let bs = concat (map (\<lambda>(i, pk). E i pk) (enumerate i (map (\<lambda>kp. drop skip (key kp)) (drop i kps))))
        in Some (stt dc' tap (nd x (len + of_nat (length bs)) s v # rest) (happ h bs))))"
proof (induction n arbitrary: i dc len h)
  case 0
  then show ?case by simp
next
  case (Suc n)
  then have i: "i < length kps" "Suc i + n = length kps" by simp_all
  have k: "length (key (kps ! i)) = 33" using d by (simp add: derives_def valid_pubkey_def)
  show ?case
  proof (cases rule: derive_cases [OF d, of "kps ! i" dc])
    case (2 dc')
    then show ?thesis
      using Suc.IH [OF i(2), of dc' "len + of_nat (length (E i (drop skip (key (kps ! i)))))" "happ h (E i (drop skip (key (kps ! i))))"]
      by (simp add: e [OF k] Cons_nth_drop_Suc [OF i(1), symmetric] Let_def add.assoc)
  qed simp
qed

lemma multi_keys_loop_sorted:
  assumes d: "derives derive key" and s: "skip \<le> 1"
    and e: "\<And>i pk st. length pk = 33 \<Longrightarrow> emit i pk st = update_output st (E i (drop skip pk))"
  shows "n = length (unused used 0 (length kps)) \<Longrightarrow> length kps \<le> 8 * length used \<Longrightarrow>
    multi_keys_loop derive True skip emit kps n i used (stt dc tap (nd x len s v # rest) h) = None \<and> derivation_fails derive \<or>
    (\<exists>dc'. multi_keys_loop derive True skip emit kps n i used (stt dc tap (nd x len s v # rest) h) =
       (let bs = concat (map (\<lambda>(i, pk). E i pk)
                   (enumerate i (sort (map (\<lambda>j. drop skip (key (kps ! j))) (unused used 0 (length kps))))))
        in Some (stt dc' tap (nd x (len + of_nat (length bs)) s v # rest) (happ h bs))))"
proof (induction n arbitrary: i used dc len h)
  case 0
  then show ?case by simp
next
  case (Suc n)
  let ?R = "unused used 0 (length kps)"
  have k: "length (key kp) = 33" for kp using d by (simp add: derives_def valid_pubkey_def)
  have ne: "?R \<noteq> []" using Suc.prems(1) by auto
  from next_sorted_key_smallest [OF d s ne, of dc]
  show ?case
  proof (elim disjE exE conjE)
    fix m dc'
    assume m: "m \<in> set ?R" "\<forall>i \<in> set ?R. drop skip (key (kps ! m)) \<le> drop skip (key (kps ! i))"
      and n: "next_sorted_key derive skip kps used dc = Some (key (kps ! m), bitvector_set used m True, dc')"
    note u = unused_set [OF m(1) Suc.prems(2)] and so = sort_pick [OF m(1), of "\<lambda>j. drop skip (key (kps ! j))", OF m(2)]
    have "n = length (unused (bitvector_set used m True) 0 (length kps))"
      using Suc.prems(1) m(1) by (simp add: u length_remove1)
    from Suc.IH [OF this, of "Suc i" dc' "len + of_nat (length (E i (drop skip (key (kps ! m)))))"
      "happ h (E i (drop skip (key (kps ! m))))"] Suc.prems(2)
    show ?thesis by (simp add: n e [OF k] u so Let_def add.assoc)
  qed simp
qed

lemma unused_none_used: "n \<le> 16 \<Longrightarrow> unused [0, 0] 0 n = [0..<n]"
  using bitvector_get_zero [of _ 2] by (simp add: unused_def filter_True numeral_2_eq_2)

lemma unused_first_byte: "n \<le> 8 \<Longrightarrow> unused [0, junk] 0 n = [0..<n]"
  by (simp add: unused_def filter_True bitvector_get_bit)

section \<open>Pushing a number\<close>

lemma enc_u32_le_bytes:
  "enc_u32_le n = [ucast n, ucast (drop_bit 8 n), ucast (drop_bit 16 n), ucast (drop_bit 24 n)]"
  by (simp add: enc_u32_le_def enc_u32_be_def)

lemma unat_byte: "unat (ucast (drop_bit k (n :: u32)) :: u8) = unat n div 2 ^ k mod 256"
  by (simp only: unsigned_ucast_eq unsigned_drop_bit_eq) (simp add: take_bit_eq_mod drop_bit_eq_div)

lemma top_byte:
  assumes "unat (n :: u32) < 2 ^ k * 256"
  shows "(ucast (drop_bit k n) :: u8) \<ge> 0x80 \<longleftrightarrow> unat n \<ge> 2 ^ k * 128"
proof -
  have "unat n div 2 ^ k < 256" using assms by (simp add: div_less_iff_less_mult mult.commute)
  then show ?thesis by (simp add: word_le_nat_alt unat_byte less_eq_div_iff_mult_less_eq mult.commute)
qed

lemma zero_byte: "unat (n :: u32) < 2 ^ k \<Longrightarrow> (ucast (drop_bit k n) :: u8) = 0"
  by (simp add: unat_byte flip: unat_eq_zero)

lemma script_number_cases:
  "script_number n =
    (if n \<le> 0x7f then take 1 (enc_u32_le n) else if n \<le> 0x7fff then take 2 (enc_u32_le n)
     else if n \<le> 0x7fffff then take 3 (enc_u32_le n) else if n \<le> 0x7fffffff then enc_u32_le n else enc_u32_le n @ [0])"
proof -
  have w: "write_u32_le (replicate 4 0) 0 n = enc_u32_le n" by (simp add: bytes_simps)
  have N: "unat n < 4294967296" by simp
  consider "unat n < 2 ^ 8" | "2 ^ 8 \<le> unat n" "unat n < 2 ^ 16" | "2 ^ 16 \<le> unat n" "unat n < 2 ^ 24" | "2 ^ 24 \<le> unat n"
    by linarith
  then show ?thesis
  proof cases
    case 1
    then show ?thesis using top_byte [of n 0] zero_byte [of n 8]
      by (simp add: script_number_def w enc_u32_le_bytes word_le_nat_alt word_less_nat_alt)
  next
    case 2
    then show ?thesis using top_byte [of n 8] zero_byte [of n 16]
      by (simp add: script_number_def w enc_u32_le_bytes word_le_nat_alt word_less_nat_alt)
  next
    case 3
    then show ?thesis using top_byte [of n 16] zero_byte [of n 24]
      by (simp add: script_number_def w enc_u32_le_bytes word_le_nat_alt word_less_nat_alt)
  next
    case 4
    then show ?thesis using top_byte [of n 24] N
      by (simp add: script_number_def w enc_u32_le_bytes word_le_nat_alt word_less_nat_alt)
  qed
qed

lemma update_output_push_u32_stt [simp]:
  "update_output_push_u32 (stt d tap (nd x len s v # rest) h) n =
     stt d tap (nd x (len + of_nat (length (push_number n))) s v # rest) (happ h (push_number n))"
proof -
  have w: "write_u32_le (replicate 4 0) 0 n = enc_u32_le n" by (simp add: bytes_simps)
  have l: "length (enc_u32_le n) = 4" by (simp add: enc_u32_le_bytes)
  show ?thesis
    by (simp add: update_output_push_u32_def push_number_def script_number_cases w l Let_def min_def add.assoc)
qed

section \<open>The machine emits the reference\<close>

definition resume :: "'d derive_pubkey \<Rightarrow> hash_fns \<Rightarrow> u8 \<Rightarrow> PolicyNodeType list \<Rightarrow> u16 \<Rightarrow> 'd policy_parser_state \<Rightarrow>
    (u16 \<times> 'd policy_parser_state) option option" where
  "resume derive hf junk wl ret st = (if ps_nodes st \<noteq> [] then policy_loop derive hf junk wl st else Some (Some (ret, st)))"

lemma policy_loop_step:
  "policy_loop derive hf junk wl st =
     (case policy_step derive hf junk wl st of None \<Rightarrow> Some None | Some (ret, st) \<Rightarrow> resume derive hf junk wl ret st)"
  by (subst policy_loop.simps) (simp add: resume_def split: option.splits)

text \<open>\<open>emits x bs\<close>: from a state with the node \<open>x\<close> on top, the machine pops the node and has written
  \<open>bs\<close>, or it stops because a key could not be derived.\<close>

definition emits_from :: "'d derive_pubkey \<Rightarrow> hash_fns \<Rightarrow> u8 \<Rightarrow> PolicyNodeType list \<Rightarrow> bool \<Rightarrow> policy_node \<Rightarrow> bool \<Rightarrow> nat \<Rightarrow>
    policy_parser_node_state list \<Rightarrow> bytes \<Rightarrow> bool" where
  "emits_from derive hf junk wl tap x v i rest bs \<longleftrightarrow>
     (\<forall>d len h. derivation_fails derive \<and> policy_loop derive hf junk wl (stt d tap (nd x len (of_nat i) v # rest) h) = Some None \<or>
        (\<exists>d'. policy_loop derive hf junk wl (stt d tap (nd x len (of_nat i) v # rest) h) =
           resume derive hf junk wl (len + of_nat (length bs))
             (stt d' tap (add_length (len + of_nat (length bs)) rest) (happ h bs))))"

lemma emits_fromI:
  assumes "\<And>d len h. derivation_fails derive \<and> policy_loop derive hf junk wl (stt d tap (nd x len (of_nat i) v # rest) h) = Some None \<or>
        (\<exists>d'. policy_loop derive hf junk wl (stt d tap (nd x len (of_nat i) v # rest) h) =
           resume derive hf junk wl (len + of_nat (length bs))
             (stt d' tap (add_length (len + of_nat (length bs)) rest) (happ h bs)))"
  shows "emits_from derive hf junk wl tap x v i rest bs"
  using assms by (simp add: emits_from_def)

text \<open>One iteration that writes \<open>b\<close> and moves to the next step.\<close>

lemma emits_from_write:
  assumes "\<And>d len h. derivation_fails derive \<and> policy_step derive hf junk wl (stt d tap (nd x len (of_nat i) v # rest) h) = None \<or>
      (\<exists>d'. policy_step derive hf junk wl (stt d tap (nd x len (of_nat i) v # rest) h) =
         Some (0, stt d' tap (nd x (len + of_nat (length b)) (of_nat (Suc i)) v # rest) (happ h b)))"
    and "emits_from derive hf junk wl tap x v (Suc i) rest bs"
  shows "emits_from derive hf junk wl tap x v i rest (b @ bs)"
proof (rule emits_fromI, goal_cases)
  case (1 d len h)
  show ?case
  proof (cases rule: disjE [OF assms(1) [of d len h]])
    case 1
    then show ?thesis by (simp add: policy_loop_step)
  next
    case 2
    then obtain d' where "policy_step derive hf junk wl (stt d tap (nd x len (of_nat i) v # rest) h) =
         Some (0, stt d' tap (nd x (len + of_nat (length b)) (of_nat (Suc i)) v # rest) (happ h b))" ..
    then have "policy_loop derive hf junk wl (stt d tap (nd x len (of_nat i) v # rest) h) =
        policy_loop derive hf junk wl (stt d' tap (nd x (len + of_nat (length b)) (of_nat (Suc i)) v # rest) (happ h b))"
      by (simp add: policy_loop_step [of derive hf junk wl "stt d tap _ h"] resume_def)
    then show ?thesis
      using assms(2) [unfolded emits_from_def, rule_format, of d' "len + of_nat (length b)" "happ h b"]
      by (simp add: add.assoc)
  qed
qed

text \<open>One iteration that writes \<open>b\<close> and pushes a child, which the machine then emits.\<close>

lemma emits_from_child:
  assumes step: "\<And>d len h. policy_step derive hf junk wl (stt d tap (nd x len (of_nat i) v # rest) h) =
         Some (0, stt d tap (nd y 0 0 w # nd x (len + of_nat (length b)) (of_nat (Suc i)) v # rest) (happ h b))"
    and child: "\<And>len. emits_from derive hf junk wl tap y w 0 (nd x len (of_nat (Suc i)) v # rest) c"
    and "emits_from derive hf junk wl tap x v (Suc i) rest bs"
  shows "emits_from derive hf junk wl tap x v i rest (b @ c @ bs)"
proof (rule emits_fromI, goal_cases)
  case (1 d len h)
  let ?L = "len + of_nat (length b)"
  have e: "policy_loop derive hf junk wl (stt d tap (nd x len (of_nat i) v # rest) h) =
      policy_loop derive hf junk wl (stt d tap (nd y 0 0 w # nd x ?L (of_nat (Suc i)) v # rest) (happ h b))"
    by (simp add: policy_loop_step [of derive hf junk wl "stt d tap (nd x _ _ v # _) h"] step resume_def)
  from child [of ?L, unfolded emits_from_def, rule_format, of d 0 "happ h b"]
  show ?case
  proof (elim disjE exE)
    fix d'
    assume "policy_loop derive hf junk wl (stt d tap (nd y 0 (of_nat 0) w # nd x ?L (of_nat (Suc i)) v # rest) (happ h b)) =
      resume derive hf junk wl (0 + of_nat (length c))
        (stt d' tap (add_length (0 + of_nat (length c)) (nd x ?L (of_nat (Suc i)) v # rest)) (happ (happ h b) c))"
    then show ?thesis
      using assms(3) [unfolded emits_from_def, rule_format, of d' "?L + of_nat (length c)" "happ h (b @ c)"]
      by (simp add: e resume_def add.assoc)
  qed (simp add: e)
qed

lemma emits_from_done:
  assumes "\<And>d len h. derivation_fails derive \<and> process_node derive hf junk (node_type x) (stt d tap (nd x len (of_nat i) v # rest) h) = None \<or>
      (\<exists>d'. process_node derive hf junk (node_type x) (stt d tap (nd x len (of_nat i) v # rest) h) =
         Some (True, stt d' tap (nd x (len + of_nat (length bs)) (of_nat i) v # rest) (happ h bs)))"
    and "node_type x \<in> set wl"
  shows "emits_from derive hf junk wl tap x v i rest bs"
proof (rule emits_fromI, goal_cases)
  case (1 d len h)
  then show ?case using assms(1) [of d len h] assms(2)
    by (auto simp: policy_loop_step policy_step_def execute_processor_def state_stack_pop_def Let_def)
qed

text \<open>What a command of a table writes for the node \<open>x\<close>.\<close>

fun command_script :: "(key_placeholder \<Rightarrow> bytes) \<Rightarrow> hash_fns \<Rightarrow> bool \<Rightarrow> bool \<Rightarrow> policy_node \<Rightarrow> generic_processor_command \<Rightarrow> bytes option" where
  "command_script key hf tap v x (CMD_CODE_OP op) = Some [op]"
| "command_script key hf tap v x (CMD_CODE_OP_V op) = Some (op_verify v op)"
| "command_script key hf tap v x CMD_CODE_PUSH_PK = map_option (\<lambda>kp. push_key tap (key kp)) (key_of_node x)"
| "command_script key hf tap v x CMD_CODE_PUSH_PKH = map_option (\<lambda>kp. push_hash160 hf (key kp)) (key_of_node x)"
| "command_script key hf tap v x CMD_CODE_PUSH_UINT32 = map_option push_number (uint32_of_node x)"
| "command_script key hf tap v x CMD_CODE_PUSH_HASH20 = map_option (\<lambda>h. 20 # h) (hash20_of_node x)"
| "command_script key hf tap v x CMD_CODE_PUSH_HASH32 = map_option (\<lambda>h. 32 # h) (hash32_of_node x)"
| "command_script key hf tap v x (CMD_CODE_PROCESS_CHILD i) = map_option (node_script key hf tap False) (script_child x i)"
| "command_script key hf tap v x (CMD_CODE_PROCESS_CHILD_V i) = map_option (node_script key hf tap v) (script_child x i)"
| "command_script key hf tap v x (CMD_CODE_PROCESS_CHILD_VV i) = map_option (node_script key hf tap True) (script_child x i)"

lemma derive_or:
  "derives derive key \<Longrightarrow>
     derivation_fails derive \<and> derive kp dc = None \<or> (\<exists>dc'. derive kp dc = Some (key kp, dc'))"
  by (rule derive_cases) auto

lemma policy_step_generic:
  assumes "node_type x \<in> set wl" and "process_node derive hf junk (node_type x) = process_generic_node derive hf cmds"
    and "i < length cmds" and "length cmds < 256"
  shows "policy_step derive hf junk wl (stt d tap (nd x len (of_nat i) v # rest) h) =
    map_option (Pair 0) (process_command derive hf (nd x len (of_nat i) v) (cmds ! i) (stt d tap (nd x len (of_nat i) v # rest) h))"
proof -
  have "unat (of_nat i :: u8) = i" using assms(3,4) by (simp add: unat_of_nat)
  then show ?thesis
    using assms
    by (auto simp: policy_step_def execute_processor_def process_generic_node_def Let_def split: option.splits)
       (cases "process_command derive hf (nd x len (of_nat i) v) (cmds ! i) (stt d tap (nd x len (of_nat i) v # rest) h)"; simp)
qed

text \<open>The commands of a node, from the \<open>i\<close>-th on.\<close>

lemma emits_commands:
  assumes d: "derives derive key"
    and x: "node_type x \<in> set wl" "process_node derive hf junk (node_type x) = process_generic_node derive hf cmds" "length cmds < 256"
    and depth: "\<And>j y. script_child x j = Some y \<Longrightarrow> Suc (length rest) < MAX_POLICY_DEPTH"
    and children: "\<And>j y w len s. script_child x j = Some y \<Longrightarrow>
      emits_from derive hf junk wl tap y w 0 (nd x len s v # rest) (node_script key hf tap w y)"
    and cmds: "list_all (\<lambda>c. command_script key hf tap v x c \<noteq> None) cmds"
  shows "i \<le> length cmds \<Longrightarrow>
    emits_from derive hf junk wl tap x v i rest (concat (map (\<lambda>c. the (command_script key hf tap v x c)) (drop i cmds)))"
proof (induction "length cmds - i" arbitrary: i)
  case 0
  have "unat (of_nat (length cmds) :: u8) = length cmds" using x(3) by (simp add: unat_of_nat)
  then show ?case using 0 x by (intro emits_from_done) (simp_all add: process_generic_node_def)
next
  case (Suc n)
  then have i: "i < length cmds" by simp
  note IH = Suc.hyps(1) [of "Suc i"]
  have rest: "emits_from derive hf junk wl tap x v (Suc i) rest (concat (map (\<lambda>c. the (command_script key hf tap v x c)) (drop (Suc i) cmds)))"
    using Suc i by (intro Suc.hyps(1)) simp_all
  note st = policy_step_generic [OF x(1,2) i x(3)]
  have c: "command_script key hf tap v x (cmds ! i) \<noteq> None" using cmds i by (simp add: list_all_length)
  have k: "length (key kp) = 33" for kp using d by (simp add: derives_def valid_pubkey_def)
  have out: ?case if "\<And>d len h. derivation_fails derive \<and>
        process_command derive hf (nd x len (of_nat i) v) (cmds ! i) (stt d tap (nd x len (of_nat i) v # rest) h) = None \<or>
      (\<exists>d'. process_command derive hf (nd x len (of_nat i) v) (cmds ! i) (stt d tap (nd x len (of_nat i) v # rest) h) =
         Some (stt d' tap (nd x (len + of_nat (length b)) (of_nat (Suc i)) v # rest) (happ h b)))"
      and "command_script key hf tap v x (cmds ! i) = Some b" for b
    using emits_from_write [where b = b, OF _ rest] that i
    by (simp add: st Cons_nth_drop_Suc [symmetric])
  have child: ?case if "script_child x j = Some y" "command_script key hf tap v x (cmds ! i) = Some (node_script key hf tap w y)"
      "\<And>d len h. process_command derive hf (nd x len (of_nat i) v) (cmds ! i) (stt d tap (nd x len (of_nat i) v # rest) h) =
         Some (stt d tap (nd y 0 0 w # nd x len (of_nat (Suc i)) v # rest) h)" for j y w
    using emits_from_child [where b = "[]", OF _ _ rest] children [OF that(1)] that(2,3) i
    by (simp add: st Cons_nth_drop_Suc [symmetric])
  have key: ?case if kp: "key_of_node x = Some kp" "command_script key hf tap v x (cmds ! i) = Some b"
      "\<And>d d' len h. derive kp d = None \<Longrightarrow> process_command derive hf (nd x len (of_nat i) v) (cmds ! i) (stt d tap (nd x len (of_nat i) v # rest) h) = None"
      "\<And>d d' len h. derive kp d = Some (key kp, d') \<Longrightarrow>
         process_command derive hf (nd x len (of_nat i) v) (cmds ! i) (stt d tap (nd x len (of_nat i) v # rest) h) =
         Some (stt d' tap (nd x (len + of_nat (length b)) (of_nat (Suc i)) v # rest) (happ h b))" for kp b
    using out [OF _ kp(2)] derive_or [OF d, of kp] kp(3,4) by metis
  show ?case
  proof (cases "cmds ! i")
    case CMD_CODE_PUSH_PK
    then obtain kp where "key_of_node x = Some kp" using c by auto
    with CMD_CODE_PUSH_PK k show ?thesis
      by (intro key [of kp "push_key tap (key kp)"]; cases tap) (simp_all add: process_command_def push_key_def Let_def)
  next
    case CMD_CODE_PUSH_PKH
    then obtain kp where "key_of_node x = Some kp" using c by auto
    with CMD_CODE_PUSH_PKH show ?thesis
      by (intro key [of kp "push_hash160 hf (key kp)"]) (simp_all add: process_command_def push_hash160_def)
  next
    case (CMD_CODE_PROCESS_CHILD j)
    then obtain y where "script_child x j = Some y" using c by auto
    with CMD_CODE_PROCESS_CHILD depth [OF this] show ?thesis
      by (intro child [of j y False]) (simp_all add: process_command_def state_stack_push_def)
  next
    case (CMD_CODE_PROCESS_CHILD_V j)
    then obtain y where "script_child x j = Some y" using c by auto
    with CMD_CODE_PROCESS_CHILD_V depth [OF this] show ?thesis
      by (intro child [of j y v]) (simp_all add: process_command_def state_stack_push_def)
  next
    case (CMD_CODE_PROCESS_CHILD_VV j)
    then obtain y where "script_child x j = Some y" using c by auto
    with CMD_CODE_PROCESS_CHILD_VV depth [OF this] show ?thesis
      by (intro child [of j y True]) (simp_all add: process_command_def state_stack_push_def)
  qed (use c in \<open>auto intro!: out simp: process_command_def\<close>)
qed

lemmas command_tables = commands_0_def commands_1_def commands_pk_k_def commands_pk_h_def commands_pk_def commands_older_def
  commands_after_def commands_sha256_def commands_hash256_def commands_ripemd160_def commands_hash160_def commands_andor_def
  commands_and_v_def commands_and_b_def commands_and_n_def commands_or_b_def commands_or_c_def commands_or_d_def
  commands_or_i_def commands_a_def commands_s_def commands_c_def commands_t_def commands_d_def commands_v_def
  commands_j_def commands_n_def commands_l_def commands_u_def

text \<open>The table of a token that has one.\<close>

definition command_table :: "PolicyNodeType \<Rightarrow> generic_processor_command list" where
  "command_table t =
     (case t of TOKEN_0 \<Rightarrow> commands_0 | TOKEN_1 \<Rightarrow> commands_1 | TOKEN_PK_K \<Rightarrow> commands_pk_k | TOKEN_PK_H \<Rightarrow> commands_pk_h
      | TOKEN_PK \<Rightarrow> commands_pk | TOKEN_OLDER \<Rightarrow> commands_older | TOKEN_AFTER \<Rightarrow> commands_after
      | TOKEN_SHA256 \<Rightarrow> commands_sha256 | TOKEN_HASH256 \<Rightarrow> commands_hash256 | TOKEN_RIPEMD160 \<Rightarrow> commands_ripemd160
      | TOKEN_HASH160 \<Rightarrow> commands_hash160 | TOKEN_ANDOR \<Rightarrow> commands_andor | TOKEN_AND_V \<Rightarrow> commands_and_v
      | TOKEN_AND_B \<Rightarrow> commands_and_b | TOKEN_AND_N \<Rightarrow> commands_and_n | TOKEN_OR_B \<Rightarrow> commands_or_b
      | TOKEN_OR_C \<Rightarrow> commands_or_c | TOKEN_OR_D \<Rightarrow> commands_or_d | TOKEN_OR_I \<Rightarrow> commands_or_i
      | TOKEN_A \<Rightarrow> commands_a | TOKEN_S \<Rightarrow> commands_s | TOKEN_C \<Rightarrow> commands_c | TOKEN_T \<Rightarrow> commands_t
      | TOKEN_D \<Rightarrow> commands_d | TOKEN_V \<Rightarrow> commands_v | TOKEN_J \<Rightarrow> commands_j | TOKEN_N \<Rightarrow> commands_n
      | TOKEN_L \<Rightarrow> commands_l | TOKEN_U \<Rightarrow> commands_u | _ \<Rightarrow> [])"

definition has_table :: "PolicyNodeType \<Rightarrow> bool" where
  "has_table t \<longleftrightarrow> command_table t \<noteq> []"

lemma process_node_table:
  "has_table t \<Longrightarrow> process_node derive hf junk t = process_generic_node derive hf (command_table t)"
  by (cases t) (simp_all add: has_table_def command_table_def process_node_def)

lemma command_table_short: "length (command_table t) < 256"
  by (cases t) (simp_all add: command_table_def command_tables)

text \<open>The tables implement the translation of their fragment.\<close>

lemma node_script_table:
  assumes "node_emittable junk wl x" and "has_table (node_type x)"
  shows "list_all (\<lambda>c. command_script key hf tap v x c \<noteq> None) (command_table (node_type x)) \<and>
    node_script key hf tap v x = concat (map (\<lambda>c. the (command_script key hf tap v x c)) (command_table (node_type x)))"
  using assms
  by (cases x) (auto simp: has_table_def command_table_def command_tables Let_def push_hash160_def)

lemma emits_table:
  assumes "derives derive key" and "node_emittable junk wl x" and "has_table (node_type x)" and "node_type x \<in> set wl"
    and "\<And>j y. script_child x j = Some y \<Longrightarrow> Suc (length rest) < MAX_POLICY_DEPTH"
    and "\<And>j y w len s. script_child x j = Some y \<Longrightarrow>
      emits_from derive hf junk wl tap y w 0 (nd x len s v # rest) (node_script key hf tap w y)"
  shows "emits_from derive hf junk wl tap x v 0 rest (node_script key hf tap v x)"
  using emits_commands [where i = 0, OF assms(1,4) process_node_table [OF assms(3)] command_table_short assms(5,6)]
    node_script_table [OF assms(2,3), of key hf tap v]
  by simp

text \<open>Fragments without a table.\<close>

lemma emits_pkh_wpkh:
  assumes d: "derives derive key" and "t \<in> {TOKEN_PKH, TOKEN_WPKH}" and "t \<in> set wl"
  shows "emits_from derive hf junk wl tap (Node_with_key t f kp) v 0 rest (node_script key hf tap v (Node_with_key t f kp))"
proof (rule emits_from_done, goal_cases)
  case (1 dc len h)
  show ?case
    using derive_or [OF d, of kp dc] assms(2)
    by (auto simp: process_node_def process_pkh_wpkh_node_def push_hash160_def Let_def add.assoc)
qed (use assms in simp)

lemma add_length_add [simp]: "add_length m (add_length n ns) = add_length (n + m) ns"
  by (cases ns) simp_all

lemma update_output_append: "update_output (update_output st a) b = update_output st (a @ b)"
  by (cases "ps_hash_context st") (simp_all add: update_output_def crypto_hash_update_def)

lemma emit_multi_key_eq: "length pk = 33 \<Longrightarrow> emit_multi_key i pk st = update_output st (33 # drop 0 pk)"
  by (simp add: emit_multi_key_def update_output_u8_def update_output_append)

lemma emit_multi_a_key_eq:
  "length pk = 33 \<Longrightarrow>
     emit_multi_a_key i pk st = update_output st (32 # drop 1 pk @ [if i = 0 then OP_CHECKSIG else OP_CHECKSIGADD])"
  by (simp add: emit_multi_a_key_def update_output_u8_def update_output_append)

lemma map_upt_nth: "map (\<lambda>j. f (xs ! j)) [0..<length xs] = map f xs"
  by (rule nth_equalityI) simp_all

lemma multi_keys_loop_emits:
  assumes "derives derive key" and "skip \<le> 1"
    and "\<And>i pk st. length pk = 33 \<Longrightarrow> emit i pk st = update_output st (E i (drop skip pk))"
    and "srt \<Longrightarrow> unused used 0 (length kps) = [0..<length kps] \<and> length kps \<le> 8 * length used"
  defines "keys \<equiv> map (\<lambda>kp. drop skip (key kp)) kps"
  shows "multi_keys_loop derive srt skip emit kps (length kps) 0 used (stt dc tap (nd x len s v # rest) h) = None \<and> derivation_fails derive \<or>
    (\<exists>dc'. multi_keys_loop derive srt skip emit kps (length kps) 0 used (stt dc tap (nd x len s v # rest) h) =
       (let bs = concat (map (\<lambda>(i, pk). E i pk) (enumerate 0 (if srt then sort keys else keys)))
        in Some (stt dc' tap (nd x (len + of_nat (length bs)) s v # rest) (happ h bs))))"
proof (cases srt)
  case True
  have keys: "map (\<lambda>j. drop skip (key (kps ! j))) [0..<length kps] = keys"
    unfolding keys_def by (rule map_upt_nth)
  show ?thesis
    using multi_keys_loop_sorted [where E = E and emit = emit and skip = skip, OF assms(1-3), of "length kps" used kps 0 dc tap x len s v rest h] assms(4) True
    by (simp add: keys)
next
  case False
  then show ?thesis
    using multi_keys_loop_unsorted [where E = E and emit = emit and skip = skip, OF assms(1,3), of 0 "length kps" kps used dc tap x len s v rest h] by (simp add: keys_def)
qed

lemma map_enumerate_snd: "map (\<lambda>(i, x). g x) (enumerate n xs) = map g xs"
  by (induction xs arbitrary: n) simp_all

lemma emits_multi:
  assumes d: "derives derive key" and e: "node_emittable junk wl (Node_multisig t f k kps)" and t: "t \<in> {TOKEN_MULTI, TOKEN_SORTEDMULTI}"
  shows "emits_from derive hf junk wl tap (Node_multisig t f k kps) v 0 rest (node_script key hf tap v (Node_multisig t f k kps))"
proof (rule emits_from_done, goal_cases)
  case (1 dc len h)
  have n: "length kps \<le> 16" using e t by auto
  have "multi_keys key t kps = (if t \<noteq> TOKEN_MULTI then sort (map (\<lambda>kp. drop 0 (key kp)) kps) else map (\<lambda>kp. drop 0 (key kp)) kps)"
    using t by (auto simp: multi_keys_def)
  then show ?case
    using multi_keys_loop_emits [where E = "\<lambda>i pk. 33 # pk" and skip = 0 and emit = emit_multi_key and srt = "t \<noteq> TOKEN_MULTI"
        and used = "[0, 0]" and kps = kps and dc = dc and tap = tap and x = "Node_multisig t f k kps" and len = "len + 1" and s = 0
        and v = v and rest = rest and h = "happ h [0x50 + of_nat k]", OF d _ emit_multi_key_eq] unused_none_used [OF n] t n
    by (auto simp: process_node_def process_multi_sortedmulti_node_def Let_def map_enumerate_snd add.assoc)
qed (use assms in simp)

lemma emits_multi_a:
  assumes d: "derives derive key" and e: "node_emittable junk wl (Node_multisig t f k kps)" and t: "t \<in> {TOKEN_MULTI_A, TOKEN_SORTEDMULTI_A}"
  shows "emits_from derive hf junk wl tap (Node_multisig t f k kps) v 0 rest (node_script key hf tap v (Node_multisig t f k kps))"
proof (rule emits_from_done, goal_cases)
  case (1 dc len h)
  have n: "k \<le> 16" "length kps \<le> 16" "t \<noteq> TOKEN_MULTI_A \<Longrightarrow> unused [0, junk] 0 (length kps) = [0..<length kps]"
    using e t unused_none_used [of "length kps"] unused_first_byte [of "length kps" junk] by (auto split: if_splits)
  have "multi_keys key t kps = (if t \<noteq> TOKEN_MULTI_A then sort (map (\<lambda>kp. drop 1 (key kp)) kps) else map (\<lambda>kp. drop 1 (key kp)) kps)"
    using t by (auto simp: multi_keys_def)
  then show ?case
    using multi_keys_loop_emits [where E = "\<lambda>i pk. 32 # pk @ [if i = 0 then OP_CHECKSIG else OP_CHECKSIGADD]" and skip = 1
        and emit = emit_multi_a_key and srt = "t \<noteq> TOKEN_MULTI_A" and used = "[0, junk]" and kps = kps and dc = dc and tap = tap
        and x = "Node_multisig t f k kps" and len = len and s = 0 and v = v and rest = rest and h = h, OF d _ emit_multi_a_key_eq] t n
    by (auto simp: process_node_def process_multi_a_sortedmulti_a_node_def Let_def add.assoc)
qed (use assms in simp)

text \<open>The machine writes \<open>OP_ADD\<close> before a child, from the third on, and the reference after it.\<close>

lemma thresh_adds:
  "concat (map (\<lambda>j. (if 1 < j then [OP_ADD] else []) @ S ((x # xs) ! j)) [0..<Suc (length xs)]) @ (if xs \<noteq> [] then [OP_ADD] else []) =
   S x @ concat (map (\<lambda>y. S y @ [OP_ADD]) xs)"
proof (induction xs rule: rev_induct)
  case (snoc y ys)
  let ?f = "\<lambda>zs j. (if 1 < j then [OP_ADD] else []) @ S ((x # zs) ! j)"
  have eq: "map (?f (ys @ [y])) [0..<Suc (length ys)] = map (?f ys) [0..<Suc (length ys)]"
    by (rule map_cong) (auto simp: nth_append nth_Cons split: nat.splits)
  have up: "[0..<Suc (length (ys @ [y]))] = [0..<Suc (length ys)] @ [Suc (length ys)]" by simp
  have "concat (map (?f (ys @ [y])) [0..<Suc (length (ys @ [y]))]) =
      concat (map (?f ys) [0..<Suc (length ys)]) @ (if ys \<noteq> [] then [OP_ADD] else []) @ S y"
    unfolding up map_append concat_append eq by simp
  then show ?case using snoc by (simp del: upt_Suc)
qed simp

lemma emits_thresh:
  assumes x: "x = Node_thresh TOKEN_THRESH f k xs" and wl: "TOKEN_THRESH \<in> set wl" and n: "length xs < 256"
    and depth: "Suc (length rest) < MAX_POLICY_DEPTH"
    and children: "\<And>y len s. y \<in> set xs \<Longrightarrow>
      emits_from derive hf junk wl tap y False 0 (nd x len s v # rest) (node_script key hf tap False y)"
  shows "i \<le> length xs \<Longrightarrow> emits_from derive hf junk wl tap x v i rest
    (concat (map (\<lambda>j. (if 1 < j then [OP_ADD] else []) @ node_script key hf tap False (xs ! j)) [i..<length xs]) @
     (if 2 \<le> length xs then [OP_ADD] else []) @ push_number (of_nat k) @ op_verify v OP_EQUAL)"
proof (induction "length xs - i" arbitrary: i)
  case 0
  then have "i = length xs" "unat (of_nat i :: u8) = length xs" using n by (simp_all add: unat_of_nat)
  then show ?case
    using wl by (intro emits_from_done) (simp_all add: x process_node_def process_thresh_node_def Let_def add.assoc)
next
  case (Suc m)
  then have i: "i < length xs" by simp
  have u: "unat (of_nat i :: u8) = i" "(1 :: u8) < of_nat i \<longleftrightarrow> 1 < i"
    using i n by (simp_all add: unat_of_nat word_less_nat_alt)
  have rest: "emits_from derive hf junk wl tap x v (Suc i) rest
    (concat (map (\<lambda>j. (if 1 < j then [OP_ADD] else []) @ node_script key hf tap False (xs ! j)) [Suc i..<length xs]) @
     (if 2 \<le> length xs then [OP_ADD] else []) @ push_number (of_nat k) @ op_verify v OP_EQUAL)"
    using Suc i by (intro Suc.hyps(1)) simp_all
  have step: "policy_step derive hf junk wl (stt d tap (nd x len (of_nat i) v # rest) h) =
      Some (0, stt d tap (nd (xs ! i) 0 0 False # nd x (len + of_nat (length (if 1 < i then [OP_ADD] else []))) (of_nat (Suc i)) v # rest)
        (happ h (if 1 < i then [OP_ADD] else [])))" for d :: 'a and len h
    using i wl depth
    by (simp add: policy_step_def execute_processor_def x process_node_def process_thresh_node_def u state_stack_push_def Let_def)
  show ?case
    using emits_from_child [OF step children rest] i by (simp add: upt_conv_Cons)
qed

lemma fold_max_bound: "y \<in> set ys \<Longrightarrow> y \<le> fold max ys (n :: nat)"
proof -
  have "n \<le> fold max ys n" for ys and n :: nat by (induction ys arbitrary: n) (auto intro: order_trans [OF max.cobounded2])
  then show "y \<in> set ys \<Longrightarrow> y \<le> fold max ys n"
    by (induction ys arbitrary: n) (auto intro: order_trans [OF max.cobounded1])
qed

lemma node_height_pos: "0 < node_height x"
  by (cases x) auto

lemma emits_combinator:
  assumes d: "derives derive key" and e: "node_emittable junk wl x" and t: "has_table (node_type x)" "node_type x \<in> set wl"
    and h: "length rest + node_height x \<le> MAX_POLICY_DEPTH"
    and c: "\<And>j y. script_child x j = Some y \<Longrightarrow> Suc (node_height y) \<le> node_height x"
    and IH: "\<And>j y w rest. script_child x j = Some y \<Longrightarrow> length rest + node_height y \<le> MAX_POLICY_DEPTH \<Longrightarrow>
      emits_from derive hf junk wl tap y w 0 rest (node_script key hf tap w y)"
  shows "emits_from derive hf junk wl tap x v 0 rest (node_script key hf tap v x)"
proof (rule emits_table [OF d e t])
  fix j y w len s
  assume y: "script_child x j = Some y"
  show "Suc (length rest) < MAX_POLICY_DEPTH" using c [OF y] h node_height_pos [of y] by linarith
  have "length (nd x len s v # rest) + node_height y \<le> MAX_POLICY_DEPTH" using c [OF y] h by simp
  then show "emits_from derive hf junk wl tap y w 0 (nd x len s v # rest) (node_script key hf tap w y)" by (rule IH [OF y])
qed

lemma emittable_table:
  "node_emittable junk wl x \<Longrightarrow> node_type x \<in> set wl"
  "node_emittable junk wl x \<Longrightarrow> node_type x \<notin> {TOKEN_PKH, TOKEN_WPKH, TOKEN_THRESH, TOKEN_MULTI, TOKEN_SORTEDMULTI, TOKEN_MULTI_A, TOKEN_SORTEDMULTI_A} \<Longrightarrow>
     has_table (node_type x)"
  by (cases x; auto simp: has_table_def command_table_def command_tables)+

text \<open>A child of a fragment that the machine can emit can be emitted.\<close>

lemma emittable_child: "node_emittable junk wl x \<Longrightarrow> script_child x j = Some y \<Longrightarrow> node_emittable junk wl y \<and> size y < size x \<and> Suc (node_height y) \<le> node_height x"
  by (cases x) (auto split: if_splits)

lemma node_emits:
  assumes d: "derives derive key"
  shows "node_emittable junk wl x \<Longrightarrow> length rest + node_height x \<le> MAX_POLICY_DEPTH \<Longrightarrow>
    emits_from derive hf junk wl tap x v 0 rest (node_script key hf tap v x)"
proof (induction "size x" arbitrary: x v rest rule: less_induct)
  case less
  note t = emittable_table [OF less.prems(1)]
  consider "has_table (node_type x)" | t f kp where "x = Node_with_key t f kp" "t \<in> {TOKEN_PKH, TOKEN_WPKH}"
    | f k xs where "x = Node_thresh TOKEN_THRESH f k xs" | t f k kps where "x = Node_multisig t f k kps"
    using t(2) less.prems(1) by (cases x) auto
  then show ?case
  proof cases
    case 1
    from less.prems(1) this t(1) less.prems(2) show ?thesis
      by (rule emits_combinator [OF d]) (use less.hyps emittable_child [OF less.prems(1)] in blast)+
  next
    case 2
    then show ?thesis using t(1) by (simp only: emits_pkh_wpkh [OF d] node_type.simps)
  next
    case (3 f k xs)
    obtain x0 xs' where xs: "xs = x0 # xs'" using less.prems(1) 3 by (cases xs) auto
    have h: "length rest + 1 + node_height y \<le> MAX_POLICY_DEPTH" if "y \<in> set xs" for y
      using less.prems(2) fold_max_bound [of "node_height y" "map node_height xs" 0] that 3 by auto
    have sz: "size y < Suc (size_list size xs)" if "y \<in> set xs" for y
      using size_list_estimation' [OF that order_refl, of size] by simp
    have "Suc (length rest) < MAX_POLICY_DEPTH" using h [of x0] node_height_pos [of x0] xs by simp
    then have "emits_from derive hf junk wl tap x v 0 rest
      (concat (map (\<lambda>j. (if 1 < j then [OP_ADD] else []) @ node_script key hf tap False (xs ! j)) [0..<length xs]) @
       (if 2 \<le> length xs then [OP_ADD] else []) @ push_number (of_nat k) @ op_verify v OP_EQUAL)"
      using less.prems(1) 3 h
      by (intro emits_thresh) (auto simp: list_all_iff sz intro!: less.hyps)
    moreover have "node_script key hf tap v x =
      (concat (map (\<lambda>j. (if 1 < j then [OP_ADD] else []) @ node_script key hf tap False (xs ! j)) [0..<length xs]) @
       (if 2 \<le> length xs then [OP_ADD] else []) @ push_number (of_nat k) @ op_verify v OP_EQUAL)"
      using thresh_adds [of "node_script key hf tap False" x0 xs']
      by (cases xs') (auto simp: 3 xs comp_def simp del: upt_Suc)
    ultimately show ?thesis by simp
  next
    case (4 t f k kps)
    then have "t \<in> {TOKEN_MULTI, TOKEN_SORTEDMULTI} \<or> t \<in> {TOKEN_MULTI_A, TOKEN_SORTEDMULTI_A}" using less.prems(1) by auto
    then show ?thesis using emits_multi [OF d] emits_multi_a [OF d] less.prems(1) unfolding 4 by blast
  qed
qed

section \<open>Properties of the machine\<close>

lemma internal_script_cases:
  assumes d: "derives derive key" and e: "node_emittable junk (fragment_whitelist t) policy" and h: "node_height policy \<le> MAX_POLICY_DEPTH"
  obtains "get_wallet_internal_script_hash derive hf junk policy t ctx dc = Some None" "derivation_fails derive"
  | dc' where "get_wallet_internal_script_hash derive hf junk policy t ctx dc =
      Some (Some (of_nat (length (node_script key hf (t = WRAPPED_SCRIPT_TYPE_TAPSCRIPT) False policy)),
        map_option (\<lambda>c. c @ node_script key hf (t = WRAPPED_SCRIPT_TYPE_TAPSCRIPT) False policy) ctx, dc'))"
proof -
  have "emits_from derive hf junk (fragment_whitelist t) (t = WRAPPED_SCRIPT_TYPE_TAPSCRIPT) policy False 0 []
      (node_script key hf (t = WRAPPED_SCRIPT_TYPE_TAPSCRIPT) False policy)"
    using node_emits [OF d e, of "[]"] h by simp
  from this [unfolded emits_from_def, rule_format, of dc 0 ctx] that
  show thesis by (auto simp: get_wallet_internal_script_hash_def resume_def happ_def Let_def)
qed


text \<open>Derivation for the examples: the key of a placeholder is a byte string that depends on its
  index and steps.\<close>

definition sample_key :: "key_placeholder \<Rightarrow> bytes" where
  "sample_key kp = 2 # replicate 31 7 @ [of_nat (key_index kp)]"

definition sample_derive :: "unit derive_pubkey" where
  "sample_derive kp dc = Some (sample_key kp, dc)"

definition sample_hash :: hash_fns where
  "sample_hash = \<lparr>cx_hash_sha256 = (\<lambda>bs. replicate 31 0 @ [of_nat (length bs)]), cx_hash_ripemd160 = (\<lambda>bs. replicate 19 0 @ [last bs])\<rparr>"

definition sample_kp :: "nat \<Rightarrow> key_placeholder" where
  "sample_kp i = \<lparr>num_first = 0, num_second = 1, key_index = i\<rparr>"

lemma sample_derives: "derives sample_derive sample_key"
proof -
  have "hd (replicate 31 7 @ [x :: u8]) \<noteq> hd (replicate 32 0xFF)" for x by (simp add: hd_append)
  then have "replicate 31 7 @ [x :: u8] \<noteq> replicate 32 0xFF" for x by metis
  then show ?thesis by (simp add: derives_def sample_derive_def sample_key_def valid_pubkey_def)
qed

definition sample_policy :: policy_node where
  "sample_policy = Node_with_script2 TOKEN_AND_V None
     (Node_with_script TOKEN_V None (Node_with_key TOKEN_PK None (sample_kp 0)))
     (Node_thresh TOKEN_THRESH None 2
       [Node_multisig TOKEN_SORTEDMULTI None 1 [sample_kp 3, sample_kp 2],
        Node_with_script TOKEN_S None (Node_with_key TOKEN_PK None (sample_kp 1)),
        Node_with_script TOKEN_A None (Node_with_uint32 TOKEN_OLDER None 4096)])"


section \<open>Output scripts\<close>

text \<open>BIP-340 tagged hashes and the hash of a tree of scripts as BIP-341 defines it.\<close>

definition tagged_hash :: "(bytes \<Rightarrow> bytes) \<Rightarrow> string \<Rightarrow> bytes \<Rightarrow> bytes" where
  "tagged_hash H tag msg = H (H (str tag) @ H (str tag) @ msg)"

fun taptree_root :: "(key_placeholder \<Rightarrow> bytes) \<Rightarrow> hash_fns \<Rightarrow> policy_tree \<Rightarrow> bytes" where
  "taptree_root key hf (Tree_leaf x) =
     (let s = node_script key hf True False x
      in tagged_hash (cx_hash_sha256 hf) ''TapLeaf'' (0xC0 # varint_enc (of_nat (length s)) @ s))"
| "taptree_root key hf (Tree_branch l r) =
     (let a = taptree_root key hf l; b = taptree_root key hf r
      in tagged_hash (cx_hash_sha256 hf) ''TapBranch'' (min a b @ max a b))"

fun tree_emittable :: "u8 \<Rightarrow> policy_tree \<Rightarrow> bool" where
  "tree_emittable junk (Tree_leaf x) \<longleftrightarrow>
     node_emittable junk (fragment_whitelist WRAPPED_SCRIPT_TYPE_TAPSCRIPT) x \<and> node_height x \<le> MAX_POLICY_DEPTH"
| "tree_emittable junk (Tree_branch l r) \<longleftrightarrow> tree_emittable junk l \<and> tree_emittable junk r"

text \<open>The output script of a policy; \<open>None\<close> where the policy is not a supported top level or the
  internal key has no tweak.\<close>

definition output_script :: "cx_ops \<Rightarrow> (key_placeholder \<Rightarrow> bytes) \<Rightarrow> hash_fns \<Rightarrow> policy_node \<Rightarrow> bytes option" where
  "output_script cx key hf policy =
     (let sha = cx_hash_sha256 hf; p2sh = (\<lambda>s. [OP_HASH160, 20] @ crypto_hash160 hf s @ [OP_EQUAL]);
          p2wsh = (\<lambda>s. [OP_0, 32] @ sha s)
      in case policy of
           Node_with_key t _ kp \<Rightarrow>
             if t = TOKEN_PKH then Some ([OP_DUP, OP_HASH160] @ push_hash160 hf (key kp) @ [OP_EQUALVERIFY, OP_CHECKSIG])
             else if t = TOKEN_WPKH then Some (OP_0 # push_hash160 hf (key kp))
             else None
         | Node_with_script t _ x \<Rightarrow>
             if t = TOKEN_SH then
               (case wsh_child x of
                  Some y \<Rightarrow> Some (p2sh (p2wsh (node_script key hf False False y)))
                | None \<Rightarrow> Some (p2sh (node_script key hf False False x)))
             else if t = TOKEN_WSH then Some (p2wsh (node_script key hf False False x))
             else None
         | Node_tr t _ kp tree \<Rightarrow>
             if t \<noteq> TOKEN_TR then None
             else map_option (\<lambda>(parity, q). [OP_1, 32] @ q)
                    (crypto_tr_tweak_pubkey cx sha (drop 1 (key kp)) (case tree of None \<Rightarrow> [] | Some tr \<Rightarrow> taptree_root key hf tr))
         | _ \<Rightarrow> None)"

definition policy_emittable :: "u8 \<Rightarrow> policy_node \<Rightarrow> bool" where
  "policy_emittable junk policy \<longleftrightarrow>
     (case core_policy policy of
        Some (t, x) \<Rightarrow> node_emittable junk (fragment_whitelist t) x \<and> node_height x \<le> MAX_POLICY_DEPTH
      | None \<Rightarrow> (case policy of Node_tr _ _ _ (Some tree) \<Rightarrow> tree_emittable junk tree | _ \<Rightarrow> True))"

text \<open>Digests have the lengths that the hash functions promise.\<close>

definition digest_lengths :: "hash_fns \<Rightarrow> bool" where
  "digest_lengths hf \<longleftrightarrow> (\<forall>x. length (cx_hash_sha256 hf x) = 32) \<and> (\<forall>x. length (cx_hash_ripemd160 hf x) = 20)"

lemma andthen_simps [simp]:
  "andthen None f = None" "andthen (Some None) f = Some None" "andthen (Some (Some x)) f = f x"
  by (simp_all add: andthen_def)

lemma tagged_hash_eq: "crypto_tr_tagged_hash H (str tag) a b = tagged_hash H tag (a @ b)"
  by (simp add: crypto_tr_tagged_hash_def crypto_tr_tagged_hash_init_def crypto_hash_simps tagged_hash_def Let_def)

lemma combine_taptree_hashes_eq:
  "crypto_tr_combine_taptree_hashes H a b = tagged_hash H ''TapBranch'' (min a b @ max a b)"
  by (auto simp: crypto_tr_combine_taptree_hashes_def BIP0341_tapbranch_tag_def tagged_hash_eq min_def max_def)

lemma concat_length_bound: "(\<And>x. x \<in> set xs \<Longrightarrow> length (f x) \<le> b) \<Longrightarrow> length (concat (map f xs)) \<le> length xs * b"
  by (induction xs) (auto intro!: add_mono)

text \<open>The script of a leaf is short enough for the 16-bit counter of its length.\<close>

lemma tapscript_short:
  assumes "node_emittable junk (fragment_whitelist WRAPPED_SCRIPT_TYPE_TAPSCRIPT) x" and "\<And>kp. length (key kp) = 33"
  shows "length (node_script key hf True False x) < 65536"
proof (cases x)
  case (Node_multisig t f k kps)
  then have t: "t \<in> {TOKEN_MULTI_A, TOKEN_SORTEDMULTI_A}" "length kps \<le> 16"
    using assms(1) by (auto simp: fragment_whitelist_tapscript_def split: if_splits)
  have l: "length pk = 32" if "pk \<in> set (multi_keys key t kps)" for pk
    using that assms(2) t(1) by (auto simp: multi_keys_def Let_def split: if_splits)
  have n: "length (multi_keys key t kps) = length kps" by (simp add: multi_keys_def Let_def)
  have "length (concat (map (\<lambda>(i, pk). 32 # pk @ [if i = 0 then OP_CHECKSIG else OP_CHECKSIGADD]) (enumerate 0 (multi_keys key t kps)))) \<le>
      length (enumerate 0 (multi_keys key t kps)) * 34"
    by (rule concat_length_bound) (auto dest!: in_set_enumerate_eq [THEN iffD1] simp: l)
  then show ?thesis using t Node_multisig by (auto simp: n op_verify_def Let_def)
next
  case (Node_with_key t f kp)
  then show ?thesis using assms by (auto simp: fragment_whitelist_tapscript_def push_key_def op_verify_def)
qed (use assms(1) in \<open>auto simp: fragment_whitelist_tapscript_def\<close>)

lemma taptree_hash_cases:
  assumes d: "derives derive key"
  shows "tree_emittable junk tree \<Longrightarrow>
    compute_taptree_hash derive hf junk tree dc = Some None \<and> derivation_fails derive \<or>
    (\<exists>dc'. compute_taptree_hash derive hf junk tree dc = Some (Some (taptree_root key hf tree, dc')))"
proof (induction tree arbitrary: dc rule: tree_emittable.induct)
  case (1 junk x)
  let ?s = "node_script key hf True False x" and ?t = WRAPPED_SCRIPT_TYPE_TAPSCRIPT
  have k: "length (key kp) = 33" for kp using d by (simp add: derives_def valid_pubkey_def)
  have "length ?s < 65536" using 1 k by (intro tapscript_short) auto
  then have len: "(ucast (of_nat (length ?s) :: u16) :: u64) = of_nat (length ?s)"
    by (simp add: word_unat_eq_iff unsigned_ucast_eq unat_of_nat take_bit_eq_mod)
  show ?case
  proof (rule internal_script_cases [OF d, of junk ?t x hf None dc])
    fix dc1
    assume 2: "get_wallet_internal_script_hash derive hf junk x ?t None dc =
      Some (Some (of_nat (length (node_script key hf (?t = ?t) False x)), map_option (\<lambda>c. c @ node_script key hf (?t = ?t) False x) None, dc1))"
    let ?c = "crypto_hash_update_varint (crypto_hash_update_u8 (crypto_tr_tapleaf_hash_init (cx_hash_sha256 hf)) 0xC0) (of_nat (length ?s))"
    show ?thesis
      by (rule internal_script_cases [OF d, of junk ?t x hf "Some ?c" dc1])
        (use 1 2 in \<open>simp_all add: compute_tapleaf_hash_def len tagged_hash_def crypto_tr_tapleaf_hash_init_def
           crypto_tr_tagged_hash_init_def BIP0341_tapleaf_tag_def crypto_hash_simps Let_def\<close>)
  qed (use 1 in \<open>simp_all add: compute_tapleaf_hash_def\<close>)
next
  case (2 junk l r)
  then have e: "tree_emittable junk l" "tree_emittable junk r" by simp_all
  from 2(1) [OF e(1), of dc] show ?case
  proof (elim disjE exE conjE)
    fix dc1
    assume "compute_taptree_hash derive hf junk l dc = Some (Some (taptree_root key hf l, dc1))"
    then show ?thesis using 2(2) [OF e(2), of dc1] by (auto simp: combine_taptree_hashes_eq Let_def)
  qed simp
qed

definition point_lengths :: "cx_ops \<Rightarrow> bool" where
  "point_lengths cx \<longleftrightarrow> (\<forall>P Q R. cx_ecfp_add_point cx P Q = Some R \<longrightarrow> length R = 65)"

lemma tweak_length:
  assumes "point_lengths cx" and "crypto_tr_tweak_pubkey cx H pk h = Some (b, q)"
  shows "length q = 32"
  using assms by (auto simp: point_lengths_def crypto_tr_tweak_pubkey_def bind_eq_Some_conv Let_def simp del: bind_guard)

lemma put_simps [simp]: "put out 0 bs = bs @ drop (length bs) out"
  by (simp add: put_def)





end
