(* ===== verification/Policy_Size.thy ===== *)
theory Policy_Size
  imports Policy_Compile
begin

text \<open>
  The script that the machine of \<open>src/handler/lib/policy.c\<close> emits for a policy against the size and
  the opcode count that \<open>compute_miniscript_policy_ext_info\<close> of \<open>src/common/wallet.c\<close> computes for it,
  on which the resource limits of a policy are checked.
\<close>

section \<open>Opcodes of a script\<close>

text \<open>The number of opcodes that count towards the limit of Bitcoin Script, which are those above
  \<open>OP_16\<close>; the data behind a push opcode is skipped.\<close>

function script_ops :: "bytes \<Rightarrow> nat" where
  "script_ops [] = 0"
| "script_ops (b # bs) =
     (if 1 \<le> b \<and> b \<le> 75 then script_ops (drop (unat b) bs) else (if b > 0x60 then 1 else 0) + script_ops bs)"
  by pat_completeness auto
termination by (relation "measure length") auto

definition whole :: "bytes \<Rightarrow> bool" where
  "whole s \<longleftrightarrow> (\<forall>r. script_ops (s @ r) = script_ops s + script_ops r)"

lemma script_ops_append [simp]: "whole a \<Longrightarrow> script_ops (a @ b) = script_ops a + script_ops b"
  by (simp add: whole_def)

lemma whole_append [simp]: "whole a \<Longrightarrow> whole b \<Longrightarrow> whole (a @ b)"
  by (simp add: whole_def)

lemma whole_Nil [simp]: "whole []"
  by (simp add: whole_def)

lemma whole_op [simp]: "b = 0 \<or> b > 75 \<Longrightarrow> whole s \<Longrightarrow> whole (b # s)"
  by (auto simp: whole_def)

lemma script_ops_op [simp]: "b = 0 \<or> b > 75 \<Longrightarrow> script_ops (b # s) = (if b > 0x60 then 1 else 0) + script_ops s"
  by auto

lemma push_data:
  assumes "1 \<le> b" "b \<le> 75" "length d = unat b"
  shows "script_ops (b # d @ s) = script_ops s" "whole (b # d)" "whole s \<Longrightarrow> whole (b # d @ s)" "script_ops (b # d) = 0"
  using assms by (simp_all add: whole_def)

lemma op_verify_simps [simp]:
  "op = 0 \<or> op > 75 \<Longrightarrow> whole (op_verify v op)"
  "length (op_verify v op) = (if v \<and> op \<notin> {OP_CHECKSIG, OP_CHECKMULTISIG, OP_NUMEQUAL, OP_EQUAL} then 2 else 1)"
  "op = 0 \<or> op > 75 \<Longrightarrow> script_ops (op_verify v op) =
     (if op > 0x60 then 1 else 0) + (if v \<and> op \<notin> {OP_CHECKSIG, OP_CHECKMULTISIG, OP_NUMEQUAL, OP_EQUAL} then 1 else 0)"
  by (auto simp: op_verify_def)

lemma push_number_length: "length (push_number n) = unat (get_push_script_size n)"
proof -
  have l: "length (enc_u32_le n) = 4" by (simp add: enc_u32_le_bytes)
  show ?thesis
    by (auto simp: push_number_def script_number_cases get_push_script_size_def l word_le_nat_alt word_less_nat_alt)
qed

lemma push_number_ops: "whole (push_number n) \<and> script_ops (push_number n) = 0"
proof (cases "n \<le> 16")
  case True
  then have n: "unat n \<le> 16" by (simp add: word_le_nat_alt)
  then have "unat (0x50 + ucast n :: u8) = 80 + unat n"
    by (simp add: unat_word_ariths unsigned_ucast_eq take_bit_eq_mod)
  then have "0x50 + ucast n > (75 :: u8)" "\<not> 0x50 + ucast n > (0x60 :: u8)" using n by (simp_all add: word_less_nat_alt)
  then show ?thesis using True by (simp add: push_number_def)
next
  case False
  let ?s = "script_number n"
  have "length (enc_u32_le n) = 4" by (simp add: enc_u32_le_bytes)
  then have "1 \<le> length ?s" "length ?s \<le> 5" by (simp_all add: script_number_cases)
  then have "1 \<le> (of_nat (length ?s) :: u8)" "of_nat (length ?s) \<le> (75 :: u8)" "length ?s = unat (of_nat (length ?s) :: u8)" 
    by (simp_all add: word_le_nat_alt unat_of_nat)
  from push_data [OF this] show ?thesis using False by (simp add: push_number_def)
qed

lemma push_key_simps:
  assumes "length pk = 33"
  shows "whole (push_key False pk)" "length (push_key False pk) = 34" "script_ops (push_key False pk) = 0"
  using assms push_data(2,4) [of 33 pk] by (simp_all add: push_key_def)

lemma push_hash160_simps:
  assumes "digest_lengths hf"
  shows "whole (push_hash160 hf pk)" "length (push_hash160 hf pk) = 21" "script_ops (push_hash160 hf pk) = 0"
  using assms push_data(2,4) [of 20 "crypto_hash160 hf pk"]
  by (simp_all add: push_hash160_def digest_lengths_def crypto_hash160_def crypto_ripemd160_def)

declare script_ops.simps(2) [simp del]

section \<open>The computed size and opcode count\<close>

text \<open>\<open>s\<close> has the size and the number of opcodes that \<open>e\<close> says, where a \<open>v:\<close> wrapper around it adds an
  \<open>OP_VERIFY\<close> if \<open>e\<close> has the property \<open>x\<close>.\<close>

definition sized :: "bool \<Rightarrow> bytes \<Rightarrow> policy_node_ext_info \<Rightarrow> bool" where
  "sized v s e \<longleftrightarrow> whole s \<and>
     of_nat (length s) = script_size e + (if v \<and> ext_x e then 1 else 0) \<and>
     of_nat (script_ops s) = ops_count (ext_ops e) + (if v \<and> ext_x e then 1 else 0)"

lemmas ext_defs = ext_0_def ext_1_def ext_pk_k_def ext_pk_h_def ext_pk_def ext_pkh_def ext_multi_def ext_older_def ext_after_def
  ext_hash_256_def ext_hash_160_def ext_andor_def ext_and_v_def ext_and_b_def ext_and_n_def ext_or_b_def ext_or_c_def
  ext_or_d_def ext_or_i_def ext_wrap_a_def ext_wrap_s_n_def ext_wrap_c_def ext_wrap_d_def ext_wrap_t_def ext_wrap_v_def
  ext_wrap_j_def ext_wrap_l_u_def ext_init_def ext_copy_timelocks_def ext_join_timelocks_def mk_ops_def

lemma sized_adds:
  "list_all2 (sized False) Ss es \<Longrightarrow>
    whole (concat (map (\<lambda>Y. Y @ [OP_ADD]) Ss)) \<and>
    of_nat (length (concat (map (\<lambda>Y. Y @ [OP_ADD]) Ss))) = sum_list (map script_size es) + of_nat (length es) \<and>
    of_nat (script_ops (concat (map (\<lambda>Y. Y @ [OP_ADD]) Ss))) = sum_list (map (\<lambda>t. ops_count (ext_ops t) + 1) es)"
  by (induction rule: list_all2_induct) (simp_all add: sized_def)

lemma those_list_all2: "those xs = Some ys \<longleftrightarrow> list_all2 (\<lambda>x y. x = Some y) xs ys"
proof (induction xs arbitrary: ys)
  case (Cons x xs)
  then show ?case by (cases x; cases ys) auto
qed auto

lemma wrapper_sized:
  assumes "type_wrapper t X = Some F" and "ext_wrapper t ex = Some e"
    and "sized False (node_script key hf False False x) ex"
    and "ms_type X = MINISCRIPT_TYPE_B \<Longrightarrow> sized True (node_script key hf False True x) ex"
  shows "sized False (node_script key hf False False (Node_with_script t f x)) e \<and>
    (ms_type F = MINISCRIPT_TYPE_B \<longrightarrow> sized True (node_script key hf False True (Node_with_script t f x)) e)"
  using assms
  by (cases t) (auto simp: type_wrapper_def ext_wrapper_def sized_def ext_defs ms_def Let_def split: if_splits)

lemma script2_sized:
  assumes "script2_rule t = Some rule" and "rule X Y = Some F" and "ext_script2 t ex ey = Some e"
    and "sized False (node_script key hf False False x) ex" and "sized False (node_script key hf False False y) ey"
    and "ms_type Y = MINISCRIPT_TYPE_B \<Longrightarrow> sized True (node_script key hf False True y) ey"
  shows "sized False (node_script key hf False False (Node_with_script2 t f x y)) e \<and>
    (ms_type F = MINISCRIPT_TYPE_B \<longrightarrow> sized True (node_script key hf False True (Node_with_script2 t f x y)) e)"
  using assms
  by (cases t) (auto simp: script2_rule_def type_and_v_def ext_script2_def sized_def ext_defs ms_def Let_def split: if_splits)

lemma script3_sized:
  assumes "sized False (node_script key hf False False x) ex" and "sized False (node_script key hf False False y) ey"
    and "sized False (node_script key hf False False z) ez"
  shows "sized v (node_script key hf False v (Node_with_script3 t f x y z)) (ext_andor ex ey ez)"
  using assms by (simp add: sized_def ext_defs)

lemma ext_thresh_Some:
  assumes "ext_thresh M k ts = Some e"
  shows "\<not> ext_x e \<and> script_size e = sum_list (map script_size ts) + of_nat (length ts) + ucast (get_push_script_size (of_nat k)) \<and>
    ops_count (ext_ops e) = sum_list (map (\<lambda>t. ops_count (ext_ops t) + 1) ts)"
proof -
  obtain ops ss where o: "compute_thresh_ops M k ts = Some ops" "compute_thresh_stacksize M k ts = Some ss"
    using assms by (cases "compute_thresh_ops M k ts"; cases "compute_thresh_stacksize M k ts") (simp_all add: ext_thresh_def)
  then have "ops_count ops = sum_list (map (\<lambda>t. ops_count (ext_ops t) + 1) ts)"
    by (auto simp: compute_thresh_ops_def mk_ops_def Let_def split: if_splits)
  then show ?thesis using assms o by (auto simp: ext_thresh_def Let_def)
qed

lemma thresh_sized:
  assumes ss: "list_all2 (sized False) (map (node_script key hf False False) xs) ts" and ne: "xs \<noteq> []" and e: "ext_thresh M k ts = Some e"
  shows "sized v (node_script key hf False v (Node_thresh t f k xs)) e"
proof -
  obtain x xs' t' ts' where l: "xs = x # xs'" "ts = t' # ts'" "sized False (node_script key hf False False x) t'"
    and r: "list_all2 (sized False) (map (node_script key hf False False) xs') ts'"
    using ss ne by (cases xs; cases ts) auto
  have z: "\<not> ext_x e" "script_size e = sum_list (map script_size ts) + of_nat (length ts) + ucast (get_push_script_size (of_nat k))"
    "ops_count (ext_ops e) = sum_list (map (\<lambda>t. ops_count (ext_ops t) + 1) ts)"
    using ext_thresh_Some [OF e] by simp_all
  define A P where "A = concat (map (\<lambda>Y. Y @ [OP_ADD]) (map (node_script key hf False False) xs'))" and "P = push_number (of_nat k)"
  have s: "node_script key hf False v (Node_thresh t f k xs) = node_script key hf False False x @ A @ P @ op_verify v OP_EQUAL"
    by (simp add: l A_def P_def)
  have A: "whole A" "of_nat (length A) = sum_list (map script_size ts') + of_nat (length ts')"
    "of_nat (script_ops A) = sum_list (map (\<lambda>t. ops_count (ext_ops t) + 1) ts')"
    using sized_adds [OF r] by (simp_all add: A_def)
  have P: "whole P" "script_ops P = 0" "of_nat (length P) = (ucast (get_push_script_size (of_nat k)) :: u16)"
    using push_number_ops [of "of_nat k"] by (simp_all add: P_def push_number_length)
  have X: "whole (node_script key hf False False x)" "of_nat (length (node_script key hf False False x)) = script_size t'"
    "of_nat (script_ops (node_script key hf False False x)) = ops_count (ext_ops t')"
    using l(3) by (simp_all add: sized_def)
  define X where "X = node_script key hf False False x"
  note X = X [folded X_def]
  have "of_nat (length (X @ A @ P @ op_verify v OP_EQUAL)) = script_size e"
    unfolding length_append of_nat_add A X P z l(2) by simp
  moreover have "of_nat (script_ops (X @ A @ P @ op_verify v OP_EQUAL)) = ops_count (ext_ops e)"
    unfolding z l(2) by (simp add: A X P)
  moreover have "whole (X @ A @ P @ op_verify v OP_EQUAL)" using A X P by simp
  ultimately show ?thesis unfolding s sized_def X_def using z(1) by simp
qed

lemma ucast_of_nat_u16: "ucast (of_nat m :: size_t) = (of_nat m :: u16)"
  by (simp add: word_unat_eq_iff unsigned_ucast_eq unat_of_nat take_bit_eq_mod mod_mod_cancel)

lemma multi_sized:
  assumes "\<And>kp. length (key kp) = 33" and "k \<le> 16" "length kps \<le> 16"
  shows "sized v (node_script key hf False v (Node_multisig TOKEN_MULTI f k kps)) (ext_multi k (length kps))"
proof -
  have "whole (concat (map ((#) 33) (map key kps))) \<and> script_ops (concat (map ((#) 33) (map key kps))) = 0 \<and>
      length (concat (map ((#) 33) (map key kps))) = 34 * length kps"
    using assms(1) by (induction kps) (simp_all add: push_data)
  moreover have "0x50 + of_nat n > (75 :: u8) \<and> \<not> 0x50 + of_nat n > (0x60 :: u8)" if "n \<le> 16" for n
    using that by (simp add: word_less_nat_alt unat_word_ariths unat_of_nat)
  moreover have "get_push_script_size (of_nat n) = 1" if "n \<le> 16" for n
    using that by (simp add: get_push_script_size_def word_le_nat_alt unat_of_nat)
  moreover have "ucast (3 + 34 * of_nat n :: size_t) = (3 + 34 * of_nat n :: u16)" for n
    using ucast_of_nat_u16 [of "3 + 34 * n"] by simp
  ultimately show ?thesis
    using assms by (simp add: sized_def ext_defs multi_keys_def)
qed

lemma ucast_push_size: "(ucast (1 + get_push_script_size n) :: u16) = 1 + ucast (get_push_script_size n)"
  by (simp add: get_push_script_size_def)

lemma timelock_sized:
  assumes "t \<in> {TOKEN_OLDER, TOKEN_AFTER}"
  shows "sized v (node_script key hf False v (Node_with_uint32 t f n)) (if t = TOKEN_OLDER then ext_older n else ext_after n)"
  using assms push_number_ops [of n] push_number_length [of n] ucast_push_size [of n]
  by (auto simp: sized_def ext_defs)

lemma key_sized:
  assumes "\<And>kp. length (key kp) = 33" and "digest_lengths hf" and "ext_key t = Some e" and "type_key t = Some X"
  shows "sized False (node_script key hf False False (Node_with_key t f kp)) e \<and>
    (ms_type X = MINISCRIPT_TYPE_B \<longrightarrow> sized True (node_script key hf False True (Node_with_key t f kp)) e)"
  using assms push_key_simps [OF assms(1)] push_hash160_simps [OF assms(2)]
  by (cases t) (auto simp: ext_key_def type_key_def sized_def ext_defs ms_def)

lemma hash_sized:
  shows "length h = 32 \<Longrightarrow> sized v (node_script key hf False v (Node_with_hash_256 t f h)) ext_hash_256"
    and "length h = 20 \<Longrightarrow> sized v (node_script key hf False v (Node_with_hash_160 t f h)) ext_hash_160"
  using push_data(1) [of 1 "[32]"] push_data(3) [of 1 "[32]"] by (simp_all add: sized_def ext_defs push_data)

lemma constant_sized:
  "t \<in> {TOKEN_0, TOKEN_1} \<Longrightarrow> sized v (node_script key hf False v (Node_constant t f)) (if t = TOKEN_0 then ext_0 else ext_1)"
  by (auto simp: sized_def ext_defs)

lemma node_sized:
  assumes k: "\<And>kp. length (key kp) = 33" and h: "digest_lengths hf"
  shows "script_ok d c x \<Longrightarrow> compute_miniscript_policy_ext_info M x = Some e \<Longrightarrow> flags_of x = Some X \<Longrightarrow>
    sized False (node_script key hf False False x) e \<and> (ms_type X = MINISCRIPT_TYPE_B \<longrightarrow> sized True (node_script key hf False True x) e)"
proof (induction M x arbitrary: d c e X rule: compute_miniscript_policy_ext_info.induct)
  case (1 M t f)
  then show ?case using constant_sized [of t False key hf f] constant_sized [of t True key hf f] by (auto split: if_splits)
next
  case (2 M t f x)
  then obtain ex Y where o: "compute_miniscript_policy_ext_info M x = Some ex" "ext_wrapper t ex = Some e" "is_wrapper t"
      "script_ok d c x" "flags_of x = Some Y" "type_wrapper t Y = Some X"
    by (auto simp: bind_eq_Some_conv split: if_splits option.splits)
  have "guard (f \<noteq> None) = Some ()" using 2(4) by simp
  from 2(1) [OF this o(4,1,5)] show ?case using wrapper_sized [OF o(6,2)] by blast
next
  case (3 M t f x y)
  then obtain ex ey Y Z rule where o:
    "compute_miniscript_policy_ext_info M x = Some ex" "compute_miniscript_policy_ext_info M y = Some ey" "ext_script2 t ex ey = Some e"
    "script_ok (d + 1) c x" "script_ok (d + 1) c y" "flags_of x = Some Y" "flags_of y = Some Z" "script2_rule t = Some rule" "rule Y Z = Some X"
    by (auto simp: bind_eq_Some_conv split: option.splits)
  have g: "guard (f \<noteq> None) = Some ()" using 3(5) by simp
  from 3(1) [OF g o(4,1,6)] 3(2) [OF g o(1,5,2,7)] show ?case using script2_sized [OF o(8,9,3)] by blast
next
  case (4 M t f x y z)
  then obtain ex ey ez Y Z W where o:
    "compute_miniscript_policy_ext_info M x = Some ex" "compute_miniscript_policy_ext_info M y = Some ey"
    "compute_miniscript_policy_ext_info M z = Some ez" "e = ext_andor ex ey ez"
    "script_ok (d + 1) c x" "script_ok (d + 1) c y" "script_ok (d + 1) c z" "flags_of x = Some Y" "flags_of y = Some Z" "flags_of z = Some W"
    by (auto simp: bind_eq_Some_conv split: option.splits if_splits)
  have g: "guard (f \<noteq> None) = Some ()" using 4(6) by simp
  from 4(1) [OF g o(5,1,8)] 4(2) [OF g o(1,6,2,9)] 4(3) [OF g o(1,2,7,3,10)] show ?case using script3_sized o(4) by blast
next
  case (5 M t f kp)
  then show ?case using key_sized [where key = key, OF k h, of t e X f kp] by auto
next
  case (6 M t f n)
  then show ?case using timelock_sized [of t False key hf f n] timelock_sized [of t True key hf f n] by (auto split: if_splits)
next
  case (7 M t f kk kps)
  then show ?case
    using multi_sized [where key = key and v = False, OF k, of kk kps hf f] multi_sized [where key = key and v = True, OF k, of kk kps hf f]
    by (auto simp: MAX_PUBKEYS_PER_MULTISIG_def split: if_splits)
next
  case (8 M t f kk xs)
  then obtain ts where ts: "those (map (compute_miniscript_policy_ext_info M) xs) = Some ts" "ext_thresh M kk ts = Some e" "xs \<noteq> []"
      "list_all (script_ok (d + 1) c) xs" "thresh_child True (hd xs)" "list_all (thresh_child False) (tl xs)" and f: "f \<noteq> None"
    by (auto simp: bind_eq_Some_conv split: if_splits)
  have fl: "\<forall>x \<in> set xs. flags_of x \<noteq> None"
    using ts(3,5,6) by (cases xs) (auto simp: thresh_child_def list_all_iff split: option.splits)
  have "list_all2 (\<lambda>x e. compute_miniscript_policy_ext_info M x = Some e) xs ts"
    using ts(1) by (simp add: those_list_all2 list.rel_map)
  then have "list_all2 (sized False) (map (node_script key hf False False) xs) ts"
    unfolding list.rel_map
  proof (rule list.rel_mono_strong)
    fix x t assume "x \<in> set xs" "compute_miniscript_policy_ext_info M x = Some t"
    moreover from this obtain Y where "flags_of x = Some Y" using fl by auto
    ultimately show "sized False (node_script key hf False False x) t"
      using 8(1) [of "()" x "d + 1" c t Y] f ts(4) by (auto simp: list_all_iff)
  qed
  then show ?case using thresh_sized ts by blast
next
  case (9 M t f hh)
  then show ?case using hash_sized(2) [of hh _ key hf t f] by (auto split: if_splits)
next
  case (10 M t f hh)
  then show ?case using hash_sized(1) [of hh _ key hf t f] by (auto split: if_splits)
qed simp

text \<open>C11: The size and the number of opcodes that \<open>compute_miniscript_policy_ext_info\<close> gives for a policy
  that the parser accepts are those of the script that the machine emits for it: the length of the
  script and the number of its opcodes above \<open>OP_16\<close>, in sixteen bits.\<close>

theorem ext_info_describes_script:
  assumes "script_ok d c x" and "compute_miniscript_policy_ext_info M x = Some e"
    and "\<And>kp. length (key kp) = 33" and "digest_lengths hf"
  shows "script_size e = of_nat (length (node_script key hf False False x)) \<and>
    ops_count (ext_ops e) = of_nat (script_ops (node_script key hf False False x))"
proof -
  obtain X where "flags_of x = Some X" using assms(2) by (cases x) (auto split: if_splits)
  from node_sized [where key = key, OF assms(3,4,1,2) this] show ?thesis by (simp add: sized_def)
qed

text \<open>\<open>and_v(v:older(144),pk(@0/**))\<close> inside \<open>wsh\<close>.\<close>

definition sized_policy :: policy_node where
  "sized_policy = Node_with_script2 TOKEN_AND_V (Some (ms MINISCRIPT_TYPE_B False True True False True))
     (Node_with_script TOKEN_V (type_wrapper TOKEN_V type_timelock) (Node_with_uint32 TOKEN_OLDER (Some type_timelock) 144))
     (Node_with_key TOKEN_PK (type_key TOKEN_PK) (sample_kp 0))"

theorem ext_info_describes_script_witness:
  "case compute_miniscript_policy_ext_info (\<lambda>_. 0) sized_policy of
     None \<Rightarrow> False
   | Some e \<Rightarrow> script_size e = of_nat (length (node_script sample_key sample_hash False False sized_policy)) \<and>
       script_size e = 40"
proof -
  have ok: "script_ok 1 (inner_context TOKEN_WSH top_context) sized_policy"
    by (simp add: sized_policy_def token_allowed_def inner_context_def is_wrapper_def script2_rule_def type_and_v_def type_wrapper_def
      type_timelock_def type_key_def ms_def kp_ok_def sample_kp_def)
  have k: "length (sample_key kp) = 33" for kp by (simp add: sample_key_def)
  have h: "digest_lengths sample_hash" by (simp add: digest_lengths_def sample_hash_def)
  have r: "map_option script_size (compute_miniscript_policy_ext_info (\<lambda>_. 0) sized_policy) = Some 40" by code_simp
  then obtain e where e: "compute_miniscript_policy_ext_info (\<lambda>_. 0) sized_policy = Some e" by auto
  with r ext_info_describes_script [OF ok e k h] show ?thesis by simp
qed

end
