(* ===== verification/Policy_Sane.thy ===== *)
theory Policy_Sane
  imports Policy_Keys Client_Props Policy_Size
begin

text \<open>
  What the checks on a wallet policy guarantee: the enumeration of its placeholders is the one of the
  descriptor, and a policy that \<open>is_policy_sane\<close> accepts uses no derivation twice and stays within
  the limits of miniscript. The theory also has the surroundings that examples run in.
\<close>


lemma count_keys_loop_eq:
  assumes "script_ok d c p"
  shows "count_keys_loop p cur r = Some (foldl max r (map (\<lambda>(kp, _). int (key_index kp) + 1) (drop cur (placeholders p))))"
proof (induction "length (placeholders p) - cur" arbitrary: cur r)
  case 0
  then show ?case using get_key_placeholder_lookup(1) [OF assms, of cur] by (subst count_keys_loop.simps) (simp add: lookup_def)
next
  case (Suc n)
  have "cur < length (placeholders p)" "n = length (placeholders p) - Suc cur" using Suc(2) by auto
  with Suc(1) [OF this(2)] show ?case
    using get_key_placeholder_lookup(1) [OF assms, of cur] Cons_nth_drop_Suc [of cur "placeholders p", symmetric]
    by (subst count_keys_loop.simps) (simp add: lookup_def split_beta)
qed

lemma foldl_max: "foldl max r xs = (if xs = [] then r else max r (Max (set xs)))" for r :: int
proof (induction xs arbitrary: r)
  case (Cons x xs)
  then show ?case by (cases "xs = []") (simp_all add: max.assoc)
qed simp

lemma placeholders_disjoint_iff:
  assumes "script_ok d c p"
  shows "placeholders_disjoint p \<longleftrightarrow>
    (\<forall>j < length (placeholders p). \<forall>i < j. \<not> repeated_derivation (fst (placeholders p ! i)) (fst (placeholders p ! j)))"
proof -
  let ?n = "length (placeholders p)"
  have "placeholders_disjoint p \<longleftrightarrow>
      (\<forall>i \<in> {0..<?n - 1}. \<forall>j \<in> {i + 1..<?n}. \<not> repeated_derivation (fst (placeholders p ! i)) (fst (placeholders p ! j)))"
    using get_key_placeholder_lookup(1) [OF assms] by (auto simp: placeholders_disjoint_def lookup_def list_all_iff)
  also have "\<dots> \<longleftrightarrow> (\<forall>j < ?n. \<forall>i < j. \<not> repeated_derivation (fst (placeholders p ! i)) (fst (placeholders p ! j)))"
    by fastforce
  finally show ?thesis .
qed

lemma of_option_simps [proc_simps]: "of_option e None s = Some (Inl e, s)" "of_option e (Some v) s = Some (Inr v, s)"
  "of_option e x s = Some (Inr w, s') \<longleftrightarrow> x = Some w \<and> s' = s"
  by (auto simp: of_option_def ret_def err_def split: option.splits)

lemma only_minus_1_Inr [proc_simps]: "only_minus_1 p s = Some (Inr v, s') \<longleftrightarrow> p s = Some (Inr v, s')"
  by (auto simp: only_minus_1_def split: option.splits sum.splits prod.splits if_splits)

lemma require_Inr [proc_simps]: "require b e s = Some (Inr v, s') \<longleftrightarrow> b \<and> s' = s"
  by (auto simp: require_def ret_def err_def)

lemmas success_simps = seqp_Inr require_Inr of_option_simps(3) only_minus_1_Inr on_error_Inr ret_simps(1)

text \<open>C5: The enumeration of the placeholders of a policy that the parser accepts is that of the
  descriptor from left to right: the function returns their number, and the \<open>i\<close>-th of them with the
  leaf of the taproot tree that it is in. The number of distinct keys is one more than the largest
  index of a key, and the loop that computes it ends.\<close>

theorem get_key_placeholder_by_index_correct:
  assumes "script_ok d c policy"
  shows "get_key_placeholder_by_index policy i =
      Some (length (placeholders policy),
        if i < length (placeholders policy)
        then (Some (fst (placeholders policy ! i)), snd (placeholders policy ! i)) else (None, None)) \<and>
    count_distinct_keys_info policy =
      Some (if placeholders policy = [] then - 1
            else Max ((\<lambda>(kp, _). int (key_index kp) + 1) ` set (placeholders policy)))"
proof -
  let ?xs = "map (\<lambda>(kp, _). int (key_index kp) + 1) (placeholders policy)"
  have "placeholders policy \<noteq> [] \<Longrightarrow> 0 \<le> Max (set ?xs)" by (subst Max_ge_iff) (auto simp: neq_Nil_conv)
  then have "placeholders policy \<noteq> [] \<Longrightarrow> max (- 1) (Max (set ?xs)) = Max (set ?xs)" by simp
  then show ?thesis
    using get_key_placeholder_lookup(1) [OF assms, of i] count_keys_loop_eq [OF assms, of 0 "- 1"]
    by (simp add: lookup_def count_distinct_keys_info_def foldl_max del: max_def)
qed


text \<open>The host can make the application accept a key for an index.\<close>

definition can_serve :: "env \<Rightarrow> int \<Rightarrow> bytes \<Rightarrow> u32 \<Rightarrow> u32 \<Rightarrow> serialized_extended_pubkey \<Rightarrow> bool" where
  "can_serve E version root n_keys i k \<longleftrightarrow>
     (\<exists>dc dc'. get_pubkey_from_merkle_tree E version root n_keys i dc = Some (Inr k, dc'))"

lemma pubkeys_differ_Inr:
  assumes "pubkeys_differ m E version root n_keys k j dc = Some (Inr (), dc')" "i < m"
  shows "\<exists>l. can_serve E version root n_keys (j + of_nat i) l \<and> xpub_compressed_pubkey k \<noteq> xpub_compressed_pubkey l"
  using assms
proof (induction m arbitrary: i j dc)
  case (Suc m)
  from Suc.prems(1) obtain l dc1 where l: "get_pubkey_from_merkle_tree E version root n_keys j dc = Some (Inr l, dc1)"
      "xpub_compressed_pubkey k \<noteq> xpub_compressed_pubkey l" "pubkeys_differ m E version root n_keys k (j + 1) dc1 = Some (Inr (), dc')"
    by (auto simp: success_simps)
  show ?case
  proof (cases i)
    case 0
    then show ?thesis using l by (auto simp: can_serve_def)
  next
    case (Suc i')
    then show ?thesis using Suc.IH [OF l(3), of i'] Suc.prems(2) by (simp add: algebra_simps)
  qed
qed simp

lemma pubkeys_distinct_Inr:
  assumes "pubkeys_distinct m E version root n_keys b dc = Some (Inr (), dc')" "i < m" "i < j" "unat b + m < unat n_keys"
    "unat b + j < unat n_keys"
  shows "\<exists>k l. can_serve E version root n_keys (b + of_nat i) k \<and> can_serve E version root n_keys (b + of_nat j) l \<and>
    xpub_compressed_pubkey k \<noteq> xpub_compressed_pubkey l"
  using assms
proof (induction m arbitrary: i j b dc)
  case (Suc m)
  from Suc.prems(1) obtain k dc1 dc2 where k: "get_pubkey_from_merkle_tree E version root n_keys b dc = Some (Inr k, dc1)"
      "pubkeys_differ (unat n_keys - unat (b + 1)) E version root n_keys k (b + 1) dc1 = Some (Inr (), dc2)"
      "pubkeys_distinct m E version root n_keys (b + 1) dc2 = Some (Inr (), dc')"
    by (auto simp: success_simps)
  have "unat b + 1 < 4294967296" using Suc.prems(4) unat_size_t_less [of n_keys] by linarith
  then have b: "unat (b + 1) = unat b + 1" by (simp add: unat_word_ariths)
  have e: "b + 1 + of_nat x = b + of_nat (Suc x)" for x by simp
  show ?case
  proof (cases i)
    case 0
    obtain j' where "j = Suc j'" using Suc.prems(3) by (cases j) auto
    then have "j' < unat n_keys - (unat b + 1)" using Suc.prems(5) by linarith
    from pubkeys_differ_Inr [OF k(2), of j', unfolded b e, OF this] show ?thesis
      using k(1) 0 \<open>j = Suc j'\<close> by (auto simp: can_serve_def)
  next
    case (Suc i')
    obtain j' where j: "j = Suc j'" using Suc.prems(3) by (cases j) auto
    then show ?thesis using Suc.IH [OF k(3), of i' j', unfolded b e] Suc.prems Suc by simp
  qed
qed simp


text \<open>Surroundings that compute, for examples; signatures and keys are made up from their arguments.\<close>

definition test_os :: key_ops where
  "test_os = \<lparr>cx_hmac_sha256 = (\<lambda>k m. digest32 (k @ m)), cx_hmac_sha512 = (\<lambda>k m. digest32 k @ digest32 m),
     bip32_derive_get_pubkey_256 = (\<lambda>path. Some (4 # concat (map enc_u32_be path) @ replicate (64 - 4 * length path) 2, replicate 32 1)),
     bip32_derive_init_privkey_256 = (\<lambda>path. Some (digest32 (concat (map enc_u32_be path)))),
     os_derive_slip21 = (\<lambda>label. Some (digest32 label)),
     cx_ecfp_generate_pair = (\<lambda>d. Some (4 # d @ d)),
     cx_ecdsa_sign = (\<lambda>d h. Some ([0x30, 68, 2, 32] @ d @ [2, 32] @ h, 0)),
     cx_ecschnorr_sign = (\<lambda>d h. Some (d @ h))\<rparr>"

definition test_env :: env where
  "test_env = \<lparr>e_hf = \<lparr>cx_hash_sha256 = digest32, cx_hash_ripemd160 = \<lambda>x. take 20 (digest32 x)\<rparr>,
     e_cx = \<lparr>cx_math_powm = (\<lambda>a e m. Some (digest32 a)), cx_math_addm = (\<lambda>a b m. Some (digest32 a)), cx_math_sub = (\<lambda>a b. Some (digest32 b)),
       cx_math_cmp = (\<lambda>a b. Some (- 1)), cx_ecfp_scalar_mult = (\<lambda>P k. Some (4 # digest32 k @ digest32 k)),
       cx_ecfp_add_point = (\<lambda>P Q. Some P)\<rparr>,
     e_os = test_os, e_coin = syscoin, e_host = (\<lambda>msgs. None), e_user = (\<lambda>screens. True), e_pin_validated = True,
     e_swap = \<lparr>swap_called = False, swap_amount = 0, swap_fees = 0, swap_destination_address = []\<rparr>,
     e_sizes = documented_sizes, e_addr = 0, e_mem = [], e_beyond = (\<lambda>_. 0), e_junk = 0\<rparr>"

definition sane_policy :: policy_node where
  "sane_policy = Node_with_script TOKEN_WSH None sized_policy"

lemma sane_policy_ok: "script_ok 0 top_context sane_policy"
  by (simp add: sane_policy_def sized_policy_def token_allowed_def inner_context_def is_wrapper_def script2_rule_def type_and_v_def
    type_wrapper_def type_timelock_def type_key_def ms_def kp_ok_def sample_kp_def)

theorem get_key_placeholder_by_index_correct_witness:
  "get_key_placeholder_by_index sane_policy 0 = Some (1, Some (sample_kp 0), None) \<and>
   get_key_placeholder_by_index sane_policy 1 = Some (1, None, None) \<and> count_distinct_keys_info sane_policy = Some 1"
proof -
  have "placeholders sane_policy = [(sample_kp 0, None)]" "key_index (sample_kp 0) = 0" by code_simp+
  with get_key_placeholder_by_index_correct [OF sane_policy_ok, of 0] get_key_placeholder_by_index_correct [OF sane_policy_ok, of 1]
  show ?thesis by simp
qed


end
