(* ===== verification/Display.thy ===== *)
theory Display
  imports Policy_Sane Text_Format
begin

text \<open>
  The screens (\<open>src/ui/display.c\<close>) in the variant for devices with buttons, and the helpers in which
  the command handlers are written. The state of a handler has the screens that were shown since the
  command came in, with what each of them showed. A text of a screen is what the array behind it holds up to the
  terminator; a text that leaves no room for the terminator has no meaning in the model.
\<close>

record app =
  app_dc :: dispatcher_state
  app_screens :: "screen list"
  app_should_exit :: bool

definition on_dc :: "'a proc \<Rightarrow> (app, 'a) stproc" where
  "on_dc p a = map_option (\<lambda>(r, dc). (r, a\<lparr>app_dc := dc\<rparr>)) (p (app_dc a))"

definition undefined_if_none :: "'a option \<Rightarrow> ('s, 'a) stproc" where
  "undefined_if_none x s = map_option (\<lambda>v. (Inr v, s)) x"

text \<open>\<open>SEND_SW(dc, sw); return;\<close> alone, behind a test, and behind a call that failed.\<close>

definition fail_sw :: "u16 \<Rightarrow> (app, 'a) stproc" where
  "fail_sw sw a = Some (Inl (- 1), a\<lparr>app_dc := SEND_SW sw (app_dc a)\<rparr>)"

definition check_sw :: "bool \<Rightarrow> u16 \<Rightarrow> (app, unit) stproc" where
  "check_sw c sw = (if c then ret () else fail_sw sw)"

definition or_sw :: "u16 \<Rightarrow> (app, 'a) stproc \<Rightarrow> (app, 'a) stproc" where
  "or_sw sw p a = (case p a of Some (Inl e, a) \<Rightarrow> fail_sw sw a | r \<Rightarrow> r)"

definition respond :: "bytes \<Rightarrow> size_t \<Rightarrow> u16 \<Rightarrow> (app, unit) stproc" where
  "respond rdata rdata_len sw a = map_option (\<lambda>dc. (Inr (), a\<lparr>app_dc := dc\<rparr>)) (SEND_RESPONSE rdata rdata_len sw (app_dc a))"

section \<open>Texts\<close>

definition MAX_ADDRESS_LENGTH_STR :: "coin \<Rightarrow> nat" where
  "MAX_ADDRESS_LENGTH_STR coin = 72 + (length (COIN_NATIVE_SEGWIT_PREFIX coin) + 1)"

definition c_string :: "bytes \<Rightarrow> bytes" where
  "c_string s = takeWhile (\<lambda>c. c \<noteq> 0) s"

text \<open>\<open>strncpy\<close> to a field of a screen.\<close>

definition text_field :: "bytes \<Rightarrow> nat \<Rightarrow> ('s, bytes) stproc" where
  "text_field s n = undefined_if_none (if length (c_string s) < n then Some (c_string s) else None)"

section \<open>Screens\<close>

definition io_ui_process :: "env \<Rightarrow> screen \<Rightarrow> (app, bool) stproc" where
  "io_ui_process E s a =
     (let dc = set_ui_dirty (app_dc a);
          dc = io_clear_processing_timeout dc;
          shown = app_screens a @ [s];
          dc = io_start_processing_timeout dc
      in Some (Inr (e_user E shown), a\<lparr>app_dc := dc, app_screens := shown\<rparr>))"

definition ui_display_pubkey :: "env \<Rightarrow> bytes \<Rightarrow> bool \<Rightarrow> bytes \<Rightarrow> (app, bool) stproc" where
  "ui_display_pubkey E bip32_path_str is_path_suspicious pubkey =
     seqp (text_field bip32_path_str (MAX_SERIALIZED_BIP32_PATH_LENGTH + 1)) (\<lambda>path.
     seqp (text_field pubkey (MAX_SERIALIZED_PUBKEY_LENGTH + 1)) (\<lambda>key.
     io_ui_process E (if \<not> is_path_suspicious then Screen_pubkey path key else Screen_pubkey_suspicious path key)))"

definition ui_display_message_hash :: "env \<Rightarrow> bytes \<Rightarrow> bytes \<Rightarrow> (app, bool) stproc" where
  "ui_display_message_hash E bip32_path_str message_hash =
     seqp (text_field bip32_path_str (MAX_SERIALIZED_BIP32_PATH_LENGTH + 1)) (\<lambda>path.
     seqp (text_field message_hash (64 + 1)) (\<lambda>h.
     io_ui_process E (Screen_message_hash path h)))"

text \<open>Both texts are terminated at the lengths that the header gives.\<close>

definition ui_display_register_wallet :: "env \<Rightarrow> policy_map_wallet_header \<Rightarrow> bytes \<Rightarrow> (app, bool) stproc" where
  "ui_display_register_wallet E wallet_header policy_descriptor =
     io_ui_process E (Screen_register_wallet
       (c_string (take (unat (hdr_name_len wallet_header)) (hdr_name wallet_header)))
       (c_string (take (unat (hdr_descriptor_template_len wallet_header)) policy_descriptor)))"

definition ui_display_policy_map_cosigner_pubkey :: "env \<Rightarrow> bytes \<Rightarrow> u8 \<Rightarrow> bool \<Rightarrow> (app, bool) stproc" where
  "ui_display_policy_map_cosigner_pubkey E pubkey cosigner_index is_internal =
     seqp (text_field pubkey (MAX_POLICY_KEY_INFO_LEN + 1)) (\<lambda>key.
     io_ui_process E (Screen_cosigner_pubkey key
       (str ''Key @'' @ decimal (unat cosigner_index) @ (if is_internal then str '' <ours>'' else str '' <theirs>''))))"

definition ui_display_wallet_address :: "env \<Rightarrow> bytes option \<Rightarrow> bytes \<Rightarrow> (app, bool) stproc" where
  "ui_display_wallet_address E wallet_name address =
     seqp (text_field address (MAX_ADDRESS_LENGTH_STR (e_coin E) + 1)) (\<lambda>addr.
     case wallet_name of
       None \<Rightarrow> io_ui_process E (Screen_default_wallet_address addr)
     | Some nm \<Rightarrow>
         seqp (text_field nm (unat MAX_WALLET_NAME_LENGTH + 1)) (\<lambda>name.
         io_ui_process E (Screen_receive_in_wallet name addr)))"

definition ui_authorize_wallet_spend :: "env \<Rightarrow> bytes \<Rightarrow> (app, bool) stproc" where
  "ui_authorize_wallet_spend E wallet_name =
     seqp (text_field wallet_name (unat MAX_WALLET_NAME_LENGTH + 1)) (\<lambda>name.
     io_ui_process E (Screen_spend_from_wallet name))"

definition ui_warn_external_inputs :: "env \<Rightarrow> (app, bool) stproc" where
  "ui_warn_external_inputs E = io_ui_process E Screen_warning_external_inputs"

definition ui_warn_unverified_segwit_inputs :: "env \<Rightarrow> (app, bool) stproc" where
  "ui_warn_unverified_segwit_inputs E = io_ui_process E Screen_unverified_segwit_inputs"

definition ui_warn_nondefault_sighash :: "env \<Rightarrow> (app, bool) stproc" where
  "ui_warn_nondefault_sighash E = io_ui_process E Screen_nondefault_sighash"

definition ui_warn_high_fee :: "env \<Rightarrow> (app, bool) stproc" where
  "ui_warn_high_fee E = io_ui_process E Screen_warn_high_fee"

definition MAX_OPRETURN_OUTPUT_DESC_SIZE :: nat where
  "MAX_OPRETURN_OUTPUT_DESC_SIZE = 12 + 80 * 2 + 1"

definition amount_field :: "bytes \<Rightarrow> u64 \<Rightarrow> ('s, bytes) stproc" where
  "amount_field coin_name amount =
     undefined_if_none (map_option c_string (format_sats_amount coin_name amount (replicate (MAX_AMOUNT_LENGTH + 1) 0)))"

definition ui_validate_output :: "env \<Rightarrow> int \<Rightarrow> int \<Rightarrow> bytes \<Rightarrow> bytes \<Rightarrow> u64 \<Rightarrow> (app, bool) stproc" where
  "ui_validate_output E index total_count address_or_description coin_name amount =
     seqp (text_field address_or_description
       (max (MAX_ADDRESS_LENGTH_STR (e_coin E) + 1) MAX_OPRETURN_OUTPUT_DESC_SIZE)) (\<lambda>description.
     seqp (amount_field coin_name amount) (\<lambda>amount.
     io_ui_process E (if total_count = 1 then Screen_output_no_index description amount
                      else Screen_output index description amount)))"

definition ui_validate_transaction :: "env \<Rightarrow> bytes \<Rightarrow> u64 \<Rightarrow> bool \<Rightarrow> (app, bool) stproc" where
  "ui_validate_transaction E coin_name fee is_self_transfer =
     seqp (amount_field coin_name fee) (\<lambda>fee.
     io_ui_process E (Screen_accept_transaction fee is_self_transfer))"

end
