(* ===== verification/Handlers.thy ===== *)
theory Handlers
  imports Display
begin

text \<open>
  The handlers of the commands that export keys and addresses, register wallet policies and sign
  messages (\<open>src/handler/get_master_fingerprint.c\<close>, \<open>get_extended_pubkey.c\<close>, \<open>get_wallet_address.c\<close>,
  \<open>register_wallet.c\<close> and \<open>sign_message.c\<close>). A handler that returns early has the result
  \<open>Inl (- 1)\<close>; the status word that it sent is in the state. The lemmas show what the user has
  seen and approved when a handler answers with \<open>SW_OK\<close>.
\<close>

section \<open>Reading the command\<close>

definition cmd_u8 :: "(app, u8) stproc" where
  "cmd_u8 = on_dc (rd_u8 (- 1))"

definition cmd_u32_be :: "(app, u32) stproc" where
  "cmd_u32_be = on_dc (\<lambda>dc. let (ok, v, b) = buffer_read_u32 (rb dc) BE
     in Some (if ok then Inr v else Inl (- 1), dc\<lparr>read_buffer := b\<rparr>))"

definition cmd_varint :: "(app, u64) stproc" where
  "cmd_varint = on_dc (rd_varint (- 1))"

definition cmd_bytes :: "size_t \<Rightarrow> (app, bytes) stproc" where
  "cmd_bytes n = on_dc (rd_bytes (- 1) n)"

definition cmd_bip32_path :: "nat \<Rightarrow> (app, u32 list) stproc" where
  "cmd_bip32_path n = on_dc (\<lambda>dc. do {
     (ok, path, b) \<leftarrow> buffer_read_bip32_path (rb dc) n;
     Some (if ok then Inr path else Inl (- 1), dc\<lparr>read_buffer := b\<rparr>)
   })"

section \<open>Fingerprint and extended public keys\<close>

definition handler_get_master_fingerprint :: "env \<Rightarrow> u8 \<Rightarrow> (app, unit) stproc" where
  "handler_get_master_fingerprint E protocol_version =
     seqp (check_sw (e_pin_validated E) SW_SECURITY_STATUS_NOT_SATISFIED) (\<lambda>_.
     seqp (or_sw SW_BAD_STATE (of_option (- 1)
       (crypto_get_compressed_pubkey_at_path (e_os E) (crypto_get_master_fingerprint_path (e_coin E))))) (\<lambda>(master_pubkey, _).
     respond (write_u32_be (replicate 4 0) 0 (crypto_get_key_fingerprint (e_hf E) master_pubkey)) 4 SW_OK))"

definition is_path_safe_for_pubkey_export :: "coin \<Rightarrow> u32 list \<Rightarrow> bool" where
  "is_path_safe_for_pubkey_export coin bip32_path =
     (if length bip32_path = 2 \<and> bip32_path ! 0 = 4541509 XOR 0x80000000 \<and> bip32_path ! 1 = 1112098098 XOR 0x80000000 then True
      else if length bip32_path < 3 then False
      else let purpose = bip32_path ! 0 AND 0x7FFFFFFF in
        if purpose \<notin> {44, 49, 84, 86, 45, 48} then False
        else let hardened_der_len = (if purpose = 48 then 4 else 3) in
          if length bip32_path < hardened_der_len then False
          else if list_ex (\<lambda>i. bip32_path ! i < 0x80000000) [0..<hardened_der_len] then False
          else if list_ex (\<lambda>i. bip32_path ! i \<ge> 0x80000000) [hardened_der_len..<length bip32_path] then False
          else let coin_type = bip32_path ! 1 AND 0x7FFFFFFF in
            if coin_type \<noteq> BIP44_COIN_TYPE coin then False
            else let account = bip32_path ! 2 AND 0x7FFFFFFF in
              if account > MAX_BIP44_ACCOUNT_RECOMMENDED then False
              else if purpose = 48 then let script_type = bip32_path ! 3 AND 0x7FFFFFFF in script_type = 1 \<or> script_type = 2
              else True)"

text \<open>The array \<open>path_str\<close> of the handlers.\<close>

definition path_str :: "u32 list \<Rightarrow> bytes" where
  "path_str bip32_path =
     (let text = str ''(Master key)'' @ replicate (MAX_SERIALIZED_BIP32_PATH_LENGTH + 1 - 12) 0
      in if length bip32_path > 0 then snd (bip32_path_format bip32_path text) else text)"

definition handler_get_extended_pubkey :: "env \<Rightarrow> u8 \<Rightarrow> (app, unit) stproc" where
  "handler_get_extended_pubkey E protocol_version =
     seqp (check_sw (e_pin_validated E) SW_SECURITY_STATUS_NOT_SATISFIED) (\<lambda>_.
     seqp (or_sw SW_WRONG_DATA_LENGTH (seqp cmd_u8 (\<lambda>display. seqp cmd_u8 (\<lambda>bip32_path_len. ret (display, bip32_path_len)))))
       (\<lambda>(display, bip32_path_len).
     seqp (check_sw (\<not> (display > 1 \<or> unat bip32_path_len > MAX_BIP32_PATH_STEPS)) SW_INCORRECT_DATA) (\<lambda>_.
     seqp (or_sw SW_WRONG_DATA_LENGTH (cmd_bip32_path (unat bip32_path_len))) (\<lambda>bip32_path.
     let is_safe = is_path_safe_for_pubkey_export (e_coin E) bip32_path in
     seqp (check_sw (\<not> (\<not> is_safe \<and> display = 0)) SW_NOT_SUPPORTED) (\<lambda>_.
     seqp (or_sw SW_BAD_STATE (of_option (- 1)
       (get_extended_pubkey_at_path (e_hf E) (e_os E) bip32_path (BIP32_PUBKEY_VERSION (e_coin E))))) (\<lambda>serialized_extended_pubkey.
     let pubkey_check = xpub_bytes serialized_extended_pubkey @ crypto_get_checksum (e_hf E) (xpub_bytes serialized_extended_pubkey) in
     seqp (or_sw SW_BAD_STATE (of_option (- 1) (base58_encode pubkey_check (MAX_SERIALIZED_PUBKEY_LENGTH + 1)))) (\<lambda>pubkey_str.
     seqp (check_sw (\<not> (length pubkey_str \<noteq> 111 \<and> length pubkey_str \<noteq> 112)) SW_BAD_STATE) (\<lambda>_.
     seqp (if display \<noteq> 0 then ui_display_pubkey E (path_str bip32_path) (\<not> is_safe) (pubkey_str @ [0]) else ret True) (\<lambda>approved.
     seqp (check_sw approved SW_DENY) (\<lambda>_.
     respond pubkey_str (of_nat (length pubkey_str)) SW_OK))))))))))"

section \<open>Addresses of a wallet\<close>

definition header_wdi :: "policy_map_wallet_header \<Rightarrow> bool \<Rightarrow> u32 \<Rightarrow> wallet_derivation_info" where
  "header_wdi wallet_header is_change address_index =
     \<lparr>wdi_wallet_version = uint (hdr_version wallet_header), wdi_keys_merkle_root = hdr_keys_info_merkle_root wallet_header,
      wdi_n_keys = hdr_n_keys wallet_header, wdi_address_index = address_index, wdi_change = is_change\<rparr>"

definition fetch_wallet_policy :: "env \<Rightarrow> bytes \<Rightarrow> (policy_map_wallet_header \<times> bytes \<times> policy_node) proc" where
  "fetch_wallet_policy E wallet_id =
     seqp (call_get_preimage (sha E) (e_host E) wallet_id (uninit E MAX_WALLET_POLICY_SERIALIZED_LENGTH)) (\<lambda>v.
     seqp (require (\<not> fst v < 0) (- 1)) (\<lambda>_.
     read_and_parse_wallet_policy E (buffer_create 0 (snd v) (of_int (fst v)))))"

definition handler_get_wallet_address :: "env \<Rightarrow> u8 \<Rightarrow> (app, unit) stproc" where
  "handler_get_wallet_address E protocol_version =
     seqp (check_sw (e_pin_validated E) SW_SECURITY_STATUS_NOT_SATISFIED) (\<lambda>_.
     seqp (or_sw SW_WRONG_DATA_LENGTH (seqp cmd_u8 (\<lambda>display_address. seqp (cmd_bytes 32) (\<lambda>wallet_id.
       seqp (cmd_bytes 32) (\<lambda>wallet_hmac. ret (display_address, wallet_id, wallet_hmac)))))) (\<lambda>(display_address, wallet_id, wallet_hmac).
     seqp (or_sw SW_WRONG_DATA_LENGTH cmd_u8) (\<lambda>is_change.
     seqp (check_sw (\<not> (is_change \<noteq> 0 \<and> is_change \<noteq> 1)) SW_INCORRECT_DATA) (\<lambda>_.
     seqp (or_sw SW_WRONG_DATA_LENGTH cmd_u32_be) (\<lambda>address_index.
     seqp (check_sw (\<not> address_index \<ge> BIP32_FIRST_HARDENED_CHILD) SW_INCORRECT_DATA) (\<lambda>_.
     seqp (or_sw SW_INCORRECT_DATA (on_dc (fetch_wallet_policy E wallet_id))) (\<lambda>(wallet_header, _, policy).
     let hmac_or = foldl (OR) 0 wallet_hmac in
     seqp (if hmac_or = 0 then
         seqp (or_sw SW_INCORRECT_DATA (on_dc (is_wallet_policy_standard E wallet_header policy))) (\<lambda>_.
         seqp (check_sw (hdr_name_len wallet_header = 0) SW_INCORRECT_DATA) (\<lambda>_.
         seqp (check_sw (\<not> address_index > MAX_BIP44_ADDRESS_INDEX_RECOMMENDED) SW_INCORRECT_DATA) (\<lambda>_.
         ret True)))
       else
         seqp (check_sw (check_wallet_hmac (e_os E) wallet_id wallet_hmac) SW_SIGNATURE_FAIL) (\<lambda>_.
         ret False)) (\<lambda>is_wallet_default.
     seqp (check_sw (\<not> (swap_called (e_swap E) \<and> \<not> is_wallet_default)) SW_INCORRECT_DATA) (\<lambda>_.
     seqp (check_sw (wallet_id = get_policy_wallet_id (sha E) wallet_header) SW_INCORRECT_DATA) (\<lambda>_.
     seqp (or_sw SW_BAD_STATE (on_dc (wallet_script E (header_wdi wallet_header (is_change = 1) address_index) policy))) (\<lambda>script.
     seqp (or_sw SW_BAD_STATE (of_option (- 1) (get_script_address (e_coin E) (e_hf E) script
         (of_nat (MAX_ADDRESS_LENGTH_STR (e_coin E) + 1))))) (\<lambda>address.
     seqp (if display_address \<noteq> 0
       then ui_display_wallet_address E (if is_wallet_default then None else Some (hdr_name wallet_header)) address
       else ret True) (\<lambda>approved.
     seqp (check_sw approved SW_DENY) (\<lambda>_.
     respond address (of_nat (length address)) SW_OK))))))))))))))"

section \<open>Registration of a wallet policy\<close>

definition is_policy_acceptable :: "policy_node \<Rightarrow> bool" where
  "is_policy_acceptable policy \<longleftrightarrow>
     node_type policy = TOKEN_PKH \<or> node_type policy = TOKEN_WPKH \<or> node_type policy = TOKEN_SH \<or>
     node_type policy = TOKEN_WSH \<or> node_type policy = TOKEN_TR"

definition is_policy_name_acceptable :: "bytes \<Rightarrow> nat \<Rightarrow> bool" where
  "is_policy_name_acceptable name name_len =
     (if name_len = 0 \<or> name_len > unat MAX_WALLET_NAME_LENGTH then False
      else if name ! 0 = ch CHR '' '' \<or> name ! (name_len - 1) = ch CHR '' '' then False
      else list_all (\<lambda>i. \<not> (name ! i < 0x20 \<or> name ! i > 0x7E)) [0..<name_len])"

text \<open>
  One key of the policy, with whether it is a key of the device; the loop over the keys counts those.
  In the variant for devices with buttons \<open>ui_post_processing_confirm_wallet_registration\<close> does nothing.
\<close>

definition is_key_internal :: "env \<Rightarrow> u32 \<Rightarrow> policy_map_key_info \<Rightarrow> (app, bool) stproc" where
  "is_key_internal E master_key_fingerprint key_info =
     (if ki_has_key_origin key_info \<and> read_u32_be (ki_master_key_fingerprint key_info) 0 = master_key_fingerprint
      then seqp (or_sw SW_BAD_STATE (of_option (- 1) (get_extended_pubkey_at_path (e_hf E) (e_os E)
             (ki_master_key_derivation key_info) (BIP32_PUBKEY_VERSION (e_coin E))))) (\<lambda>pubkey_derived.
           ret (xpub_bytes (ki_ext_pubkey key_info) = xpub_bytes pubkey_derived))
      else ret False)"

definition register_key :: "env \<Rightarrow> policy_map_wallet_header \<Rightarrow> u32 \<Rightarrow> size_t \<Rightarrow> (app, bool) stproc" where
  "register_key E wallet_header master_key_fingerprint cosigner_index =
     seqp (or_sw SW_INCORRECT_DATA (on_dc (call_get_merkle_leaf_element (sha E) (e_host E)
       (hdr_keys_info_merkle_root wallet_header) (hdr_n_keys wallet_header) cosigner_index
       (uninit E MAX_POLICY_KEY_INFO_LEN)))) (\<lambda>(pubkey_info_len, next_pubkey_info).
     seqp (or_sw SW_INCORRECT_DATA (of_option (- 1) (parse_policy_map_key_info E
       (buffer_create 0 next_pubkey_info (of_nat pubkey_info_len)) (uint (hdr_version wallet_header))))) (\<lambda>key_info.
     seqp (is_key_internal E master_key_fingerprint key_info) (\<lambda>internal.
     seqp (ui_display_policy_map_cosigner_pubkey E (take pubkey_info_len next_pubkey_info) (ucast cosigner_index) internal) (\<lambda>approved.
     seqp (check_sw approved SW_DENY) (\<lambda>_.
     ret internal)))))"

primrec register_keys :: "nat \<Rightarrow> env \<Rightarrow> policy_map_wallet_header \<Rightarrow> u32 \<Rightarrow> size_t \<Rightarrow> nat \<Rightarrow> (app, nat) stproc" where
  "register_keys 0 E wallet_header master_key_fingerprint cosigner_index n_internal_keys = ret n_internal_keys"
| "register_keys (Suc n) E wallet_header master_key_fingerprint cosigner_index n_internal_keys =
     seqp (register_key E wallet_header master_key_fingerprint cosigner_index) (\<lambda>internal.
     register_keys n E wallet_header master_key_fingerprint (cosigner_index + 1)
       (if internal then n_internal_keys + 1 else n_internal_keys))"

text \<open>
  The template is read from the command itself, and nothing is read from the command after it. The failure of
  \<open>compute_wallet_hmac\<close> is not looked at.
\<close>

definition handler_register_wallet :: "env \<Rightarrow> u8 \<Rightarrow> (app, unit) stproc" where
  "handler_register_wallet E protocol_version =
     seqp (check_sw (e_pin_validated E) SW_SECURITY_STATUS_NOT_SATISFIED) (\<lambda>_.
     seqp (or_sw SW_WRONG_DATA_LENGTH cmd_varint) (\<lambda>serialized_policy_map_len.
     seqp (or_sw SW_INCORRECT_DATA (on_dc (\<lambda>dc. read_and_parse_wallet_policy E (rb dc) dc))) (\<lambda>(wallet_header, policy_map_descriptor, policy).
     seqp (undefined_if_none (count_distinct_keys_info policy)) (\<lambda>n_keys_info.
     seqp (check_sw (n_keys_info = sint (hdr_n_keys wallet_header)) SW_INCORRECT_DATA) (\<lambda>_.
     let wallet_id = get_policy_wallet_id (sha E) wallet_header in
     seqp (check_sw (is_policy_name_acceptable (hdr_name wallet_header) (unat (hdr_name_len wallet_header))) SW_INCORRECT_DATA) (\<lambda>_.
     seqp (check_sw (is_policy_acceptable policy) SW_NOT_SUPPORTED) (\<lambda>_.
     seqp (or_sw SW_NOT_SUPPORTED (on_dc (is_policy_sane E policy (uint (hdr_version wallet_header))
       (hdr_keys_info_merkle_root wallet_header) (hdr_n_keys wallet_header)))) (\<lambda>_.
     seqp (ui_display_register_wallet E wallet_header policy_map_descriptor) (\<lambda>approved.
     seqp (check_sw approved SW_DENY) (\<lambda>_.
     let master_key_fingerprint = crypto_get_master_key_fingerprint (e_hf E) (e_os E) (uninit E 33) (e_coin E) in
     seqp (register_keys (unat (hdr_n_keys wallet_header)) E wallet_header master_key_fingerprint 0 0) (\<lambda>n_internal_keys.
     seqp (check_sw (\<not> n_internal_keys < 1) SW_INCORRECT_DATA) (\<lambda>_.
     seqp (check_sw (\<not> (n_internal_keys \<noteq> 1 \<and> uint (hdr_version wallet_header) = WALLET_POLICY_VERSION_V1)) SW_INCORRECT_DATA) (\<lambda>_.
     let hmac = (case compute_wallet_hmac (e_os E) wallet_id of None \<Rightarrow> uninit E 32 | Some h \<Rightarrow> h) in
     respond (wallet_id @ hmac) 64 SW_OK)))))))))))))"

section \<open>Signing a message\<close>

definition BSM_SIGN_MAGIC :: bytes where
  "BSM_SIGN_MAGIC = 0x18 # str ''Bitcoin Signed Message:'' @ [10]"

definition SYSM_SIGN_MAGIC :: bytes where
  "SYSM_SIGN_MAGIC = 0x18 # str ''Syscoin Signed Message:'' @ [10]"

primrec message_loop :: "nat \<Rightarrow> env \<Rightarrow> bytes \<Rightarrow> size_t \<Rightarrow> u32 \<Rightarrow> hash_context \<times> hash_context \<Rightarrow> (app, hash_context \<times> hash_context) stproc" where
  "message_loop 0 E message_merkle_root n_chunks i ctx = ret ctx"
| "message_loop (Suc n) E message_merkle_root n_chunks i ctx =
     seqp (or_sw SW_BAD_STATE (on_dc (seqp (call_get_merkle_leaf_element (sha E) (e_host E) message_merkle_root n_chunks i (uninit E 64))
       (\<lambda>v. seqp (require (\<not> (fst v \<noteq> 64 \<and> i \<noteq> n_chunks - 1)) (- 1)) (\<lambda>_. ret v))))) (\<lambda>(chunk_len, message_chunk).
     message_loop n E message_merkle_root n_chunks (i + 1)
       (crypto_hash_update (fst ctx) (take chunk_len message_chunk), crypto_hash_update (snd ctx) (take chunk_len message_chunk)))"

definition hex_upper :: "u8 \<Rightarrow> bytes" where
  "hex_upper b = map (\<lambda>d. if d < 10 then of_nat (48 + d) else of_nat (55 + d)) [unat b div 16, unat b mod 16]"

definition MAX_DER_SIG_LEN :: nat where "MAX_DER_SIG_LEN = 72"
definition CX_ECCINFO_PARITY_ODD :: u32 where "CX_ECCINFO_PARITY_ODD = 1"

text \<open>
  The signature in the format of Bitcoin messages. The loops write \<open>s\<close> and \<open>r\<close> so that each ends at
  its place; the first of 33 bytes is overwritten. \<open>None\<close> is a length above 33.
\<close>

definition compact_signature :: "bytes \<Rightarrow> u32 \<Rightarrow> bytes option" where
  "compact_signature sig info = do {
     let r_length = unat (sig ! 3);
     let s_length = unat (sig ! (4 + r_length + 1));
     guard (\<not> (r_length > 33 \<or> s_length > 33));
     let result = replicate 65 0;
     let result = splice result (1 + 32 + 32 - s_length) (take s_length (drop (4 + r_length + 2) sig));
     let result = splice result (1 + 32 - r_length) (take r_length (drop 4 sig));
     Some (result[0 := 27 + 4 + (if info AND CX_ECCINFO_PARITY_ODD \<noteq> 0 then 1 else 0)])
   }"

text \<open>The byte behind \<open>r\<close> is read before the length of \<open>r\<close> is tested, which must not leave the array.\<close>

definition handler_sign_message :: "env \<Rightarrow> u8 \<Rightarrow> (app, unit) stproc" where
  "handler_sign_message E protocol_version =
     seqp (check_sw (e_pin_validated E) SW_SECURITY_STATUS_NOT_SATISFIED) (\<lambda>_.
     seqp (or_sw SW_WRONG_DATA_LENGTH (seqp cmd_u8 (\<lambda>bip32_path_len. seqp (cmd_bip32_path (unat bip32_path_len)) (\<lambda>bip32_path.
       seqp cmd_varint (\<lambda>message_length. seqp (cmd_bytes 32) (\<lambda>message_merkle_root.
       ret (bip32_path, message_length, message_merkle_root))))))) (\<lambda>(bip32_path, message_length, message_merkle_root).
     seqp (check_sw (\<not> (length bip32_path > MAX_BIP32_PATH_STEPS \<or> message_length \<ge> 0x100000000)) SW_INCORRECT_DATA) (\<lambda>_.
     let bsm_digest_context = crypto_hash_update [] (if BIP44_COIN_TYPE (e_coin E) = 57 then SYSM_SIGN_MAGIC else BSM_SIGN_MAGIC);
         bsm_digest_context = crypto_hash_update_varint bsm_digest_context message_length;
         n_chunks = ucast ((message_length + 63) div 64) in
     seqp (message_loop (unat n_chunks) E message_merkle_root n_chunks 0 ([], bsm_digest_context)) (\<lambda>(msg_hash_context, bsm_digest_context).
     let message_hash = crypto_hash_digest (sha E) msg_hash_context;
         bsm_digest = sha E (crypto_hash_digest (sha E) bsm_digest_context);
         message_hash_str = concat (map hex_upper message_hash) @ [0] in
     seqp (ui_display_message_hash E (path_str bip32_path) message_hash_str) (\<lambda>approved.
     seqp (check_sw approved SW_DENY) (\<lambda>_.
     seqp (or_sw SW_BAD_STATE (of_option (- 1) (crypto_ecdsa_sign_sha256_hash_with_key (e_os E) bip32_path bsm_digest False))) (\<lambda>(sig, _, info).
     let sig = take MAX_DER_SIG_LEN (splice (uninit E MAX_DER_SIG_LEN) 0 sig) in
     seqp (undefined_if_none (if 4 + unat (sig ! 3) + 1 < MAX_DER_SIG_LEN then Some () else None)) (\<lambda>_.
     seqp (or_sw SW_BAD_STATE (of_option (- 1) (compact_signature sig info))) (\<lambda>result.
     respond result 65 SW_OK)))))))))"

end
