(* ===== verification/Client_Calm.thy ===== *)
theory Client_Calm
  imports Client_Rules
begin

text \<open>
  Between two requests nothing is left in the response buffer: a procedure that succeeds leaves
  it as empty as it was, and every procedure only adds to the messages that were sent.
\<close>

named_theorems calm_rules \<open>procedures that leave no response behind\<close>

definition extends :: "dispatcher_state \<Rightarrow> dispatcher_state \<Rightarrow> bool" where
  "extends dc dc' \<longleftrightarrow> io_ok dc' \<and> (\<exists>ms. sent dc' = sent dc @ ms)"

lemma extends_trans: "extends a b \<Longrightarrow> extends b c \<Longrightarrow> extends a c"
  by (auto simp: extends_def)

lemma extends_ok: "extends a b \<Longrightarrow> io_ok b"
  by (simp add: extends_def)

definition calm_step :: "dispatcher_state \<Rightarrow> (int + 'a) \<times> dispatcher_state \<Rightarrow> bool" where
  "calm_step dc y \<longleftrightarrow> (io_ok dc \<longrightarrow> extends dc (snd y) \<and> (pending dc = [] \<and> (\<exists>v. fst y = Inr v) \<longrightarrow> pending (snd y) = []))"

definition calm :: "'a proc \<Rightarrow> bool" where
  "calm p \<longleftrightarrow> (\<forall>dc y. p dc = Some y \<longrightarrow> calm_step dc y)"

text \<open>While a response is built it is not empty; the interruption sends it.\<close>

definition goes_on :: "'a proc \<Rightarrow> bool" where
  "goes_on p \<longleftrightarrow> (\<forall>dc r dc'. io_ok dc \<longrightarrow> p dc = Some (r, dc') \<longrightarrow> extends dc dc')"

definition clears :: "'a proc \<Rightarrow> bool" where
  "clears p \<longleftrightarrow> goes_on p \<and> (\<forall>dc v dc'. io_ok dc \<longrightarrow> p dc = Some (Inr v, dc') \<longrightarrow> pending dc' = [])"

lemma goes_onD: "goes_on p \<Longrightarrow> io_ok dc \<Longrightarrow> p dc = Some (r, dc') \<Longrightarrow> extends dc dc'"
  unfolding goes_on_def by blast

lemma clearsD: "clears p \<Longrightarrow> io_ok dc \<Longrightarrow> p dc = Some (Inr v, dc') \<Longrightarrow> pending dc' = []"
  unfolding clears_def by blast

lemma calmD:
  assumes "calm p" "io_ok dc"
  shows "p dc = Some (r, dc') \<Longrightarrow> extends dc dc'" "p dc = Some (Inr v, dc') \<Longrightarrow> pending dc = [] \<Longrightarrow> pending dc' = []"
  using assms by (fastforce simp: calm_def calm_step_def)+

lemma calm_iff: "calm p \<longleftrightarrow> goes_on p \<and> (\<forall>dc v dc'. io_ok dc \<longrightarrow> pending dc = [] \<longrightarrow> p dc = Some (Inr v, dc') \<longrightarrow> pending dc' = [])"
proof
  assume "calm p"
  then show "goes_on p \<and> (\<forall>dc v dc'. io_ok dc \<longrightarrow> pending dc = [] \<longrightarrow> p dc = Some (Inr v, dc') \<longrightarrow> pending dc' = [])"
    unfolding goes_on_def using calmD by metis
next
  assume "goes_on p \<and> (\<forall>dc v dc'. io_ok dc \<longrightarrow> pending dc = [] \<longrightarrow> p dc = Some (Inr v, dc') \<longrightarrow> pending dc' = [])"
  then have g: "goes_on p" and c: "\<And>dc v dc'. io_ok dc \<Longrightarrow> pending dc = [] \<Longrightarrow> p dc = Some (Inr v, dc') \<Longrightarrow> pending dc' = []"
    by blast+
  show "calm p"
    unfolding calm_def calm_step_def
  proof (intro allI impI conjI)
    fix dc y assume y: "p dc = Some y" "io_ok dc"
    show "extends dc (snd y)" using goes_onD [OF g y(2), of "fst y" "snd y"] y(1) by simp
    assume "pending dc = [] \<and> (\<exists>v. fst y = Inr v)"
    then obtain v where "pending dc = []" "y = (Inr v, snd y)" by (metis prod.collapse)
    then show "pending (snd y) = []" using c [OF y(2), of v "snd y"] y(1) by simp
  qed
qed

lemma clears_calm: "clears p \<Longrightarrow> calm p"
  unfolding clears_def calm_iff by blast

lemma calm_goes_on: "calm p \<Longrightarrow> goes_on p"
  unfolding calm_iff by blast

lemma goes_on_seqp [calm_rules]:
  assumes p: "goes_on p" and f: "\<And>v. goes_on (f v)"
  shows "goes_on (seqp p f)"
  unfolding goes_on_def
proof (intro allI impI)
  fix dc r dc' assume ok: "io_ok dc" and "seqp p f dc = Some (r, dc')"
  then consider e where "p dc = Some (Inl e, dc')" | u dc1 where "p dc = Some (Inr u, dc1)" "f u dc1 = Some (r, dc')"
    unfolding seqp_Some by blast
  then show "extends dc dc'"
  proof cases
    case 1
    then show ?thesis using goes_onD [OF p ok] by blast
  next
    case 2
    then have "extends dc dc1" using goes_onD [OF p ok] by blast
    then show ?thesis using goes_onD [OF f _ 2(2)] extends_trans extends_ok by blast
  qed
qed

lemma seqp_pending:
  assumes "seqp p f dc = Some (Inr v, dc')" "\<And>u dc1. p dc = Some (Inr u, dc1) \<Longrightarrow> f u dc1 = Some (Inr v, dc') \<Longrightarrow> pending dc' = []"
  shows "pending dc' = []"
  using assms unfolding seqp_Inr by blast

lemma calm_seqp [calm_rules]:
  assumes p: "calm p" and f: "\<And>v. calm (f v)"
  shows "calm (seqp p f)"
  unfolding calm_iff
proof (intro conjI allI impI)
  show "goes_on (seqp p f)" using p f by (intro goes_on_seqp calm_goes_on)
  fix dc v dc' assume d: "io_ok dc" "pending dc = []" and s: "seqp p f dc = Some (Inr v, dc')"
  from s show "pending dc' = []"
  proof (rule seqp_pending)
    fix u dc1 assume r: "p dc = Some (Inr u, dc1)" "f u dc1 = Some (Inr v, dc')"
    show "pending dc' = []"
      using calmD(2) [OF f extends_ok [OF calmD(1) [OF p d(1) r(1)]] r(2)] calmD(2) [OF p d(1) r(1) d(2)] .
  qed
qed

lemma clears_build:
  assumes p: "goes_on p" and f: "\<And>v. clears (f v)"
  shows "clears (seqp p f)"
  unfolding clears_def
proof (intro conjI allI impI)
  show "goes_on (seqp p f)" by (rule goes_on_seqp [OF p calm_goes_on [OF clears_calm [OF f]]])
  fix dc v dc' assume d: "io_ok dc" and s: "seqp p f dc = Some (Inr v, dc')"
  from s show "pending dc' = []"
  proof (rule seqp_pending)
    fix u dc1 assume r: "p dc = Some (Inr u, dc1)" "f u dc1 = Some (Inr v, dc')"
    show "pending dc' = []" by (rule clearsD [OF f extends_ok [OF goes_onD [OF p d r(1)]] r(2)])
  qed
qed

lemma clears_then:
  assumes p: "clears p" and f: "\<And>v. calm (f v)"
  shows "clears (seqp p f)"
  unfolding clears_def
proof (intro conjI allI impI)
  show "goes_on (seqp p f)" by (rule goes_on_seqp [OF calm_goes_on [OF clears_calm [OF p]] calm_goes_on [OF f]])
  fix dc v dc' assume d: "io_ok dc" and s: "seqp p f dc = Some (Inr v, dc')"
  from s show "pending dc' = []"
  proof (rule seqp_pending)
    fix u dc1 assume r: "p dc = Some (Inr u, dc1)" "f u dc1 = Some (Inr v, dc')"
    show "pending dc' = []"
      using calmD(2) [OF f extends_ok [OF calmD(1) [OF clears_calm [OF p] d r(1)]] r(2)] clearsD [OF p d r(1)] .
  qed
qed

lemma calm_basic [calm_rules]: "calm (ret v)" "calm (err e)" "calm (require c e)" "calm (rd_u8 e)" "calm (rd_varint e)" "calm (rd_bytes e n)"
  "calm (can_rd e n)"
  by (auto simp: calm_def calm_step_def extends_def ret_def err_def require_def rd_u8_def rd_varint_def rd_bytes_def can_rd_def split: if_splits option.splits prod.splits)

lemma calm_if [calm_rules]: "(c \<Longrightarrow> calm p) \<Longrightarrow> (\<not> c \<Longrightarrow> calm q) \<Longrightarrow> calm (if c then p else q)"
  by simp

lemma calm_if_state [calm_rules]: "(c \<Longrightarrow> calm p) \<Longrightarrow> (\<not> c \<Longrightarrow> calm q) \<Longrightarrow> calm (\<lambda>dc. if c then p dc else q dc)"
  by (cases c) simp_all

lemma calm_case_option [calm_rules]: "calm p \<Longrightarrow> (\<And>x. calm (q x)) \<Longrightarrow> calm (case x of None \<Rightarrow> p | Some x \<Rightarrow> q x)"
  by (cases x) auto

lemma calm_case_prod [calm_rules]: "(\<And>x y. calm (f x y)) \<Longrightarrow> calm (case p of (x, y) \<Rightarrow> f x y)"
  by (cases p) auto

lemma calm_on_error [calm_rules]: "calm p \<Longrightarrow> calm (on_error e p)"
proof -
  assume p: "calm p"
  show ?thesis
    unfolding calm_def
  proof (intro allI impI)
    fix dc y assume "on_error e p dc = Some y"
    then obtain r where r: "p dc = Some (r, snd y)" "fst y = (case r of Inl _ \<Rightarrow> Inl e | Inr v \<Rightarrow> Inr v)"
      by (auto simp: on_error_def)
    then show "calm_step dc y" using p by (cases r) (fastforce simp: calm_def calm_step_def)+
  qed
qed

text \<open>A procedure that depends on the state that it starts in.\<close>

lemma calm_state: "(\<And>x. calm (f x)) \<Longrightarrow> calm (\<lambda>dc. f (g dc) dc)"
  by (auto simp: calm_def)

section \<open>The requests\<close>

lemma io_add_to_response_bounded:
  assumes "io_add_to_response rdata n dc = Some dc'" "io_ok dc" "unat n \<le> 258"
  shows "io_ok dc' \<and> sent dc' = sent dc"
proof -
  have "io_ok dc \<and> unat n \<le> 258 \<longrightarrow> io_ok dc' \<and> sent dc' = sent dc"
    using assms(1)
  proof (rule io_add_to_response.raw_induct [rotated], intro impI)
    fix f :: "bytes \<Rightarrow> size_t \<Rightarrow> dispatcher_state \<Rightarrow> dispatcher_state option" and rdata n dc dc'
    assume ih: "\<And>rdata n dc dc'. f rdata n dc = Some dc' \<Longrightarrow> io_ok dc \<and> unat n \<le> 258 \<longrightarrow> io_ok dc' \<and> sent dc' = sent dc"
      and ok: "io_ok dc \<and> unat n \<le> 258"
      and eq: "(if unat (output_len dc) \<ge> IO_APDU_BUFFER_SIZE - 2
      then Some (dc\<lparr>output_len := of_nat IO_APDU_BUFFER_SIZE,
              io_apdu_buffer := write_u16_be (io_apdu_buffer dc) (IO_APDU_BUFFER_SIZE - 2) SW_WRONG_RESPONSE_LENGTH\<rparr>)
      else if ucast (output_len dc) + n > of_nat (IO_APDU_BUFFER_SIZE - 2)
      then do { dc \<leftarrow> f rdata (of_nat (IO_APDU_BUFFER_SIZE - 2) - n) dc; Some (io_finalize_response SW_WRONG_RESPONSE_LENGTH dc) }
      else if unat n > length rdata then None
      else Some (dc\<lparr>io_apdu_buffer := splice (io_apdu_buffer dc) (unat (output_len dc)) (take (unat n) rdata),
              output_len := output_len dc + ucast n\<rparr>)) = Some dc'"
    show "io_ok dc' \<and> sent dc' = sent dc"
    proof (cases "unat (output_len dc) \<ge> 258 \<or> ucast (output_len dc) + n > (of_nat 258 :: size_t)")
      case True
      have "unat (258 - n) = 258 - unat n" using ok by (subst unat_sub_le) (auto simp: word_le_nat_alt)
      then show ?thesis
        using True eq ok ih [of rdata "258 - n" dc]
        by (auto simp: IO_APDU_BUFFER_SIZE_def intro: io_finalize_response_ok split: if_splits bind_splits)
          (auto simp: io_ok_def IO_APDU_BUFFER_SIZE_def)
    next
      case False
      then have "unat n \<le> length rdata" and d: "dc' = dc\<lparr>io_apdu_buffer := splice (io_apdu_buffer dc) (unat (output_len dc)) (take (unat n) rdata),
              output_len := output_len dc + ucast n\<rparr>"
        using eq by (auto simp: IO_APDU_BUFFER_SIZE_def split: if_splits)
      then show ?thesis
        using append_in_room [of dc n] False ok by (simp add: d io_ok_def IO_APDU_BUFFER_SIZE_def splice_length)
    qed
  qed
  then show ?thesis using assms(2,3) by simp
qed

lemma goes_on_add [calm_rules]: "unat n \<le> 258 \<Longrightarrow> goes_on (add rdata n)"
  unfolding goes_on_def by (auto simp: add_def add_to_response_def extends_def dest!: io_add_to_response_bounded)

lemma goes_on_finalize [calm_rules]: "goes_on (finalize sw)"
  by (auto simp: goes_on_def finalize_def extends_def finalize_response_ok)

lemma clears_interrupt [calm_rules]: "clears (interrupt host e)"
  unfolding clears_def
proof (intro conjI allI impI)
  show "goes_on (interrupt host e)"
    unfolding goes_on_def
  proof (intro allI impI)
    fix dc r dc' assume "io_ok dc" "interrupt host e dc = Some (r, dc')"
    then show "extends dc dc'"
      using process_interruption_eq [of dc host] by (auto simp: interrupt_def extends_def)
  qed
  fix dc v dc' assume "io_ok dc" "interrupt host e dc = Some (Inr v, dc')"
  then show "pending dc' = []" using interrupt_Inr by blast
qed

lemma clears_SET_RESPONSE:
  assumes "unat n \<le> 258" "clears p"
  shows "clears (\<lambda>dc. do { dc \<leftarrow> SET_RESPONSE rdata n sw dc; p dc })"
proof -
  have "(\<lambda>dc. do { dc \<leftarrow> SET_RESPONSE rdata n sw dc; p dc }) = seqp (add rdata n) (\<lambda>_. seqp (finalize sw) (\<lambda>_. p))"
    by (auto simp: seqp_def add_def finalize_def SET_RESPONSE_def add_to_response_def fun_eq_iff split: bind_splits option.splits)
  then show ?thesis using assms by (auto intro!: clears_build calm_rules)
qed

lemma clears_more_elements: "clears (more_elements host e1 e2)"
  unfolding more_elements_def by (rule clears_SET_RESPONSE) (simp, intro clears_then calm_rules)

lemmas calm_more_elements [calm_rules] = clears_calm [OF clears_more_elements]

lemma calm_proof_steps [calm_rules]: "calm (proof_steps sha tree_size leaf_index proof_size n cur_step cur_hash)"
proof (induction n arbitrary: cur_step cur_hash)
  case 0
  have "proof_steps sha tree_size leaf_index proof_size 0 cur_step cur_hash = ret (cur_step, cur_hash)" by (simp add: fun_eq_iff)
  then show ?case by (simp add: calm_basic)
next
  case (Suc n)
  show ?case
    unfolding calm_def calm_step_def
  proof (intro allI impI)
    fix dc y assume y: "proof_steps sha tree_size leaf_index proof_size (Suc n) cur_step cur_hash dc = Some y" "io_ok dc"
    let ?dc = "dc\<lparr>read_buffer := snd (buffer_seek_cur (rb dc) 32)\<rparr>"
    have "(\<exists>h. proof_steps sha tree_size leaf_index proof_size n (Suc cur_step) h ?dc = Some y) \<or> y = (Inl (- 1), dc)"
      using y(1) by (auto simp: Let_def err_def split: bind_splits if_splits)
    then show "extends dc (snd y) \<and> (pending dc = [] \<and> (\<exists>v. fst y = Inr v) \<longrightarrow> pending (snd y) = [])"
      using Suc [unfolded calm_def calm_step_def] y(2) by (fastforce simp: extends_def)
  qed
qed

lemma calmI: "(\<And>dc y. p dc = Some y \<Longrightarrow> calm_step dc y) \<Longrightarrow> calm p"
  by (simp add: calm_def)

lemma calm_proof_loop [calm_rules]: "calm (proof_loop sha host tree_size leaf_index proof_size n cur_step cur_hash)"
proof (rule calmI)
  fix dc y assume "proof_loop sha host tree_size leaf_index proof_size n cur_step cur_hash dc = Some y"
  then show "calm_step dc y"
  proof (rule proof_loop.raw_induct [rotated])
    fix f :: "(bytes \<Rightarrow> bytes) \<Rightarrow> host \<Rightarrow> u32 \<Rightarrow> u32 \<Rightarrow> u8 \<Rightarrow> u8 \<Rightarrow> nat \<Rightarrow> bytes \<Rightarrow> bytes proc"
      and sha host tree_size leaf_index proof_size n cur_step cur_hash dc y
    assume ih: "\<And>sha host tree_size leaf_index proof_size n cur_step cur_hash dc y.
        f sha host tree_size leaf_index proof_size n cur_step cur_hash dc = Some y \<Longrightarrow> calm_step dc y"
      and b: "seqp (proof_steps sha tree_size leaf_index proof_size (unat n) cur_step cur_hash) (\<lambda>v dc.
       if fst v = unat proof_size then ret (snd v) dc
       else seqp (more_elements host (- 1) (- 1)) (\<lambda>w.
         seqp (require (snd w = 32) (- 1)) (\<lambda>_.
         seqp (require (\<not> fst v + unat (fst w) > unat proof_size) (- 1)) (\<lambda>_ dc.
         f sha host tree_size leaf_index proof_size (fst w) (fst v) (snd v) dc))) dc) dc = Some y"
    have f: "calm (f sha host tree_size leaf_index proof_size m k h)" for m k h by (rule calmI) (rule ih)
    have "calm (seqp (proof_steps sha tree_size leaf_index proof_size (unat n) cur_step cur_hash) (\<lambda>v dc.
       if fst v = unat proof_size then ret (snd v) dc
       else seqp (more_elements host (- 1) (- 1)) (\<lambda>w.
         seqp (require (snd w = 32) (- 1)) (\<lambda>_.
         seqp (require (\<not> fst v + unat (fst w) > unat proof_size) (- 1)) (\<lambda>_ dc.
         f sha host tree_size leaf_index proof_size (fst w) (fst v) (snd v) dc))) dc))"
      by (intro calm_rules f)
    then show "calm_step dc y" using b unfolding calm_def by blast
  qed
qed

lemma calm_call_get_merkle_leaf_hash [calm_rules]: "calm (call_get_merkle_leaf_hash sha host root tree_size leaf_index)"
proof -
  have "unat (of_int (fst (varint_write t 0 v)) :: size_t) \<le> 258" for t v
    by (auto simp: varint_write_def varint_size_def Let_def)
  then show ?thesis
    unfolding call_get_merkle_leaf_hash_def Let_def split_beta
    by (intro clears_calm clears_build [OF goes_on_add] clears_build [OF goes_on_finalize] clears_then [OF clears_interrupt] calm_rules) simp_all
qed

lemma calm_request_preimage [calm_rules]: "calm (request_preimage host hash)"
  unfolding request_preimage_def
  by (intro clears_calm clears_build [OF goes_on_add] clears_build [OF goes_on_finalize] clears_then [OF clears_interrupt] calm_rules) simp_all

lemma calm_merkle_preimage_loop [calm_rules]: "calm (merkle_preimage_loop host data_off n ctx out)"
proof (rule calmI)
  fix dc y assume "merkle_preimage_loop host data_off n ctx out dc = Some y"
  then show "calm_step dc y"
  proof (rule merkle_preimage_loop.raw_induct [rotated])
    fix f :: "host \<Rightarrow> size_t \<Rightarrow> size_t \<Rightarrow> hash_context \<Rightarrow> buffer_t \<Rightarrow> (hash_context \<times> buffer_t) proc" and host data_off n ctx out dc y
    assume ih: "\<And>host data_off n ctx out dc y. f host data_off n ctx out dc = Some y \<Longrightarrow> calm_step dc y"
    let ?b = "\<lambda>dc. if n > 0 then
        seqp (more_elements host (- 6) (- 7)) (\<lambda>w.
        seqp (require (snd w = 1) (- 8)) (\<lambda>_.
        seqp (require (\<not> ucast (fst w) > n) (- 9)) (\<lambda>_ dc.
        f host data_off (n - ucast (fst w))
          (crypto_hash_update ctx (data_at dc (buf_offset (read_buffer dc)) (unat (fst w))))
          (snd (buffer_write_bytes out (data_at dc data_off (unat (fst w))) (ucast (fst w)))) dc))) dc
      else ret (ctx, out) dc"
    assume b: "?b dc = Some y"
    have "calm (\<lambda>dc. f host data_off m (c dc) (d dc) dc)" for m c d using ih unfolding calm_def by blast
    then have "calm ?b" by (intro calm_rules)
    then show "calm_step dc y" using b unfolding calm_def by blast
  qed
qed

lemma calm_get_preimage_loop [calm_rules]: "calm (get_preimage_loop host n ctx out)"
proof (rule calmI)
  fix dc y assume "get_preimage_loop host n ctx out dc = Some y"
  then show "calm_step dc y"
  proof (rule get_preimage_loop.raw_induct [rotated])
    fix f :: "host \<Rightarrow> size_t \<Rightarrow> hash_context \<Rightarrow> buffer_t \<Rightarrow> (hash_context \<times> buffer_t) proc" and host n ctx out dc y
    assume ih: "\<And>host n ctx out dc y. f host n ctx out dc = Some y \<Longrightarrow> calm_step dc y"
    let ?b = "\<lambda>dc. if n > 0 then
        seqp (more_elements host (- 5) (- 6)) (\<lambda>w.
        seqp (require (snd w = 1) (- 7)) (\<lambda>_.
        seqp (require (\<not> ucast (fst w) > n) (- 8)) (\<lambda>_ dc.
        let data = data_at dc (buf_offset (read_buffer dc)) (unat (fst w)) in
        f host (n - ucast (fst w)) (crypto_hash_update ctx data)
          (snd (buffer_write_bytes out data (ucast (fst w)))) dc))) dc
      else ret (ctx, out) dc"
    assume b: "?b dc = Some y"
    have "calm (\<lambda>dc. f host m (c dc) (d dc) dc)" for m c d using ih unfolding calm_def by blast
    then have "calm ?b" unfolding Let_def by (intro calm_rules)
    then show "calm_step dc y" using b unfolding calm_def by blast
  qed
qed

lemma calm_stream_preimage_loop [calm_rules]: "calm (stream_preimage_loop host callback n ctx c)"
proof (rule calmI)
  fix dc y assume "stream_preimage_loop host callback n ctx c dc = Some y"
  then show "calm_step dc y"
  proof (rule stream_preimage_loop.raw_induct [rotated])
    fix f :: "host \<Rightarrow> (buffer_t \<Rightarrow> 'a \<Rightarrow> 'a) \<Rightarrow> size_t \<Rightarrow> hash_context \<Rightarrow> 'a \<Rightarrow> (hash_context \<times> 'a) proc" and host callback n ctx c dc y
    assume ih: "\<And>host callback n ctx c dc y. f host callback n ctx c dc = Some y \<Longrightarrow> calm_step dc y"
    let ?b = "\<lambda>dc. if n > 0 then
        seqp (more_elements host (- 5) (- 6)) (\<lambda>w.
        seqp (require (snd w = 1) (- 7)) (\<lambda>_.
        seqp (require (\<not> ucast (fst w) > n) (- 8)) (\<lambda>_ dc.
        let off = buf_offset (read_buffer dc);
            buf = buffer_create 0 (drop (unat off) (drop 5 (io_apdu_buffer dc))) (ucast (fst w))
        in f host callback (n - ucast (fst w))
             (crypto_hash_update ctx (data_at dc off (unat (fst w)))) (callback buf c) dc))) dc
      else ret (ctx, c) dc"
    assume b: "?b dc = Some y"
    have "calm (\<lambda>dc. f host callback m (x dc) (d dc) dc)" for m x d using ih unfolding calm_def by blast
    then have "calm ?b" unfolding Let_def by (intro calm_rules)
    then show "calm_step dc y" using b unfolding calm_def by blast
  qed
qed

lemma calm_call_get_merkle_preimage [calm_rules]: "calm (call_get_merkle_preimage sha host hash out)"
proof -
  have "calm (seqp (merkle_preimage_loop host x n y z) (\<lambda>v. seqp (require (p v) e) (\<lambda>_. ret (g v))))" for x n y z p e g
    by (intro calm_rules)
  then have "calm (\<lambda>dc. seqp (merkle_preimage_loop host (x dc) n (y dc) (z dc)) (\<lambda>v. seqp (require (p v) e) (\<lambda>_. ret (g v))) dc)" for x n y z p e g
    unfolding calm_def by blast
  then show ?thesis unfolding call_get_merkle_preimage_def Let_def by (intro calm_rules)
qed

lemma calm_call_get_preimage [calm_rules]: "calm (call_get_preimage sha host hash out)"
proof -
  have "calm (seqp (get_preimage_loop host n y z) (\<lambda>v. seqp (require (p v) e) (\<lambda>_. ret (g v))))" for n y z p e g
    by (intro calm_rules)
  then have "calm (\<lambda>dc. seqp (get_preimage_loop host n (y dc) (z dc)) (\<lambda>v. seqp (require (p v) e) (\<lambda>_. ret (g v))) dc)" for n y z p e g
    unfolding calm_def by blast
  then show ?thesis unfolding call_get_preimage_def Let_def by (intro calm_rules)
qed

lemma calm_call_stream_preimage [calm_rules]: "calm (call_stream_preimage sha host hash len_callback callback c)"
proof -
  have "calm (seqp (stream_preimage_loop host callback n y z) (\<lambda>v. seqp (require (p v) e) (\<lambda>_. ret (g v))))" for n y z p e g
    by (intro calm_rules)
  then have "calm (\<lambda>dc. seqp (stream_preimage_loop host callback n (y dc) (z dc)) (\<lambda>v. seqp (require (p v) e) (\<lambda>_. ret (g v))) dc)" for n y z p e g
    unfolding calm_def by blast
  then show ?thesis unfolding call_stream_preimage_def Let_def by (intro calm_rules)
qed

lemma calm_call_get_merkle_leaf_index [calm_rules]: "calm (call_get_merkle_leaf_index sha host sz root leaf_hash)"
proof -
  have "calm (if sint i < 0 then err (sint i) else ret i)" for i :: u32 by (intro calm_rules)
  then show ?thesis
    unfolding call_get_merkle_leaf_index_def Let_def
    by (intro clears_calm clears_SET_RESPONSE clears_then [OF clears_interrupt] calm_rules) simp
qed

lemma calm_elements [calm_rules]:
  "calm (call_get_merkle_leaf_element sha host root sz i out)" "calm (call_stream_merkle_leaf_element sha host root sz i len_callback callback c)"
  "calm (call_get_merkleized_map_value sha host m key out)" "calm (call_get_merkleized_map_value_hash sha host m key)"
  "calm (call_stream_merkleized_map_value sha host m key len_callback callback c)"
  unfolding call_get_merkle_leaf_element_def call_stream_merkle_leaf_element_def call_get_merkleized_map_value_def
    call_get_merkleized_map_value_hash_def call_stream_merkleized_map_value_def Let_def
  by (intro calm_rules)+

text \<open>A callback may talk to the host; it has no result.\<close>

lemma calm_sorted_loop:
  assumes "\<And>f i b c. callback = Some f \<Longrightarrow> calm (\<lambda>dc. map_option (\<lambda>(v, dc). (Inr v, dc)) (f i b c dc))"
  shows "calm (sorted_loop sha host root sz callback n i prev prev_len c)"
proof (induction n arbitrary: i prev prev_len c)
  case 0
  have "sorted_loop sha host root sz callback 0 i prev prev_len c = ret c" by (simp add: fun_eq_iff)
  then show ?case by (simp add: calm_basic)
next
  case (Suc n)
  let ?cb = "\<lambda>b dc. case callback of None \<Rightarrow> Some (c, dc) | Some f \<Rightarrow> f i b c dc"
  have cb: "calm (\<lambda>dc. map_option (\<lambda>(v, dc). (Inr v, dc)) (?cb b dc))" for b
    using assms calm_basic(1) [of c] by (cases callback) (auto simp: ret_def [abs_def])
  have "calm (\<lambda>dc. do { (c, dc) \<leftarrow> ?cb b dc; sorted_loop sha host root sz callback n (Suc i) p l c dc })" for b p l
  proof -
    have "(\<lambda>dc. do { (c, dc) \<leftarrow> ?cb b dc; sorted_loop sha host root sz callback n (Suc i) p l c dc }) =
        seqp (\<lambda>dc. map_option (\<lambda>(v, dc). (Inr v, dc)) (?cb b dc)) (\<lambda>c. sorted_loop sha host root sz callback n (Suc i) p l c)"
      by (auto simp: seqp_def fun_eq_iff split: option.splits bind_splits prod.splits)
    then show ?thesis using calm_seqp [OF cb Suc] by simp
  qed
  then show ?case by (auto simp: Let_def intro!: calm_rules simp del: sorted_loop.simps(1)) 
qed

end
