(* ===== verification/Policy_State.thy ===== *)
theory Policy_State
  imports Policy_Script
begin

text \<open>
  The generator of scripts touches the state of the application only through the derivation of
  keys: whatever the derivation keeps is kept by the processors of \<open>src/handler/lib/policy.c\<close>, by the
  loop over them and by \<open>get_wallet_script\<close>.
\<close>

lemma ps_dc_simps [simp]:
  "ps_dc (update_output st d) = ps_dc st" "ps_dc (update_output_u8 st b) = ps_dc st" "ps_dc (update_output_op_v st b) = ps_dc st"
  "ps_dc (update_output_push_u32 st n) = ps_dc st" "ps_dc (next_step st) = ps_dc st"
  by (simp_all add: update_output_def update_output_u8_def update_output_op_v_def update_output_push_u32_def Let_def split: list.splits)

declare next_step.simps [simp del]

lemma ps_dc_push [simp]: "state_stack_push st p v = Some st' \<Longrightarrow> ps_dc st' = ps_dc st"
  by (auto simp: state_stack_push_def split: if_splits)

lemma ps_dc_pop [simp]: "state_stack_pop st = Some (n, st') \<Longrightarrow> ps_dc st' = ps_dc st"
  by (auto simp: state_stack_pop_def split: list.splits)

locale derivation_invariant =
  fixes derive :: "'d derive_pubkey" and Inv :: "'d \<Rightarrow> bool"
  assumes derive_keeps: "derive kp dc = Some (k, dc') \<Longrightarrow> Inv dc \<Longrightarrow> Inv dc'"
begin

lemma derive_keepsD: "derive kp dc = Some (k, dc') \<Longrightarrow> Inv dc \<longrightarrow> Inv dc'"
  using derive_keeps by blast

lemma process_command_keeps: "process_command derive hf node cmd st = Some st' \<Longrightarrow> Inv (ps_dc st) \<Longrightarrow> Inv (ps_dc st')"
  by (auto simp: process_command_def Let_def split: generic_processor_command.splits bind_splits intro: derive_keeps)

lemma process_generic_node_keeps: "process_generic_node derive hf cmds st = Some (b, st') \<Longrightarrow> Inv (ps_dc st) \<Longrightarrow> Inv (ps_dc st')"
  by (auto simp: process_generic_node_def dest: process_command_keeps split: list.splits if_splits)

lemma process_pkh_wpkh_node_keeps: "process_pkh_wpkh_node derive hf st = Some (b, st') \<Longrightarrow> Inv (ps_dc st) \<Longrightarrow> Inv (ps_dc st')"
  by (auto simp: process_pkh_wpkh_node_def Let_def dest!: derive_keepsD split: list.splits bind_splits if_splits)

lemma process_thresh_node_keeps: "process_thresh_node st = Some (b, st') \<Longrightarrow> Inv (ps_dc st) \<Longrightarrow> Inv (ps_dc st')"
  by (auto simp: process_thresh_node_def Let_def split: list.splits policy_node.splits bind_splits if_splits)

lemma smallest_unused_keeps: "smallest_unused derive skip used kps j acc dc = Some (r, dc') \<Longrightarrow> Inv dc \<Longrightarrow> Inv dc'"
proof (induction kps arbitrary: j acc dc)
  case (Cons kp kps)
  show ?case
  proof (cases "bitvector_get used j")
    case True
    then show ?thesis using Cons.IH [of "Suc j" acc dc] Cons.prems by simp
  next
    case False
    with Cons.prems obtain k dc1 acc1 where d: "derive kp dc = Some (k, dc1)" "smallest_unused derive skip used kps (Suc j) acc1 dc1 = Some (r, dc')"
      by (auto split: bind_splits prod.splits)
    show ?thesis by (rule Cons.IH [OF d(2) derive_keeps [OF d(1) Cons.prems(2)]])
  qed
qed simp

lemma multi_keys_loop_keeps:
  assumes "\<And>i k st. ps_dc (emit i k st) = ps_dc st"
  shows "multi_keys_loop derive srt skip emit kps n i used st = Some st' \<Longrightarrow> Inv (ps_dc st) \<Longrightarrow> Inv (ps_dc st')"
proof (induction n arbitrary: i used st)
  case (Suc n)
  then obtain k used1 dc1 where
      d: "(if \<not> srt then map_option (\<lambda>(pk, dc). (pk, used, dc)) (derive (kps ! i) (ps_dc st)) else next_sorted_key derive skip kps used (ps_dc st)) =
          Some (k, used1, dc1)"
      and r: "multi_keys_loop derive srt skip emit kps n (Suc i) used1 (emit i k (st\<lparr>ps_dc := dc1\<rparr>)) = Some st'"
    by (auto split: bind_splits)
  have "Inv dc1"
    using d Suc.prems(2)
    by (auto simp: next_sorted_key_def split: if_splits bind_splits intro: derive_keeps smallest_unused_keeps)
  then show ?case using Suc.IH [OF r] assms by simp
qed simp

lemma process_multi_keeps:
  "process_multi_sortedmulti_node derive st = Some (b, st') \<Longrightarrow> Inv (ps_dc st) \<Longrightarrow> Inv (ps_dc st')"
  "process_multi_a_sortedmulti_a_node derive junk st = Some (b, st') \<Longrightarrow> Inv (ps_dc st) \<Longrightarrow> Inv (ps_dc st')"
  by (auto simp: process_multi_sortedmulti_node_def process_multi_a_sortedmulti_a_node_def emit_multi_key_def emit_multi_a_key_def
    split: list.splits policy_node.splits bind_splits if_splits dest!: multi_keys_loop_keeps [rotated])

lemma process_node_keeps: "process_node derive hf junk t st = Some (b, st') \<Longrightarrow> Inv (ps_dc st) \<Longrightarrow> Inv (ps_dc st')"
  by (cases t) (auto simp: process_node_def dest: process_generic_node_keeps process_pkh_wpkh_node_keeps process_thresh_node_keeps process_multi_keeps)

lemma policy_step_keeps: "policy_step derive hf junk wl st = Some (n, st') \<Longrightarrow> Inv (ps_dc st) \<Longrightarrow> Inv (ps_dc st')"
  by (auto simp: policy_step_def execute_processor_def Let_def split: list.splits if_splits bind_splits dest: process_node_keeps)

lemma policy_loop_keeps:
  assumes "policy_loop derive hf junk wl st = Some (Some (n, st'))" "Inv (ps_dc st)"
  shows "Inv (ps_dc st')"
proof -
  have "d = derive \<longrightarrow> Inv (ps_dc st) \<longrightarrow> (\<forall>n st'. r = Some (n, st') \<longrightarrow> Inv (ps_dc st'))"
    if "policy_loop d hf junk wl st = Some r" for d r
    using that
  proof (rule policy_loop.raw_induct [rotated], intro impI)
    fix f :: "'d derive_pubkey \<Rightarrow> hash_fns \<Rightarrow> u8 \<Rightarrow> PolicyNodeType list \<Rightarrow> 'd policy_parser_state \<Rightarrow> (u16 \<times> 'd policy_parser_state) option option"
      and d hf junk wl st r
    assume ih: "\<And>d hf junk wl st r. f d hf junk wl st = Some r \<Longrightarrow>
        d = derive \<longrightarrow> Inv (ps_dc st) \<longrightarrow> (\<forall>n st'. r = Some (n, st') \<longrightarrow> Inv (ps_dc st'))"
      and r: "(case policy_step d hf junk wl st of None \<Rightarrow> Some None
        | Some (ret, st) \<Rightarrow> if ps_nodes st \<noteq> [] then f d hf junk wl st else Some (Some (ret, st))) = Some r"
      and d: "d = derive" and i: "Inv (ps_dc st)"
    show "\<forall>n st'. r = Some (n, st') \<longrightarrow> Inv (ps_dc st')"
    proof (cases "policy_step d hf junk wl st")
      case (Some y)
      obtain m st1 where y: "y = (m, st1)" by (cases y)
      then have "Inv (ps_dc st1)" using policy_step_keeps [of hf junk wl st m st1] Some d i by simp
      then show ?thesis using r Some y ih [of d hf junk wl st1 r] d by (auto split: if_splits)
    qed (use r in auto)
  qed
  then show ?thesis using assms by blast
qed

lemma internal_script_hash_keeps:
  "get_wallet_internal_script_hash derive hf junk p t ctx dc = Some (Some (n, h, dc')) \<Longrightarrow> Inv dc \<Longrightarrow> Inv dc'"
  by (auto simp: get_wallet_internal_script_hash_def dest!: policy_loop_keeps)

lemma andthen_Some: "andthen m f = Some (Some y) \<longleftrightarrow> (\<exists>x. m = Some (Some x) \<and> f x = Some (Some y))"
  by (auto simp: andthen_def split: option.splits)

lemma tapleaf_hash_keeps: "compute_tapleaf_hash derive hf junk p dc = Some (Some (h, dc')) \<Longrightarrow> Inv dc \<Longrightarrow> Inv dc'"
  by (auto simp: compute_tapleaf_hash_def andthen_Some Let_def dest!: internal_script_hash_keeps)

lemma taptree_hash_keeps: "compute_taptree_hash derive hf junk tree dc = Some (Some (h, dc')) \<Longrightarrow> Inv dc \<Longrightarrow> Inv dc'"
proof (induction tree arbitrary: dc h dc' rule: policy_tree.induct [of "\<lambda>_. True"])
  case (Tree_leaf x)
  then show ?case by (auto intro: tapleaf_hash_keeps)
next
  case (Tree_branch l r)
  then show ?case by (fastforce simp: andthen_Some)
qed simp_all

lemma wallet_script_keeps:
  assumes "get_wallet_script cx derive hf junk policy out dc = Some (Some (n, out', dc'))" "Inv dc"
  shows "Inv dc'"
  using assms
  by (cases policy)
    (auto simp: get_wallet_script_def andthen_Some Let_def split: if_splits bind_splits option.splits
      dest!: derive_keepsD internal_script_hash_keeps taptree_hash_keeps)

end

end
