(* ===== verification/Client_Preimage.thy ===== *)
theory Client_Preimage
  imports Client_Props
begin

text \<open>
  Preimages fetched from the host (\<open>call_get_preimage\<close>, \<open>call_stream_preimage\<close>,
  \<open>call_get_merkle_preimage\<close>): what arrives in pieces is what was hashed.
\<close>

section \<open>Data that arrives in pieces\<close>

text \<open>
  The successful runs of a loop that asks for more bytes until none remains, with a state that
  \<open>upd\<close> updates for every answer.
\<close>

inductive fetches :: "host \<Rightarrow> int \<Rightarrow> int \<Rightarrow> (u8 \<Rightarrow> dispatcher_state \<Rightarrow> 's \<Rightarrow> 's) \<Rightarrow> size_t \<Rightarrow> 's \<Rightarrow> dispatcher_state \<Rightarrow>
    's \<Rightarrow> dispatcher_state \<Rightarrow> bool"
  for host e1 e2 upd where
  fetches_done: "fetches host e1 e2 upd 0 st dc st dc"
| fetches_more: "more_elements host e1 e2 dc = Some (Inr (n, 1), dc1) \<Longrightarrow> ucast n \<le> remaining \<Longrightarrow>
    fetches host e1 e2 upd (remaining - ucast n) (upd n dc1 st) dc1 st' dc' \<Longrightarrow>
    fetches host e1 e2 upd remaining st dc st' dc'"

text \<open>An answer in a state, with the bytes that belong to it.\<close>

definition piece :: "bytes \<Rightarrow> dispatcher_state \<Rightarrow> bool" where
  "piece c dc \<longleftrightarrow> length c \<le> 253 \<and> io_ok dc \<and> unat (buf_offset (read_buffer dc)) = 2 \<and>
     data_at dc (buf_offset (read_buffer dc)) (length c) = c"

lemma fetches_pieces:
  assumes "fetches host e1 e2 upd remaining st dc st' dc'" "io_ok dc" "pending dc = []"
  shows "\<exists>xs. (\<forall>(c, dc)\<in>set xs. piece c dc) \<and> length (concat (map fst xs)) = unat remaining \<and>
    st' = foldl (\<lambda>st (c, dc). upd (of_nat (length c)) dc st) st xs \<and> io_ok dc' \<and> pending dc' = []"
  using assms
proof induction
  case (fetches_done st dc)
  then show ?case by (intro exI [of _ "[]"]) simp
next
  case (fetches_more dc n dc1 remaining st st' dc')
  obtain d where d: "answer d 2 dc1" "n = d ! 0" "d ! 1 = 1" "2 + unat n \<le> length d" "pending dc1 = []"
    using more_elements_Inr [OF fetches_more.prems fetches_more.hyps(1)] by (metis Pair_inject mult.right_neutral unat_1)
  define c where "c = take (unat n) (drop 2 d)"
  have len: "length c = unat n" using d(4) by (simp add: c_def)
  have "length d \<le> 255" using d(1) by (simp add: answer_def)
  then have "piece c dc1"
    using d(1,4) len answer_data [OF d(1), of 2 "unat n"] answer_offset [OF d(1)] answer_ok [OF d(1)] by (simp add: piece_def c_def)
  moreover obtain xs where xs: "\<forall>(c, dc)\<in>set xs. piece c dc" "length (concat (map fst xs)) = unat (remaining - ucast n)"
    "st' = foldl (\<lambda>st (c, dc). upd (of_nat (length c)) dc st) (upd n dc1 st) xs" "io_ok dc'" "pending dc' = []"
    using fetches_more.IH d(1,5) answer_ok [OF d(1)] by blast
  moreover have "unat (remaining - ucast n) = unat remaining - unat n" "unat n \<le> unat remaining"
    using fetches_more.hyps(2) by (simp_all add: unat_sub word_le_nat_alt unsigned_ucast_eq take_bit_eq_mod u8_less [THEN less_trans])
  ultimately show ?case
    using len by (intro exI [of _ "(c, dc1) # xs"]) simp
qed

text \<open>One unfolding of such a loop; \<open>f\<close> stands for its recursive calls.\<close>

lemma fetch_unfold:
  assumes run: "(if 0 < remaining then
      seqp (more_elements host e1 e2) (\<lambda>w. seqp (require (snd w = 1) e3) (\<lambda>_.
      seqp (require (\<not> remaining < ucast (fst w)) e4) (\<lambda>_ dc. f (remaining - ucast (fst w)) (upd (fst w) dc st) dc))) dc
      else ret st dc) = Some (Inr v, dc')"
    and ih: "\<And>remaining st dc v dc'. f remaining st dc = Some (Inr v, dc') \<Longrightarrow> fetches host e1 e2 upd remaining st dc v dc'"
  shows "fetches host e1 e2 upd remaining st dc v dc'"
proof (cases "0 < remaining")
  case True
  obtain n dc1 where n: "more_elements host e1 e2 dc = Some (Inr (n, 1), dc1)" "ucast n \<le> remaining"
    "f (remaining - ucast n) (upd n dc1 st) dc1 = Some (Inr v, dc')"
    using run True by (auto simp: seqp_Inr [of "more_elements _ _ _"] seqp_require not_less)
  show ?thesis
    by (rule fetches_more [OF n(1,2)]) (rule ih [OF n(3)])
next
  case False
  then have "remaining = 0" by (simp add: word_gt_0)
  then show ?thesis using run by (auto simp: ret_def intro: fetches_done)
qed

definition get_upd :: "u8 \<Rightarrow> dispatcher_state \<Rightarrow> hash_context \<times> buffer_t \<Rightarrow> hash_context \<times> buffer_t" where
  "get_upd n dc st = (let data = data_at dc (buf_offset (read_buffer dc)) (unat n)
     in (crypto_hash_update (fst st) data, snd (buffer_write_bytes (snd st) data (ucast n))))"

lemma get_preimage_loop_fetches:
  assumes "get_preimage_loop host remaining h b dc = Some (Inr v, dc')"
  shows "fetches host (- 5) (- 6) get_upd remaining (h, b) dc v dc'"
proof -
  let ?P = "\<lambda>host remaining h b dc rd. \<forall>v. fst rd = (Inr v :: int + _) \<longrightarrow> fetches host (- 5) (- 6) get_upd remaining (h, b) dc v (snd rd)"
  have "?P host remaining h b dc (Inr v, dc')"
    using assms
  proof (rule get_preimage_loop.raw_induct [rotated, where P = ?P])
    fix f host remaining h b dc rd
    assume ih: "\<And>host remaining h b dc rd. f host remaining h b dc = Some rd \<Longrightarrow> ?P host remaining h b dc rd"
      and eq: "(if 0 < remaining then
        seqp (more_elements host (- 5) (- 6)) (\<lambda>w.
        seqp (require (snd w = 1) (- 7)) (\<lambda>_.
        seqp (require (\<not> remaining < ucast (fst w)) (- 8)) (\<lambda>_ dc.
        let data = data_at dc (buf_offset (read_buffer dc)) (unat (fst w)) in
        f host (remaining - ucast (fst w)) (crypto_hash_update h data)
          (snd (buffer_write_bytes b data (ucast (fst w)))) dc))) dc
      else ret (h, b) dc) = Some rd"
    show "?P host remaining h b dc rd"
    proof (intro allI impI)
      fix v
      assume v: "fst rd = Inr v"
      show "fetches host (- 5) (- 6) get_upd remaining (h, b) dc v (snd rd)"
      proof (rule fetch_unfold [where f = "\<lambda>r st. f host r (fst st) (snd st)" and ?e3.0 = "- 7" and ?e4.0 = "- 8"])
      qed (use eq v ih in \<open>cases rd, force simp: get_upd_def Let_def\<close>)+
    qed
  qed
  then show ?thesis by simp
qed

definition stream_upd :: "(buffer_t \<Rightarrow> 'c \<Rightarrow> 'c) \<Rightarrow> u8 \<Rightarrow> dispatcher_state \<Rightarrow> hash_context \<times> 'c \<Rightarrow> hash_context \<times> 'c" where
  "stream_upd callback n dc st = (let off = buf_offset (read_buffer dc)
     in (crypto_hash_update (fst st) (data_at dc off (unat n)),
         callback (buffer_create 0 (drop (unat off) (drop 5 (io_apdu_buffer dc))) (ucast n)) (snd st)))"

lemma stream_preimage_loop_fetches:
  assumes "stream_preimage_loop host callback remaining h c dc = Some (Inr v, dc')"
  shows "fetches host (- 5) (- 6) (stream_upd callback) remaining (h, c) dc v dc'"
proof -
  let ?P = "\<lambda>host callback remaining h c dc rd. \<forall>v. fst rd = (Inr v :: int + _) \<longrightarrow>
    fetches host (- 5) (- 6) (stream_upd callback) remaining (h, c) dc v (snd rd)"
  have "?P host callback remaining h c dc (Inr v, dc')"
    using assms
  proof (rule stream_preimage_loop.raw_induct [rotated, where P = ?P])
    fix f host callback remaining h c dc rd
    assume ih: "\<And>host callback remaining h c dc rd. f host callback remaining h c dc = Some rd \<Longrightarrow> ?P host callback remaining h c dc rd"
      and eq: "(if 0 < remaining then
        seqp (more_elements host (- 5) (- 6)) (\<lambda>w.
        seqp (require (snd w = 1) (- 7)) (\<lambda>_.
        seqp (require (\<not> remaining < ucast (fst w)) (- 8)) (\<lambda>_ dc.
        let off = buf_offset (read_buffer dc);
            buf = buffer_create 0 (drop (unat off) (drop 5 (io_apdu_buffer dc))) (ucast (fst w))
        in f host callback (remaining - ucast (fst w))
             (crypto_hash_update h (data_at dc off (unat (fst w)))) (callback buf c) dc))) dc
      else ret (h, c) dc) = Some rd"
    show "?P host callback remaining h c dc rd"
    proof (intro allI impI)
      fix v
      assume v: "fst rd = Inr v"
      show "fetches host (- 5) (- 6) (stream_upd callback) remaining (h, c) dc v (snd rd)"
      proof (rule fetch_unfold [where f = "\<lambda>r st. f host callback r (fst st) (snd st)" and ?e3.0 = "- 7" and ?e4.0 = "- 8"])
      qed (use eq v ih in \<open>cases rd, force simp: stream_upd_def Let_def\<close>)+
    qed
  qed
  then show ?thesis by simp
qed

definition merkle_upd :: "size_t \<Rightarrow> u8 \<Rightarrow> dispatcher_state \<Rightarrow> hash_context \<times> buffer_t \<Rightarrow> hash_context \<times> buffer_t" where
  "merkle_upd data_off n dc st =
     (crypto_hash_update (fst st) (data_at dc (buf_offset (read_buffer dc)) (unat n)),
      snd (buffer_write_bytes (snd st) (data_at dc data_off (unat n)) (ucast n)))"

lemma merkle_preimage_loop_fetches:
  assumes "merkle_preimage_loop host data_off remaining h b dc = Some (Inr v, dc')"
  shows "fetches host (- 6) (- 7) (merkle_upd data_off) remaining (h, b) dc v dc'"
proof -
  let ?P = "\<lambda>host data_off remaining h b dc rd. \<forall>v. fst rd = (Inr v :: int + _) \<longrightarrow>
    fetches host (- 6) (- 7) (merkle_upd data_off) remaining (h, b) dc v (snd rd)"
  have "?P host data_off remaining h b dc (Inr v, dc')"
    using assms
  proof (rule merkle_preimage_loop.raw_induct [rotated, where P = ?P])
    fix f host data_off remaining h b dc rd
    assume ih: "\<And>host data_off remaining h b dc rd. f host data_off remaining h b dc = Some rd \<Longrightarrow> ?P host data_off remaining h b dc rd"
      and eq: "(if 0 < remaining then
        seqp (more_elements host (- 6) (- 7)) (\<lambda>w.
        seqp (require (snd w = 1) (- 8)) (\<lambda>_.
        seqp (require (\<not> remaining < ucast (fst w)) (- 9)) (\<lambda>_ dc.
        f host data_off (remaining - ucast (fst w))
          (crypto_hash_update h (data_at dc (buf_offset (read_buffer dc)) (unat (fst w))))
          (snd (buffer_write_bytes b (data_at dc data_off (unat (fst w))) (ucast (fst w)))) dc))) dc
      else ret (h, b) dc) = Some rd"
    show "?P host data_off remaining h b dc rd"
    proof (intro allI impI)
      fix v
      assume v: "fst rd = Inr v"
      show "fetches host (- 6) (- 7) (merkle_upd data_off) remaining (h, b) dc v (snd rd)"
      proof (rule fetch_unfold [where f = "\<lambda>r st. f host data_off r (fst st) (snd st)" and ?e3.0 = "- 8" and ?e4.0 = "- 9"])
      qed (use eq v ih in \<open>cases rd, force simp: merkle_upd_def Let_def\<close>)+
    qed
  qed
  then show ?thesis by simp
qed

section \<open>The output\<close>

text \<open>\<open>x\<close> has been written to the memory \<open>out\<close> through the buffer.\<close>

definition filled :: "bytes \<Rightarrow> buffer_t \<Rightarrow> bytes \<Rightarrow> bool" where
  "filled out b x \<longleftrightarrow> length out < 2 ^ 32 \<and> length x \<le> length out \<and> buf_ptr b = x @ drop (length x) out \<and>
     unat (buf_size b) = length out \<and> unat (buf_offset b) = length x"

lemma filled_create: "length out < 2 ^ 32 \<Longrightarrow> filled out (buffer_create 0 out (of_nat (length out))) []"
  by (simp add: filled_def buffer_create_def unat_of_nat)

lemma filled_write:
  assumes "filled out b x" "unat n = length c" "length x + length c \<le> length out"
  shows "filled out (snd (buffer_write_bytes b c n)) (x @ c)"
proof -
  have ok: "buf_ok b" using assms(1) by (auto simp: filled_def buf_ok_def word_le_nat_alt)
  have r: "length c \<le> length (buf_rest b)" using assms ok by (simp add: buf_rest_length filled_def)
  have "unat (buf_offset b + of_nat (length c)) = length x + length c"
    using assms by (subst unat_plus_simple [THEN iffD1]) (auto simp: filled_def word_le_nat_alt unat_word_ariths unat_of_nat)
  then show ?thesis
    using assms r by (simp add: buffer_write_bytes_eq [OF ok assms(2)] filled_def buf_put_def splice_def buf_adv_def add.commute)
qed

lemma get_upd_pieces:
  assumes "\<forall>(c, dc)\<in>set xs. piece c dc" "filled out b x" "length x + length (concat (map fst xs)) \<le> length out"
  shows "\<exists>b'. foldl (\<lambda>st (c, dc). get_upd (of_nat (length c)) dc st) (h, b) xs = (h @ concat (map fst xs), b') \<and>
    filled out b' (x @ concat (map fst xs))"
  using assms
proof (induction xs arbitrary: h b x)
  case (Cons y xs)
  obtain c dc where y: "y = (c, dc)" by fastforce
  then have c: "length c \<le> 253" "data_at dc (buf_offset (read_buffer dc)) (length c) = c"
    using Cons.prems(1) by (auto simp: piece_def)
  have n: "unat (of_nat (length c) :: u8) = length c" using c(1) by (simp add: unat_of_nat)
  then have "filled out (snd (buffer_write_bytes b c (ucast (of_nat (length c) :: u8)))) (x @ c)"
    using Cons.prems(2,3) y c(1) by (intro filled_write) (simp_all add: unsigned_ucast_eq take_bit_eq_mod)
  then show ?case
    using Cons.IH [of _ "x @ c" "h @ c"] Cons.prems(1,3) y c(2) n
    by (simp add: get_upd_def crypto_hash_update_def)
qed simp

lemma get_upd_hash:
  assumes "\<forall>(c, dc)\<in>set xs. piece c dc"
  shows "fst (foldl (\<lambda>st (c, dc). get_upd (of_nat (length c)) dc st) st xs) = fst st @ concat (map fst xs)"
  using assms by (induction xs arbitrary: st) (auto simp: get_upd_def crypto_hash_update_def piece_def unat_of_nat)

section \<open>The request\<close>

lemma unat_ucast_u8: "unat (ucast (x :: u8) :: size_t) = unat x" "unat (ucast x :: u64) = unat x"
  using u8_less [of x] by (simp_all add: unsigned_ucast_eq take_bit_eq_mod)

definition preimage_request :: "bytes \<Rightarrow> bytes" where
  "preimage_request hash = CCMD_GET_PREIMAGE # 0 # hash @ enc_u16_be SW_INTERRUPTED_EXECUTION"

definition read_preimage :: "host \<Rightarrow> (u64 \<times> u8) proc" where
  "read_preimage host =
     seqp (rd_varint (- 2)) (\<lambda>preimage_len.
     seqp (rd_u8 (- 2)) (\<lambda>partial_data_len.
     seqp (can_rd (- 2) (ucast partial_data_len)) (\<lambda>_.
     ret (preimage_len, partial_data_len))))"

lemma request_preimage_builds:
  assumes "length hash = 32"
  shows "builds (request_preimage host hash) (preimage_request hash) (seqp (interrupt host (- 1)) (\<lambda>_. read_preimage host))"
proof -
  have "builds (request_preimage host hash)
      (take (unat (1 :: size_t)) [CCMD_GET_PREIMAGE] @ take (unat (1 :: size_t)) [0] @ take (unat (32 :: size_t)) hash @
        enc_u16_be SW_INTERRUPTED_EXECUTION @ []) (seqp (interrupt host (- 1)) (\<lambda>_. read_preimage host))"
    unfolding request_preimage_def read_preimage_def using assms
    by (intro builds_add builds_finalize builds_done) simp_all
  then show ?thesis using assms by (simp add: preimage_request_def)
qed

lemma request_preimage_Inr:
  assumes "io_ok dc" "pending dc = []" "length hash = 32" "request_preimage host hash dc = Some (Inr (len, n), dc')"
  shows "\<exists>rx d l. host (sent dc @ [preimage_request hash]) = Some rx \<and> d = drop 5 (take 260 rx) \<and> answer d (l + 1) dc' \<and>
    varint_read d (length d) = Some (l, len) \<and> d ! l = n \<and> l + 1 + unat n \<le> length d \<and> pending dc' = []"
proof -
  have "length (preimage_request hash) \<le> 255"
    using assms(3) by (simp add: preimage_request_def enc_u16_be_def)
  then obtain dc1 where 1: "seqp (interrupt host (- 1)) (\<lambda>_. read_preimage host) dc1 = Some (Inr (len, n), dc')"
    "io_ok dc1" "pending dc1 = preimage_request hash" "sent dc1 = sent dc"
    using request_preimage_builds [OF assms(3), of host] assms(1,2,4) by (auto simp: builds_def)
  then obtain dc2 where 2: "interrupt host (- 1) dc1 = Some (Inr (), dc2)"
    and r: "read_preimage host dc2 = Some (Inr (len, n), dc')"
    by (auto simp: seqp_Inr [of "interrupt _ _"])
  obtain rx where rx: "host (sent dc @ [preimage_request hash]) = Some rx" "answer (drop 5 (take 260 rx)) 0 dc2" "pending dc2 = []"
    using interrupt_Inr [OF 1(2) 2] 1(3,4) by auto
  define d where "d = drop 5 (take 260 rx)"
  note a0 = rx(2) [folded d_def]
  obtain l x where l: "varint_read d (length d) = Some (l, x)"
    and r1: "seqp (rd_u8 (- 2)) (\<lambda>partial_data_len. seqp (can_rd (- 2) (ucast partial_data_len)) (\<lambda>_. ret (x, partial_data_len)))
      (step dc2 (of_nat l)) = Some (Inr (len, n), dc')"
    using r by (auto simp: read_preimage_def seqp_rd_varint [OF a0])
  have "l \<le> length d" "l \<le> 9" using l by (auto simp: varint_read_def Let_def Suc_le_eq split: if_splits)
  then have a1: "answer d l (step dc2 (of_nat l))"
    using answer_step [OF a0, of "of_nat l"] by (simp add: unat_of_nat)
  have "l < length d" using r1 by (simp add: seqp_rd_u8 [OF a1])
  then have a2: "answer d (l + 1) (step (step dc2 (of_nat l)) 1)" using answer_step [OF a1, of 1] by simp
  have "x = len \<and> d ! l = n \<and> l + 1 + unat n \<le> length d \<and> dc' = step (step dc2 (of_nat l)) 1"
    using r1 by (auto simp: seqp_rd_u8 [OF a1] seqp_can_rd [OF a2] ret_def unat_ucast_u8)
  then show ?thesis
    using rx d_def l a2 by (intro exI [of _ rx] exI [of _ d] exI [of _ l]) simp
qed

lemma unat_ucast_minus_1: "(x :: u8) \<noteq> 0 \<Longrightarrow> unat (ucast x - 1 :: size_t) = unat x - 1"
  by (metis less_irrefl unat_0 unat_gt_0 unat_minus_one unat_ucast_u8(1))

lemma answer_head:
  assumes "answer d k dc" "k + n \<le> length d"
  shows "data_at dc (buf_offset (read_buffer dc)) n = take n (drop k d)" "length (take n (drop k d)) = n"
  using assms answer_data [OF assms] answer_offset [OF assms(1)] by simp_all

lemma get_preimage_Inr:
  assumes "io_ok dc" "pending dc = []" "length hash = 32" "length out < 2 ^ 32"
    and "call_get_preimage sha256 host hash out dc = Some (Inr (n, out'), dc')"
  shows "\<exists>p. sha256 p = hash \<and> 0 < length p \<and> length p < 2 ^ 32 \<and> n = sint (of_nat (length p) :: u32) \<and>
    (length p \<le> length out \<longrightarrow> out' = p @ drop (length p) out) \<and> io_ok dc' \<and> pending dc' = []"
proof -
  obtain len k dc1 where req: "request_preimage host hash dc = Some (Inr (len, k), dc1)"
    using assms(5) by (auto simp: call_get_preimage_def seqp_Inr [of "request_preimage _ _"])
  obtain d l where d: "answer d (l + 1) dc1" "l + 1 + unat k \<le> length d" "pending dc1 = []"
    using request_preimage_Inr [OF assms(1-3) req] by blast
  note head = answer_head [OF d(1,2)]
  define c where "c = take (unat k) (drop (l + 1) d)"
  define L where "L = (ucast len :: u32)"
  define b where "b = snd (buffer_write_bytes (buffer_create 0 out (of_nat (length out))) c (ucast k))"
  have run: "0 < L" "ucast k \<le> L"
    and "\<exists>v dc2. get_preimage_loop host (L - ucast k) c b dc1 = Some (Inr v, dc2) \<and> sha256 (fst v) = hash \<and>
      n = sint L \<and> out' = buf_ptr (snd v) \<and> dc' = dc2"
    using assms(3,5) req head
    by (auto simp: call_get_preimage_def seqp_run [where p = "request_preimage host hash" and dc = dc, OF req] seqp_require Let_def seqp_Inr [of "get_preimage_loop _ _ _ _"] c_def L_def b_def
        crypto_hash_simps ret_def not_less word_le_nat_alt word_less_nat_alt)
  then obtain v where v: "get_preimage_loop host (L - ucast k) c b dc1 = Some (Inr v, dc')" "sha256 (fst v) = hash" "n = sint L" "out' = buf_ptr (snd v)"
    by blast
  obtain xs where xs: "\<forall>(c, dc)\<in>set xs. piece c dc" "length (concat (map fst xs)) = unat (L - ucast k)"
    "v = foldl (\<lambda>st (c, dc). get_upd (of_nat (length c)) dc st) (c, b) xs" "io_ok dc'" "pending dc' = []"
    using fetches_pieces [OF get_preimage_loop_fetches [OF v(1)]] d answer_ok [OF d(1)] by auto
  have p: "length (c @ concat (map fst xs)) = unat L"
    using xs(2) head(2) run(2) by (simp add: c_def unat_sub word_le_nat_alt unat_ucast_u8)
  have "out' = (c @ concat (map fst xs)) @ drop (unat L) out" if "unat L \<le> length out"
  proof -
    have "filled out b ([] @ c)"
      unfolding b_def using that p head(2) by (intro filled_write filled_create assms(4)) (simp_all add: c_def unat_ucast_u8)
    then show ?thesis
      using get_upd_pieces [OF xs(1), of out b c c] that p v(4) xs(3) by (auto simp: filled_def)
  qed
  moreover have "fst v = c @ concat (map fst xs)" using get_upd_hash [OF xs(1)] xs(3) by simp
  moreover have "L = of_nat (length (c @ concat (map fst xs)))" "0 < unat L" using p run(1) by (simp_all add: word_less_nat_alt)
  ultimately show ?thesis
    using v(2,3) xs(4,5) p unat_size_t_less [of L] by (intro exI [of _ "c @ concat (map fst xs)"]) simp
qed

lemma stream_upd_pieces:
  assumes "\<forall>(c, dc)\<in>set xs. piece c dc"
  shows "\<exists>bs. foldl (\<lambda>st (c, dc). stream_upd callback (of_nat (length c)) dc st) (h, s) xs =
      (h @ concat (map fst xs), foldl (\<lambda>s b. callback b s) s bs) \<and>
    (\<forall>b\<in>set bs. buf_ok b \<and> buf_offset b = 0) \<and> concat (map buf_rest bs) = concat (map fst xs)"
  using assms
proof (induction xs arbitrary: h s)
  case Nil
  then show ?case by (intro exI [of _ "[]"]) simp
next
  case (Cons y xs)
  obtain c dc where y: "y = (c, dc)" by fastforce
  then have c: "length c \<le> 253" "data_at dc (buf_offset (read_buffer dc)) (length c) = c" "unat (buf_offset (read_buffer dc)) = 2" "io_ok dc"
    using Cons.prems by (auto simp: piece_def)
  have n: "unat (of_nat (length c) :: u8) = length c" "unat (ucast (of_nat (length c) :: u8) :: size_t) = length c"
    using c(1) by (simp_all add: unat_of_nat unat_ucast_u8)
  define b where "b = buffer_create 0 (drop (unat (buf_offset (read_buffer dc))) (drop 5 (io_apdu_buffer dc))) (ucast (of_nat (length c) :: u8))"
  have b: "buf_ok b" "buf_offset b = 0" "buf_rest b = c"
    using c n by (simp_all add: b_def buffer_create_def buf_ok_def buf_rest_def data_at_def io_ok_def IO_APDU_BUFFER_SIZE_def)
  obtain bs where "foldl (\<lambda>st (c, dc). stream_upd callback (of_nat (length c)) dc st) (h @ c, callback b s) xs =
      ((h @ c) @ concat (map fst xs), foldl (\<lambda>s b. callback b s) (callback b s) bs)"
    "\<forall>b\<in>set bs. buf_ok b \<and> buf_offset b = 0" "concat (map buf_rest bs) = concat (map fst xs)"
    using Cons.IH [of "h @ c" "callback b s"] Cons.prems by auto
  moreover have "stream_upd callback (of_nat (length c)) dc (h, s) = (h @ c, callback b s)"
    using c(2) n by (simp add: stream_upd_def crypto_hash_update_def b_def)
  ultimately show ?case
    using b y by (intro exI [of _ "b # bs"]) simp
qed

lemma stream_preimage_Inr:
  assumes "io_ok dc" "pending dc = []" "length hash = 32"
    and "call_stream_preimage sha256 host hash len_callback callback s dc = Some (Inr (n, s'), dc')"
  shows "\<exists>p bs. sha256 p = hash \<and> 0 < length p \<and> length p < 2 ^ 32 \<and> n = sint (of_nat (length p) :: u32) - 1 \<and>
    s' = foldl (\<lambda>s b. callback b s) (case len_callback of None \<Rightarrow> s | Some f \<Rightarrow> f (of_nat (length p) - 1) s) bs \<and>
    ((\<forall>b\<in>set bs. buf_ok b \<and> buf_offset b = 0) \<and> concat (map buf_rest bs) = tl p \<or> bs \<noteq> [] \<and> buf_size (hd bs) = - 1) \<and>
    io_ok dc' \<and> pending dc' = []"
proof -
  obtain len k dc1 where req: "request_preimage host hash dc = Some (Inr (len, k), dc1)"
    using assms(4) by (auto simp: call_stream_preimage_def seqp_Inr [of "request_preimage _ _"])
  obtain d l where d: "answer d (l + 1) dc1" "l + 1 + unat k \<le> length d" "pending dc1 = []"
    using request_preimage_Inr [OF assms(1-3) req] by blast
  note head = answer_head [OF d(1,2)]
  define c where "c = take (unat k) (drop (l + 1) d)"
  define L where "L = (ucast len :: u32)"
  define s0 where "s0 = (case len_callback of None \<Rightarrow> s | Some f \<Rightarrow> f (L - 1) s)"
  define b where "b = buffer_create 0 (drop (unat (buf_offset (read_buffer dc1)) + 1) (drop 5 (io_apdu_buffer dc1))) (ucast k - 1)"
  have "0 < L \<and> ucast k \<le> L \<and> (\<exists>v dc2. stream_preimage_loop host callback (L - ucast k) c (callback b s0) dc1 = Some (Inr v, dc2) \<and> sha256 (fst v) = hash \<and>
      n = sint L - 1 \<and> s' = snd v \<and> dc' = dc2)"
    using assms(3,4) req head
    by (cases len_callback; auto simp: call_stream_preimage_def seqp_run [where p = "request_preimage host hash" and dc = dc, OF req] seqp_require Let_def
        seqp_Inr [of "stream_preimage_loop _ _ _ _ _"] c_def L_def b_def s0_def crypto_hash_simps ret_def not_less word_le_nat_alt word_less_nat_alt)
  then obtain v where run: "0 < L" "ucast k \<le> L" and v: "stream_preimage_loop host callback (L - ucast k) c (callback b s0) dc1 = Some (Inr v, dc')" "sha256 (fst v) = hash"
    "n = sint L - 1" "s' = snd v"
    by blast
  obtain xs where xs: "\<forall>(c, dc)\<in>set xs. piece c dc" "length (concat (map fst xs)) = unat (L - ucast k)"
    "v = foldl (\<lambda>st (c, dc). stream_upd callback (of_nat (length c)) dc st) (c, callback b s0) xs" "io_ok dc'" "pending dc' = []"
    using fetches_pieces [OF stream_preimage_loop_fetches [OF v(1)]] d answer_ok [OF d(1)] by auto
  have p: "length (c @ concat (map fst xs)) = unat L"
    using xs(2) head(2) run(2) by (simp add: c_def unat_sub word_le_nat_alt unat_ucast_u8)
  obtain bs where bs: "v = (c @ concat (map fst xs), foldl (\<lambda>s b. callback b s) (callback b s0) bs)"
    "\<forall>b\<in>set bs. buf_ok b \<and> buf_offset b = 0" "concat (map buf_rest bs) = concat (map fst xs)"
    using stream_upd_pieces [OF xs(1), of callback c "callback b s0"] xs(3) by auto
  have "buf_ok b \<and> buf_offset b = 0 \<and> buf_rest b = tl c \<and> c \<noteq> [] \<or> buf_size b = - 1"
  proof (cases "k = 0")
    case False
    then have k: "0 < unat k" and k1: "unat (ucast k - 1 :: size_t) = unat k - 1"
      by (simp_all add: unat_gt_0 unat_ucast_minus_1)
    have "c = take (unat k) (drop (unat (buf_offset (read_buffer dc1))) (drop 5 (io_apdu_buffer dc1)))"
      using head(1) by (simp add: c_def data_at_def)
    then have "tl c = take (unat k - 1) (drop (unat (buf_offset (read_buffer dc1)) + 1) (drop 5 (io_apdu_buffer dc1)))"
      using k by (simp only: tl_take tl_drop Suc_eq_plus1 [symmetric] drop_Suc)
    moreover have "c \<noteq> []" using head(2) k c_def by auto
    ultimately show ?thesis
      using k k1 d answer_ok [OF d(1)] answer_offset [OF d(1)]
      by (auto simp: b_def buffer_create_def buf_ok_def buf_rest_def answer_def io_ok_def IO_APDU_BUFFER_SIZE_def)
  qed (simp add: b_def buffer_create_def)
  moreover define P where "P = c @ concat (map fst xs)"
  ultimately have tl: "buf_ok b \<and> buf_offset b = 0 \<and> concat (map buf_rest (b # bs)) = tl P \<or> buf_size b = - 1"
    using bs(3) by auto
  have L: "L = of_nat (length P)" "0 < length P" "length P < 2 ^ 32"
    using p run(1) unat_size_t_less [of L] by (simp_all add: P_def word_less_nat_alt)
  have "sha256 P = hash" "s' = foldl (\<lambda>s b. callback b s) s0 (b # bs)"
    using v bs(1) by (simp_all add: P_def)
  then show ?thesis
    using tl v(3) xs(4,5) bs(2) L(2,3) unfolding s0_def L(1)
    by (intro exI [of _ P] exI [of _ "b # bs"]) auto
qed

lemma merkle_upd_get:
  assumes "\<forall>(c, dc)\<in>set xs. piece c dc" "data_off = 2"
  shows "foldl (\<lambda>st (c, dc). merkle_upd data_off (of_nat (length c)) dc st) st xs = foldl (\<lambda>st (c, dc). get_upd (of_nat (length c)) dc st) st xs"
proof (rule foldl_cong [OF refl refl])
  fix st :: "hash_context \<times> buffer_t" and y
  assume "y \<in> set xs"
  moreover obtain c dc where "y = (c, dc)" by fastforce
  ultimately show "(case y of (c, dc) \<Rightarrow> merkle_upd data_off (of_nat (length c)) dc st) = (case y of (c, dc) \<Rightarrow> get_upd (of_nat (length c)) dc st)"
    using assms by (fastforce simp: merkle_upd_def get_upd_def piece_def data_at_def Let_def)
qed

text \<open>The output of \<open>call_get_merkle_preimage\<close>, where the host writes the length in one byte.\<close>

lemma merkle_preimage_Inr:
  assumes "io_ok dc" "pending dc = []" "length hash = 32" "length out < 2 ^ 31"
    and "host (sent dc @ [preimage_request hash]) = Some rx" "rx ! 5 < 0xFD"
    and "call_get_merkle_preimage sha256 host hash out dc = Some (Inr (n, out'), dc')"
  shows "\<exists>p. sha256 p = hash \<and> length p = n + 1 \<and> n \<le> length out \<and> out' = tl p @ drop n out \<and> io_ok dc' \<and> pending dc' = []"
proof -
  obtain len k dc1 where req: "request_preimage host hash dc = Some (Inr (len, k), dc1)"
    using assms(7) by (auto simp: call_get_merkle_preimage_def seqp_Inr [of "request_preimage _ _"])
  obtain d l where d: "answer d (l + 1) dc1" "l + 1 + unat k \<le> length d" "pending dc1 = []" "varint_read d (length d) = Some (l, len)" "d = drop 5 (take 260 rx)"
    using request_preimage_Inr [OF assms(1-3) req] assms(5) by auto
  have "d ! 0 = rx ! 5" using d(2) d(5) by simp
  then have l: "l = 1" and len: "len = ucast (d ! 0)"
    using d(4) assms(6) by (auto simp: varint_read_def Let_def split: if_splits)
  note head = answer_head [OF d(1,2)]
  define c where "c = take (unat k) (drop (l + 1) d)"
  define b where "b = snd (buffer_write_bytes (buffer_create 0 out (of_nat (length out))) (drop 1 c) (ucast k - 1))"
  define off where "off = buf_offset (read_buffer dc1)"
  have off: "off = 2" using answer_offset [OF d(1)] l by (simp add: off_def word_unat_eq_iff)
  have "len \<noteq> 0 \<and> k \<noteq> 0 \<and> len - 1 \<le> of_nat (length out) \<and> ucast k \<le> len \<and>
    (\<exists>v dc2. merkle_preimage_loop host off (ucast len - ucast k) c b dc1 = Some (Inr v, dc2) \<and> sha256 (fst v) = hash \<and>
      n = unat (len - 1) \<and> out' = buf_ptr (snd v) \<and> dc' = dc2)"
    using assms(3,7) req head
    by (auto simp: call_get_merkle_preimage_def seqp_run [where p = "request_preimage host hash" and dc = dc, OF req] seqp_require Let_def
        seqp_Inr [of "merkle_preimage_loop _ _ _ _ _"] c_def b_def off_def crypto_hash_simps ret_def not_less)
  then obtain v where run: "len \<noteq> 0" "k \<noteq> 0" "len - 1 \<le> of_nat (length out)" "ucast k \<le> len"
    and v: "merkle_preimage_loop host off (ucast len - ucast k) c b dc1 = Some (Inr v, dc')" "sha256 (fst v) = hash"
      "n = unat (len - 1)" "out' = buf_ptr (snd v)"
    by blast
  obtain xs where xs: "\<forall>(c, dc)\<in>set xs. piece c dc" "length (concat (map fst xs)) = unat (ucast len - ucast k :: size_t)"
    "v = foldl (\<lambda>st (c, dc). get_upd (of_nat (length c)) dc st) (c, b) xs" "io_ok dc'" "pending dc' = []"
    using fetches_pieces [OF merkle_preimage_loop_fetches [OF v(1)]] d answer_ok [OF d(1)] merkle_upd_get [OF _ off] by auto
  define P where "P = c @ concat (map fst xs)"
  have "unat len < 256" using u8_less [of "d ! 0"] by (simp add: len unat_ucast_u8)
  then have lenL: "unat (ucast len :: size_t) = unat len" by (simp add: unsigned_ucast_eq take_bit_eq_mod)
  have P: "length P = unat len"
    using xs(2) head(2) run(4) lenL by (simp add: P_def c_def unat_sub word_le_nat_alt unat_ucast_u8)
  have n: "length P = n + 1" "n \<le> length out"
    using P run(1,3) v(3) assms(4) by (simp_all add: unat_minus_one word_le_nat_alt unat_of_nat unat_gt_0)
  have c: "c \<noteq> []" "unat (ucast k - 1 :: size_t) = length (drop 1 c)"
    using head(2) run(2) unat_gt_0 [of k] by (auto simp: c_def unat_ucast_minus_1)
  have "filled out b ([] @ drop 1 c)"
    unfolding b_def using n c assms(4) by (intro filled_write filled_create) (simp_all add: P_def)
  moreover have "length (drop 1 c) + length (concat (map fst xs)) = n"
    using n(1) c(1) by (cases c) (simp_all add: P_def)
  ultimately obtain b' where "v = (P, b')" "filled out b' (drop 1 c @ concat (map fst xs))"
    using get_upd_pieces [OF xs(1), of out b "drop 1 c" c] n(2) xs(3) by (auto simp: P_def)
  moreover have "drop 1 c @ concat (map fst xs) = tl P"
    using c(1) by (simp add: P_def drop_Suc)
  ultimately have "v = (P, b')" "filled out b' (tl P)" by simp_all
  then show ?thesis
    using n v xs(4,5) by (intro exI [of _ P]) (simp add: filled_def)
qed

section \<open>Runs with a given host\<close>

lemma request_preimage_run:
  assumes "io_ok dc" "pending dc = []" "length hash = 32"
    and "host (sent dc @ [preimage_request hash]) = Some (reply d)" "length d \<le> 255"
    and "varint_read d (length d) = Some (l, len)" "l < length d" "l + 1 + unat (d ! l) \<le> length d"
  shows "\<exists>dc'. request_preimage host hash dc = Some (Inr (len, d ! l), dc') \<and> answer d (l + 1) dc' \<and>
    sent dc' = sent dc @ [preimage_request hash] \<and> pending dc' = []"
proof -
  have "length (preimage_request hash) \<le> 255"
    using assms(3) by (simp add: preimage_request_def enc_u16_be_def)
  then obtain dc1 where 1: "request_preimage host hash dc = seqp (interrupt host (- 1)) (\<lambda>_. read_preimage host) dc1"
    "io_ok dc1" "pending dc1 = preimage_request hash" "sent dc1 = sent dc"
    using request_preimage_builds [OF assms(3), of host] assms(1,2) by (auto simp: builds_def)
  obtain dc2 where 2: "interrupt host (- 1) dc1 = Some (Inr (), dc2)" "answer d 0 dc2" "sent dc2 = sent dc @ [preimage_request hash]" "pending dc2 = []"
    using interrupt_run [of dc1 host 0 0 d "- 1"] 1 assms(4,5) by (auto simp: reply_def)
  have a1: "answer d l (step dc2 (of_nat l))"
    using answer_step [OF 2(2), of "of_nat l"] assms(5,7) by (simp add: unat_of_nat)
  have a2: "answer d (l + 1) (step (step dc2 (of_nat l)) 1)" using answer_step [OF a1, of 1] assms(7) by simp
  have "read_preimage host dc2 = Some (Inr (len, d ! l), step (step dc2 (of_nat l)) 1)"
    using assms(6,8) by (simp add: read_preimage_def seqp_rd_varint [OF 2(2)] seqp_rd_u8 [OF a1] seqp_can_rd [OF a2] ret_def unat_ucast_u8)
  then show ?thesis
    using 1(1) 2 a2 by (simp add: seqp_run)
qed

lemma more_elements_run:
  assumes "io_ok dc" "pending dc = []" "host (sent dc @ [more_request]) = Some (reply d)"
    and "length d \<le> 255" "2 + unat (d ! 0) * unat (d ! 1) \<le> length d"
  shows "\<exists>dc'. more_elements host e1 e2 dc = Some (Inr (d ! 0, d ! 1), dc') \<and> answer d 2 dc' \<and>
    sent dc' = sent dc @ [more_request] \<and> pending dc' = []"
proof -
  obtain dc1 where 1: "SET_RESPONSE [CCMD_GET_MORE_ELEMENTS] 1 SW_INTERRUPTED_EXECUTION dc = Some dc1"
    "io_ok dc1" "pending dc1 = more_request" "sent dc1 = sent dc"
    using SET_RESPONSE_eq [OF assms(1,2), of 1 "[CCMD_GET_MORE_ELEMENTS]"] by (auto simp: more_request_def)
  obtain dc2 where 2: "interrupt host e1 dc1 = Some (Inr (), dc2)" "answer d 0 dc2" "sent dc2 = sent dc @ [more_request]" "pending dc2 = []"
    using interrupt_run [of dc1 host 0 0 d e1] 1 assms(3,4) by (auto simp: reply_def)
  have l: "0 < length d" "1 < length d" using assms(5) by linarith+
  have a1: "answer d 1 (step dc2 1)" using answer_step [OF 2(2), of 1] assms(5) by simp
  have a2: "answer d 2 (step (step dc2 1) 1)" using answer_step [OF a1, of 1] assms(5) by (simp add: numeral_2_eq_2)
  have "more_elements host e1 e2 dc = Some (Inr (d ! 0, d ! 1), step (step dc2 1) 1)"
    using 1(1) assms(5) l by (simp add: more_elements_def seqp_run [where p = "interrupt host e1" and dc = dc1, OF 2(1)]
      seqp_rd_u8 [OF 2(2)] seqp_rd_u8 [OF a1] seqp_can_rd [OF a2] unat_mult_u8 ret_def)
  then show ?thesis using 2 a2 by simp
qed

lemma require_run: "c \<Longrightarrow> seqp (require c e) f dc = f () dc"
  by (simp add: seqp_def require_def ret_def)

lemma get_preimage_loop_more:
  assumes "more_elements host (- 5) (- 6) dc = Some (Inr (n, 1), dc1)" "0 < r" "ucast n \<le> r"
  shows "get_preimage_loop host r h b dc = get_preimage_loop host (r - ucast n) (h @ data_at dc1 (buf_offset (read_buffer dc1)) (unat n))
    (snd (buffer_write_bytes b (data_at dc1 (buf_offset (read_buffer dc1)) (unat n)) (ucast n))) dc1"
  by (subst get_preimage_loop.simps)
    (simp add: assms seqp_run [where p = "more_elements host (- 5) (- 6)" and dc = dc, OF assms(1)] require_run crypto_hash_update_def Let_def not_less)

lemma get_preimage_loop_run:
  assumes "io_ok dc" "pending dc = []" "filled out b x" "length x + length (concat cs) \<le> length out"
    and "\<forall>c\<in>set cs. 0 < length c \<and> length c \<le> 253"
    and "\<forall>j<length cs. host (sent dc @ replicate (Suc j) more_request) = Some (reply (of_nat (length (cs ! j)) # 1 # cs ! j))"
  shows "\<exists>b' dc'. get_preimage_loop host (of_nat (length (concat cs))) h b dc = Some (Inr (h @ concat cs, b'), dc') \<and>
    filled out b' (x @ concat cs) \<and> io_ok dc' \<and> pending dc' = [] \<and> sent dc' = sent dc @ replicate (length cs) more_request"
  using assms
proof (induction cs arbitrary: dc b x h)
  case Nil
  then show ?case by (subst get_preimage_loop.simps) (simp add: ret_def)
next
  case (Cons c cs)
  let ?d = "of_nat (length c) # 1 # c" and ?r = "of_nat (length (concat (c # cs))) :: size_t"
  have c: "0 < length c" "length c \<le> 253" using Cons.prems(5) by simp_all
  have n: "unat (of_nat (length c) :: u8) = length c" using c(2) by (simp add: unat_of_nat)
  have out: "length out < 2 ^ 32" using Cons.prems(3) by (simp add: filled_def)
  then have r: "unat ?r = length c + length (concat cs)" using Cons.prems(4) by (simp add: unat_of_nat del: of_nat_add)
  obtain dc1 where 1: "more_elements host (- 5) (- 6) dc = Some (Inr (of_nat (length c), 1), dc1)" "answer ?d 2 dc1"
      "sent dc1 = sent dc @ [more_request]" "pending dc1 = []"
    using more_elements_run [OF Cons.prems(1,2), of host ?d "- 5" "- 6"] Cons.prems(6) [rule_format, of 0] c n by auto
  have data: "data_at dc1 (buf_offset (read_buffer dc1)) (length c) = c"
    using answer_head(1) [OF 1(2), of "length c"] by (simp add: numeral_2_eq_2)
  define b1 where "b1 = snd (buffer_write_bytes b c (ucast (of_nat (length c) :: u8)))"
  have b1: "filled out b1 (x @ c)"
    unfolding b1_def using Cons.prems(3,4) n by (intro filled_write) (simp_all add: unat_ucast_u8)
  have sub: "?r - ucast (of_nat (length c) :: u8) = of_nat (length (concat cs))"
  proof -
    have "(ucast (of_nat (length c) :: u8) :: size_t) = of_nat (length c)"
      using n c(2) by (simp add: word_unat_eq_iff unat_ucast_u8 unat_of_nat)
    then show ?thesis by simp
  qed
  have "0 < ?r" "ucast (of_nat (length c) :: u8) \<le> ?r"
    using r n c by (simp_all only: word_less_nat_alt word_le_nat_alt unat_ucast_u8 unat_0)
  note get_preimage_loop_more [OF 1(1) this, of h b, unfolded sub n data]
  moreover obtain b' dc' where "get_preimage_loop host (of_nat (length (concat cs))) (h @ c) b1 dc1 = Some (Inr ((h @ c) @ concat cs, b'), dc')"
    "filled out b' ((x @ c) @ concat cs)" "io_ok dc'" "pending dc' = []" "sent dc' = sent dc1 @ replicate (length cs) more_request"
  proof -
    have "\<forall>j<length cs. host (sent dc1 @ replicate (Suc j) more_request) = Some (reply (of_nat (length (cs ! j)) # 1 # cs ! j))"
      using Cons.prems(6) 1(3) by (auto dest: spec [of _ "Suc _"])
    then show ?thesis
      using that Cons.IH [OF answer_ok [OF 1(2)] 1(4) b1, of "h @ c"] Cons.prems(4,5) by auto
  qed
  ultimately show ?case
    using 1(3) by (simp add: b1_def)
qed

lemma sint_of_nat_u32: "n < 2 ^ 31 \<Longrightarrow> sint (of_nat n :: u32) = int n"
  by (simp add: sint_uint signed_take_bit_int_eq_self uint_nat unat_of_nat)

lemma get_preimage_run:
  assumes "io_ok dc" "pending dc = []" "length (sha256 p) = 32" "p = c @ concat cs" "0 < length p" "length p < 2 ^ 31"
    and "length c \<le> 245" "\<forall>c\<in>set cs. 0 < length c \<and> length c \<le> 253" "length p \<le> length out" "length out < 2 ^ 32"
    and "host (sent dc @ [preimage_request (sha256 p)]) = Some (reply (varint_enc (of_nat (length p)) @ of_nat (length c) # c))"
    and "\<forall>j<length cs. host (sent dc @ preimage_request (sha256 p) # replicate (Suc j) more_request) =
      Some (reply (of_nat (length (cs ! j)) # 1 # cs ! j))"
  shows "\<exists>dc'. call_get_preimage sha256 host (sha256 p) out dc = Some (Inr (int (length p), p @ drop (length p) out), dc') \<and>
    io_ok dc' \<and> pending dc' = [] \<and> sent dc' = sent dc @ preimage_request (sha256 p) # replicate (length cs) more_request"
proof -
  let ?L = "of_nat (length p) :: u64" and ?k = "of_nat (length c) :: u8"
  define d where "d = varint_enc ?L @ ?k # c"
  let ?l = "varint_size ?L"
  have k: "unat ?k = length c" using assms(7) by (simp add: unat_of_nat)
  have d: "length d = ?l + 1 + length c" "d ! ?l = ?k" "drop (?l + 1) d = c"
    by (simp_all add: d_def varint_enc_length nth_append)
  have "varint_read d (length d) = Some (?l, ?L)"
    unfolding d_def by (rule varint_read_enc) (simp add: varint_enc_length)
  then obtain dc1 where req: "request_preimage host (sha256 p) dc = Some (Inr (?L, ?k), dc1)"
    and dc1: "answer d (?l + 1) dc1" "sent dc1 = sent dc @ [preimage_request (sha256 p)]" "pending dc1 = []"
    using request_preimage_run [OF assms(1-3), of host d ?l ?L] assms(7,11) k d(1,2) varint_size_le [of ?L] by (auto simp: d_def)
  have data: "data_at dc1 (buf_offset (read_buffer dc1)) (length c) = c"
    using answer_head(1) [OF dc1(1), of "length c"] d by simp
  define b where "b = snd (buffer_write_bytes (buffer_create 0 out (of_nat (length out))) c (ucast ?k))"
  have b: "filled out b ([] @ c)"
    unfolding b_def using assms(4,9,10) k by (intro filled_write filled_create) (simp_all add: unat_ucast_u8)
  have L: "unat (ucast ?L :: u32) = length p" "ucast ?L = (of_nat (length p) :: u32)"
    using assms(6) by (simp_all add: unsigned_ucast_eq take_bit_eq_mod unat_of_nat word_unat_eq_iff)
  have r: "(ucast ?L :: u32) - ucast ?k = of_nat (length (concat cs))"
  proof -
    have "(ucast ?k :: u32) = of_nat (length c)"
      using k assms(7) by (simp add: word_unat_eq_iff unat_ucast_u8 unat_of_nat)
    then show ?thesis unfolding L(2) by (simp add: assms(4))
  qed
  obtain b' dc' where loop: "get_preimage_loop host (of_nat (length (concat cs))) c b dc1 = Some (Inr (c @ concat cs, b'), dc')"
    and dc': "filled out b' (c @ concat cs)" "io_ok dc'" "pending dc' = []" "sent dc' = sent dc1 @ replicate (length cs) more_request"
    using get_preimage_loop_run [OF answer_ok [OF dc1(1)] dc1(3), of out b c cs host c] b assms(4,8,9,12) dc1(2) by auto
  have loop': "get_preimage_loop host (ucast ?L - ucast ?k) c b dc1 = Some (Inr (p, b'), dc')"
    using loop r assms(4) by simp
  have "length c \<le> length p" using assms(4) by simp
  then have "call_get_preimage sha256 host (sha256 p) out dc = Some (Inr (sint (ucast ?L :: u32), buf_ptr b'), dc')"
    using assms(3,5) L(1) k
    by (simp add: call_get_preimage_def seqp_run [where p = "request_preimage host (sha256 p)" and dc = dc, OF req] require_run
        word_less_nat_alt Let_def data crypto_hash_simps b_def [symmetric]
        seqp_run [where p = "get_preimage_loop _ _ _ _" and dc = dc1, OF loop'] ret_def unat_ucast_u8)
  moreover have "sint (ucast ?L :: u32) = int (length p)" using assms(6) by (simp only: L(2) sint_of_nat_u32)
  moreover have "buf_ptr b' = p @ drop (length p) out" using dc'(1) assms(4) by (simp add: filled_def)
  ultimately show ?thesis
    using dc'(2-4) dc1(2) by simp
qed

section \<open>Properties\<close>

definition answers_12 :: "bytes list" where
  "answers_12 = [reply [3, 1, 7], reply [2, 1, 8, 9]]"

lemma scripted_2 [simp]: "scripted (a # b # as) [m, n] = Some b"
  by (simp add: scripted_def)

lemma answers_12_run:
  "scripted answers_12 (sent idle @ [m]) = Some (reply (varint_enc (of_nat (length [7, 8, 9 :: u8])) @ of_nat (length [7 :: u8]) # [7]))"
  "\<forall>j<length [[8, 9 :: u8]]. scripted answers_12 (sent idle @ m # replicate (Suc j) more_request) =
     Some (reply (of_nat (length ([[8, 9]] ! j)) # 1 # [[8, 9]] ! j))"
  by (simp_all add: answers_12_def varint_enc_def)

lemma answers_12_data:
  "length (digest32 [7, 8, 9]) = 32" "[7, 8, 9 :: u8] = [7] @ concat [[8, 9]]" "0 < length [7, 8, 9 :: u8]" "length [7, 8, 9 :: u8] < 2 ^ 31"
  "length [7 :: u8] \<le> 245" "\<forall>c\<in>set [[8, 9 :: u8]]. 0 < length c \<and> length c \<le> 253"
  "length [7, 8, 9 :: u8] \<le> length [1, 2, 3, 4 :: u8]" "length [1, 2, 3, 4 :: u8] < 2 ^ 32"
  by simp_all

lemma get_preimage_instance:
  "\<exists>dc'. call_get_preimage digest32 (scripted answers_12) (digest32 [7, 8, 9]) [1, 2, 3, 4] idle = Some (Inr (3, [7, 8, 9, 4]), dc')"
  using get_preimage_run [where ?sha256.0 = digest32, OF idle_simps(1,2) answers_12_data answers_12_run] by simp blast

lemma nonneg_u32: "0 \<le> sint (of_nat n :: u32) \<Longrightarrow> n < 2 ^ 32 \<Longrightarrow> n < 2 ^ 31"
proof (rule ccontr)
  assume n: "0 \<le> sint (of_nat n :: u32)" "n < 2 ^ 32" "\<not> n < 2 ^ 31"
  then have "int n div 2147483648 = 1"
    by (intro int_div_pos_eq [where r = "int n - 2147483648"]) simp_all
  then show False
    using n(1,2) by (simp add: sint_uint signed_take_bit_nonnegative_iff bit_iff_odd uint_nat unat_of_nat)
qed

text \<open>C19: Against any host, what \<open>call_get_preimage\<close> writes to its output is a preimage of the hash,
  which is not empty, if it fits; otherwise the length that is returned exceeds that of the output.\<close>
theorem call_get_preimage_sound:
  assumes "io_ok dc" "pending dc = []" "length hash = 32" "length out < 2 ^ 31"
    and "call_get_preimage sha256 host hash out dc = Some (Inr (n, out'), dc')" "0 \<le> n"
  shows "\<exists>p. sha256 p = hash \<and> 0 < length p \<and> n = int (length p) \<and> (length p \<le> length out \<longrightarrow> out' = p @ drop (length p) out)"
proof -
  have "length out < 2 ^ 32" using assms(4) by simp
  then obtain p where p: "sha256 p = hash" "0 < length p" "length p < 2 ^ 32" "n = sint (of_nat (length p) :: u32)"
    "length p \<le> length out \<longrightarrow> out' = p @ drop (length p) out"
    using get_preimage_Inr [OF assms(1-3) _ assms(5)] by blast
  moreover have "sint (of_nat (length p) :: u32) = int (length p)"
    using p(3,4) assms(6) by (intro sint_of_nat_u32 nonneg_u32) simp_all
  ultimately show ?thesis by auto
qed

theorem call_get_preimage_sound_witness:
  "\<exists>n out' dc' p. call_get_preimage digest32 (scripted answers_12) (digest32 [7, 8, 9]) [1, 2, 3, 4] idle = Some (Inr (n, out'), dc') \<and>
     digest32 p = digest32 [7, 8, 9] \<and> n = int (length p)"
proof -
  obtain dc' where r: "call_get_preimage digest32 (scripted answers_12) (digest32 [7, 8, 9]) [1, 2, 3, 4] idle = Some (Inr (3, [7, 8, 9, 4]), dc')"
    using get_preimage_instance by blast
  then show ?thesis
    using call_get_preimage_sound [OF _ _ _ _ r] by auto
qed

text \<open>C24: A host that sends a preimage in any number of pieces is served: \<open>call_get_preimage\<close> returns
  with the preimage in the output, after one request for each piece.\<close>
theorem call_get_preimage_complete:
  assumes "io_ok dc" "pending dc = []" "length (sha256 p) = 32" "p = c @ concat cs" "0 < length p" "length p < 2 ^ 31"
    and "length c \<le> 245" "\<forall>c\<in>set cs. 0 < length c \<and> length c \<le> 253" "length p \<le> length out" "length out < 2 ^ 32"
    and "host (sent dc @ [preimage_request (sha256 p)]) = Some (reply (varint_enc (of_nat (length p)) @ of_nat (length c) # c))"
    and "\<forall>j<length cs. host (sent dc @ preimage_request (sha256 p) # replicate (Suc j) more_request) =
      Some (reply (of_nat (length (cs ! j)) # 1 # cs ! j))"
  shows "\<exists>dc'. call_get_preimage sha256 host (sha256 p) out dc = Some (Inr (int (length p), p @ drop (length p) out), dc') \<and>
    sent dc' = sent dc @ preimage_request (sha256 p) # replicate (length cs) more_request"
  using get_preimage_run [where ?sha256.0 = sha256 and p = p and host = host, OF assms] by blast

theorem call_get_preimage_complete_witness:
  "\<exists>dc'. call_get_preimage digest32 (scripted answers_12) (digest32 [7, 8, 9]) [1, 2, 3, 4] idle = Some (Inr (3, [7, 8, 9, 4]), dc')"
  using call_get_preimage_complete [where ?sha256.0 = digest32, OF idle_simps(1,2) answers_12_data answers_12_run] by simp blast

text \<open>A run of \<open>call_get_merkle_preimage\<close> up to its loop, where the answer is \<open>d\<close>.\<close>

lemma merkle_preimage_start:
  assumes "io_ok dc" "pending dc = []" "length hash = 32"
    and "host (sent dc @ [preimage_request hash]) = Some (reply d)" "length d \<le> 255"
    and "varint_read d (length d) = Some (l, len)" "l < length d" "l + 1 + unat (d ! l) \<le> length d"
    and "len \<noteq> 0" "d ! l \<noteq> 0" "len - 1 \<le> of_nat (length out)" "ucast (d ! l) \<le> len"
  shows "\<exists>dc1. answer d (l + 1) dc1 \<and> sent dc1 = sent dc @ [preimage_request hash] \<and> pending dc1 = [] \<and>
    call_get_merkle_preimage sha256 host hash out dc =
      seqp (merkle_preimage_loop host (of_nat (l + 1)) (ucast len - ucast (d ! l)) (take (unat (d ! l)) (drop (l + 1) d))
         (snd (buffer_write_bytes (buffer_create 0 out (of_nat (length out))) (drop 1 (take (unat (d ! l)) (drop (l + 1) d))) (ucast (d ! l) - 1))))
        (\<lambda>v. seqp (require (sha256 (fst v) = hash) (- 10)) (\<lambda>_. ret (unat (len - 1), buf_ptr (snd v)))) dc1"
proof -
  obtain dc1 where req: "request_preimage host hash dc = Some (Inr (len, d ! l), dc1)"
    and dc1: "answer d (l + 1) dc1" "sent dc1 = sent dc @ [preimage_request hash]" "pending dc1 = []"
    using request_preimage_run [where host = host, OF assms(1-8)] by blast
  have data: "data_at dc1 (buf_offset (read_buffer dc1)) (unat (d ! l)) = take (unat (d ! l)) (drop (l + 1) d)"
    using answer_head(1) [OF dc1(1) assms(8)] .
  have off: "buf_offset (read_buffer dc1) = of_nat (l + 1)"
    using answer_offset [OF dc1(1)] by (metis of_nat_unat ucast_id)
  have "call_get_merkle_preimage sha256 host hash out dc =
      seqp (merkle_preimage_loop host (of_nat (l + 1)) (ucast len - ucast (d ! l)) (take (unat (d ! l)) (drop (l + 1) d))
         (snd (buffer_write_bytes (buffer_create 0 out (of_nat (length out))) (drop 1 (take (unat (d ! l)) (drop (l + 1) d))) (ucast (d ! l) - 1))))
        (\<lambda>v. seqp (require (sha256 (fst v) = hash) (- 10)) (\<lambda>_. ret (unat (len - 1), buf_ptr (snd v)))) dc1"
    using assms(3,9-12)
    by (simp add: call_get_merkle_preimage_def seqp_run [where p = "request_preimage host hash" and dc = dc, OF req] require_run Let_def not_less
        crypto_hash_simps data [unfolded off Suc_eq_plus1 [symmetric]] off del: of_nat_add of_nat_Suc)
  then show ?thesis using dc1 by blast
qed

lemma merkle_preimage_loop_more:
  assumes "more_elements host (- 6) (- 7) dc = Some (Inr (n, 1), dc1)" "0 < r" "ucast n \<le> r"
  shows "merkle_preimage_loop host data_off r h b dc = merkle_preimage_loop host data_off (r - ucast n)
    (h @ data_at dc1 (buf_offset (read_buffer dc1)) (unat n))
    (snd (buffer_write_bytes b (data_at dc1 data_off (unat n)) (ucast n))) dc1"
  by (subst merkle_preimage_loop.simps)
    (simp add: assms seqp_run [where p = "more_elements host (- 6) (- 7)" and dc = dc, OF assms(1)] require_run crypto_hash_update_def not_less)

lemma merkle_preimage_loop_0: "merkle_preimage_loop host data_off 0 h b dc = Some (Inr (h, b), dc)"
  by (subst merkle_preimage_loop.simps) (simp add: ret_def)

text \<open>C20: \<open>call_get_merkle_preimage\<close> does not authenticate its output. A host that writes the length
  of the preimage in three bytes and sends the second byte of the preimage in a message of its own
  makes the function succeed with an arbitrary byte \<open>y\<close> in place of the byte \<open>x\<close> that was hashed.\<close>
theorem call_get_merkle_preimage_unauthenticated:
  assumes "length (sha256 [0, x]) = 32"
  shows "\<exists>dc'. call_get_merkle_preimage sha256 (scripted [reply [0xFD, 2, 0, 1, 0], reply [1, 1, x, 0, y]]) (sha256 [0, x]) [z] idle =
    Some (Inr (1, [y]), dc')"
proof -
  let ?host = "scripted [reply [0xFD, 2, 0, 1, 0], reply [1, 1, x, 0, y]]" and ?hash = "sha256 [0, x]"
  let ?d = "[0xFD, 2, 0, 1, 0] :: bytes" and ?e = "[1, 1, x, 0, y]"
  define b where "b = buffer_create 0 [z] 1"
  have v: "varint_read ?d (length ?d) = Some (3, 2)"
    by (simp add: varint_read_def read_u16_le_def)
  obtain dc1 where 1: "answer ?d 4 dc1" "sent dc1 = [preimage_request ?hash]" "pending dc1 = []"
    and run: "call_get_merkle_preimage sha256 ?host ?hash [z] idle =
      seqp (merkle_preimage_loop ?host 4 1 [0] b) (\<lambda>v. seqp (require (sha256 (fst v) = ?hash) (- 10)) (\<lambda>_. ret (1, buf_ptr (snd v)))) dc1"
    using merkle_preimage_start [OF idle_simps(1,2) assms, of ?host ?d 3 2 "[z]" sha256] v
    by (auto simp: b_def buffer_write_bytes_def buffer_seek_cur_def splice_def buffer_create_def)
  obtain dc2 where 2: "more_elements ?host (- 6) (- 7) dc1 = Some (Inr (1, 1), dc2)" "answer ?e 2 dc2"
    using more_elements_run [OF answer_ok [OF 1(1)] 1(3), of ?host ?e "- 6" "- 7"] 1(2) by auto
  have "data_at dc2 (buf_offset (read_buffer dc2)) 1 = [x]" "data_at dc2 4 1 = [y]"
    using answer_data [OF 2(2), of 2 1 "buf_offset (read_buffer dc2)"] answer_data [OF 2(2), of 4 1 4] answer_offset [OF 2(2)] by simp_all
  then have "merkle_preimage_loop ?host 4 1 [0] b dc1 = Some (Inr ([0, x], snd (buffer_write_bytes b [y] 1)), dc2)"
    using merkle_preimage_loop_more [OF 2(1), of 1 4 "[0]" b] by (simp add: merkle_preimage_loop_0)
  moreover have "buf_ptr (snd (buffer_write_bytes b [y] 1)) = [y]"
    by (simp add: b_def buffer_write_bytes_def buffer_seek_cur_def splice_def buffer_create_def buffer_can_read_def)
  ultimately show ?thesis
    unfolding run by (simp add: seqp_run require_run ret_def)
qed

theorem call_get_merkle_preimage_unauthenticated_witness:
  "\<exists>dc'. call_get_merkle_preimage digest32 (scripted [reply [0xFD, 2, 0, 1, 0], reply [1, 1, 5, 0, 6]]) (digest32 [0, 5]) [9] idle =
    Some (Inr (1, [6]), dc')"
  by (rule call_get_merkle_preimage_unauthenticated) simp

lemma merkle_preimage_instance:
  "\<exists>dc'. call_get_merkle_preimage digest32 (scripted [reply [3, 3, 0, 8, 9]]) (digest32 [0, 8, 9]) [1, 2, 3, 4] idle =
     Some (Inr (2, [8, 9, 3, 4]), dc')"
proof -
  let ?host = "scripted [reply [3, 3, 0, 8, 9]]" and ?d = "[3, 3, 0, 8, 9] :: bytes"
  have "varint_read ?d (length ?d) = Some (1, 3)"
    by (simp add: varint_read_def)
  then obtain dc1 where "call_get_merkle_preimage digest32 ?host (digest32 [0, 8, 9]) [1, 2, 3, 4] idle =
      seqp (merkle_preimage_loop ?host 2 0 [0, 8, 9] (snd (buffer_write_bytes (buffer_create 0 [1, 2, 3, 4] 4) [8, 9] 2)))
        (\<lambda>v. seqp (require (digest32 (fst v) = digest32 [0, 8, 9]) (- 10)) (\<lambda>_. ret (2, buf_ptr (snd v)))) dc1"
    using merkle_preimage_start [OF idle_simps(1,2), of "digest32 [0, 8, 9]" ?host ?d 1 3 "[1, 2, 3, 4]" digest32] by auto
  moreover have "buf_ptr (snd (buffer_write_bytes (buffer_create 0 [1, 2, 3, 4] 4) [8, 9] 2)) = [8, 9, 3, 4]"
    by (simp add: buffer_write_bytes_def buffer_seek_cur_def splice_def buffer_create_def buffer_can_read_def)
  ultimately show ?thesis
    by (simp add: seqp_run [where p = "merkle_preimage_loop _ _ _ _ _", OF merkle_preimage_loop_0] require_run ret_def)
qed

text \<open>C21: Against a host that writes the length of the preimage in one byte, what
  \<open>call_get_merkle_preimage\<close> writes to its output is a preimage of the hash without its first byte,
  and the result is its length, which is at most that of the output.\<close>
theorem call_get_merkle_preimage_sound:
  assumes "io_ok dc" "pending dc = []" "length hash = 32" "length out < 2 ^ 31"
    and "host (sent dc @ [preimage_request hash]) = Some rx" "rx ! 5 < 0xFD"
    and "call_get_merkle_preimage sha256 host hash out dc = Some (Inr (n, out'), dc')"
  shows "\<exists>p. sha256 p = hash \<and> length p = n + 1 \<and> n \<le> length out \<and> out' = tl p @ drop n out"
  using merkle_preimage_Inr [where host = host, OF assms] by blast

theorem call_get_merkle_preimage_sound_witness:
  "\<exists>dc' p. call_get_merkle_preimage digest32 (scripted [reply [3, 3, 0, 8, 9]]) (digest32 [0, 8, 9]) [1, 2, 3, 4] idle =
     Some (Inr (2, [8, 9, 3, 4]), dc') \<and> digest32 p = digest32 [0, 8, 9] \<and> length p = 3 \<and> [8, 9, 3, 4] = tl p @ [3, 4]"
proof -
  obtain dc' where r: "call_get_merkle_preimage digest32 (scripted [reply [3, 3, 0, 8, 9]]) (digest32 [0, 8, 9]) [1, 2, 3, 4] idle =
     Some (Inr (2, [8, 9, 3, 4]), dc')"
    using merkle_preimage_instance by blast
  have "scripted [reply [3, 3, 0, 8, 9]] (sent idle @ [preimage_request (digest32 [0, 8, 9])]) = Some (reply [3, 3, 0, 8, 9])"
    by simp
  then obtain p where "digest32 p = digest32 [0, 8, 9]" "length p = 2 + 1" "[8, 9, 3, 4] = tl p @ drop 2 [1, 2, 3, 4]"
    using call_get_merkle_preimage_sound [where host = "scripted [reply [3, 3, 0, 8, 9]]", OF _ _ _ _ _ _ r] by (auto simp: reply_def)
  then show ?thesis using r by (intro exI conjI) simp_all
qed


lemma stream_preimage_instance:
  "\<exists>r dc'. call_stream_preimage digest32 (scripted [reply [3, 3, 0, 8, 9]]) (digest32 [0, 8, 9]) None (\<lambda>b s. s @ buf_rest b) [] idle =
     Some (Inr r, dc')"
proof -
  let ?host = "scripted [reply [3, 3, 0, 8, 9]]" and ?d = "[3, 3, 0, 8, 9] :: bytes"
  have "varint_read ?d (length ?d) = Some (1, 3)"
    by (simp add: varint_read_def)
  then obtain dc1 where req: "request_preimage ?host (digest32 [0, 8, 9]) idle = Some (Inr (3, 3), dc1)" and "answer ?d (1 + 1) dc1"
    using request_preimage_run [OF idle_simps(1,2), of "digest32 [0, 8, 9]" ?host ?d 1 3] by auto
  then have dc1: "answer ?d 2 dc1" by (simp only: one_add_one)
  have data: "data_at dc1 (buf_offset (read_buffer dc1)) 3 = [0, 8, 9]"
    using answer_data [OF dc1, of 2 3 "buf_offset (read_buffer dc1)"] answer_offset [OF dc1] by (simp add: numeral_eq_Suc)
  have loop: "stream_preimage_loop ?host (\<lambda>b s. s @ buf_rest b) 0 h s dc1 = Some (Inr (h, s), dc1)" for h s
    by (subst stream_preimage_loop.simps) (simp add: ret_def)
  show ?thesis
    by (simp add: call_stream_preimage_def seqp_run [where p = "request_preimage _ _", OF req] require_run data Let_def crypto_hash_simps
        seqp_run [where p = "stream_preimage_loop _ _ _ _ _", OF loop] ret_def)
qed


end
