(* ===== verification/Handlers_Rules.thy ===== *)
theory Handlers_Rules
  imports Handlers Client_Calm Policy_State Client_Preimage
begin

text \<open>
  Rules for the handlers: an early return never leaves the status word \<open>SW_OK\<close>, what a successful
  run went through, what a response adds to the messages that were sent, and that requests to the host
  leave nothing behind in the response buffer.
\<close>


named_theorems rejects_rules \<open>handlers that never leave early with \<open>SW_OK\<close>\<close>

section \<open>Early returns\<close>

text \<open>An early return leaves a status word that is not \<open>SW_OK\<close>.\<close>

definition rejects :: "(app, 'a) stproc \<Rightarrow> bool" where
  "rejects p \<longleftrightarrow> (\<forall>a e a'. p a = Some (Inl e, a') \<longrightarrow> disp_sw (app_dc a') \<noteq> SW_OK)"

lemma SEND_SW_disp_sw [simp]: "disp_sw (SEND_SW sw dc) = sw"
  by (simp add: SEND_SW_def send_response_def finalize_response_def io_confirm_response_def io_finalize_response_def)

lemma rejects_seqp [rejects_rules]: "rejects p \<Longrightarrow> (\<And>v. rejects (f v)) \<Longrightarrow> rejects (seqp p f)"
  unfolding rejects_def seqp_Some by blast

lemma rejects_basic [rejects_rules]:
  "rejects (ret v)" "sw \<noteq> SW_OK \<Longrightarrow> rejects (check_sw c sw)" "sw \<noteq> SW_OK \<Longrightarrow> rejects (or_sw sw p)" "rejects (undefined_if_none x)"
  "rejects (respond d n sw)" "rejects (io_ui_process E s)" "rejects (text_field t m)" "rejects (amount_field nm am)"
  by (auto simp: rejects_def ret_def check_sw_def fail_sw_def or_sw_def undefined_if_none_def respond_def io_ui_process_def text_field_def
    amount_field_def Let_def split: if_splits option.splits sum.splits prod.splits)

lemma rejects_if [rejects_rules]: "(c \<Longrightarrow> rejects p) \<Longrightarrow> (\<not> c \<Longrightarrow> rejects q) \<Longrightarrow> rejects (if c then p else q)"
  by simp

lemma rejects_case_option [rejects_rules]: "rejects p \<Longrightarrow> (\<And>x. rejects (q x)) \<Longrightarrow> rejects (case x of None \<Rightarrow> p | Some x \<Rightarrow> q x)"
  by (cases x) auto

lemma rejects_case_prod [rejects_rules]: "(\<And>x y. rejects (f x y)) \<Longrightarrow> rejects (case p of (x, y) \<Rightarrow> f x y)"
  by (cases p) auto

lemma rejects_screens [rejects_rules]:
  "rejects (ui_display_pubkey E p s k)" "rejects (ui_display_message_hash E p h)" "rejects (ui_display_register_wallet E hdr t)"
  "rejects (ui_display_policy_map_cosigner_pubkey E k i b)" "rejects (ui_display_wallet_address E n ad)"
  unfolding ui_display_pubkey_def ui_display_message_hash_def ui_display_register_wallet_def ui_display_policy_map_cosigner_pubkey_def
    ui_display_wallet_address_def
  by (intro rejects_rules)+

lemma sw_ne [simp]:
  "SW_SECURITY_STATUS_NOT_SATISFIED \<noteq> SW_OK" "SW_DENY \<noteq> SW_OK" "SW_INCORRECT_DATA \<noteq> SW_OK" "SW_NOT_SUPPORTED \<noteq> SW_OK"
  "SW_WRONG_DATA_LENGTH \<noteq> SW_OK" "SW_BAD_STATE \<noteq> SW_OK" "SW_SIGNATURE_FAIL \<noteq> SW_OK"
  by (simp_all add: sw_defs)

lemma rejectsD: "rejects p \<Longrightarrow> p a = Some (r, a') \<Longrightarrow> disp_sw (app_dc a') = SW_OK \<Longrightarrow> \<exists>v. r = Inr v"
  by (cases r) (auto simp: rejects_def)

lemma rejects_handlers:
  "rejects (handler_get_master_fingerprint E v)" "rejects (handler_get_extended_pubkey E v)" "rejects (handler_get_wallet_address E v)"
  unfolding handler_get_master_fingerprint_def handler_get_extended_pubkey_def handler_get_wallet_address_def Let_def
  by ((rule rejects_rules sw_ne)+)[3]

lemma rejects_is_key_internal [rejects_rules]: "rejects (is_key_internal E f k)"
  unfolding is_key_internal_def by (rule rejects_rules sw_ne)+

lemma rejects_register_key [rejects_rules]: "rejects (register_key E hdr f i)"
  unfolding register_key_def by (rule rejects_rules sw_ne)+

lemma rejects_register_keys [rejects_rules]: "rejects (register_keys n E hdr f i m)"
proof (induction n arbitrary: i m)
  case (Suc n)
  then show ?case unfolding register_keys.simps by (intro rejects_rules)
qed (simp add: rejects_basic)

lemma rejects_message_loop [rejects_rules]: "rejects (message_loop n E root sz i ctx)"
proof (induction n arbitrary: i ctx)
  case (Suc n)
  then show ?case unfolding message_loop.simps by (intro rejects_rules sw_ne)
qed (simp add: rejects_basic)

lemma rejects_handler_register_wallet: "rejects (handler_register_wallet E v)"
  unfolding handler_register_wallet_def Let_def by (rule rejects_rules sw_ne)+

lemma rejects_handler_sign_message: "rejects (handler_sign_message E v)"
  unfolding handler_sign_message_def Let_def by (rule rejects_rules sw_ne)+

section \<open>Successful runs\<close>

lemma or_sw_Inr: "or_sw sw p a = Some (Inr v, a') \<longleftrightarrow> p a = Some (Inr v, a')"
  by (auto simp: or_sw_def fail_sw_def split: option.splits sum.splits prod.splits)

lemma check_sw_Inr: "check_sw c sw a = Some (Inr v, a') \<longleftrightarrow> c \<and> a' = a"
  by (auto simp: check_sw_def ret_def fail_sw_def)

lemma on_dc_Inr: "on_dc p a = Some (Inr v, a') \<longleftrightarrow> (\<exists>dc. p (app_dc a) = Some (Inr v, dc) \<and> a' = a\<lparr>app_dc := dc\<rparr>)"
  by (auto simp: on_dc_def)

lemma undefined_if_none_Inr: "undefined_if_none x a = Some (Inr v, a') \<longleftrightarrow> x = Some v \<and> a' = a"
  by (auto simp: undefined_if_none_def)

text \<open>The state after a screen was shown.\<close>

definition shown :: "screen \<Rightarrow> app \<Rightarrow> app" where
  "shown s a = a\<lparr>app_dc := io_start_processing_timeout (io_clear_processing_timeout (set_ui_dirty (app_dc a))), app_screens := app_screens a @ [s]\<rparr>"

lemma io_ui_process_Inr: "io_ui_process E s a = Some (Inr v, a') \<longleftrightarrow> v = e_user E (app_screens a @ [s]) \<and> a' = shown s a"
  by (auto simp: io_ui_process_def shown_def Let_def)

lemma shown_fields [simp]: "app_screens (shown s a) = app_screens a @ [s]" "sent (app_dc (shown s a)) = sent (app_dc a)"
  "io_ok (app_dc (shown s a)) = io_ok (app_dc a)" "pending (app_dc (shown s a)) = pending (app_dc a)"
  by (simp_all add: shown_def io_start_processing_timeout_def io_clear_processing_timeout_def set_ui_dirty_def io_ok_def pending_def)

lemma text_field_Inr: "text_field s n a = Some (Inr v, a') \<longleftrightarrow> v = c_string s \<and> length v < n \<and> a' = a"
  by (auto simp: text_field_def undefined_if_none_def)

lemmas handler_simps = success_simps or_sw_Inr check_sw_Inr on_dc_Inr undefined_if_none_Inr io_ui_process_Inr text_field_Inr

lemma c_string_append [simp]: "0 \<notin> set t \<Longrightarrow> c_string (t @ 0 # r) = t"
  by (induction t) (auto simp: c_string_def)

lemma c_string_plain: "0 \<notin> set t \<Longrightarrow> c_string t = t"
  by (induction t) (auto simp: c_string_def)

text \<open>A response that fits.\<close>

lemma respond_Inr:
  assumes "respond d n sw a = Some (Inr v, a')" "io_ok (app_dc a)" "pending (app_dc a) = []" "unat n \<le> length d" "unat n < 258"
  shows "sent (app_dc a') = sent (app_dc a) @ [take (unat n) d @ enc_u16_be sw]" "disp_sw (app_dc a') = sw"
    "app_screens a' = app_screens a" "io_ok (app_dc a')" "pending (app_dc a') = []"
proof -
  obtain dc where dc: "io_add_to_response d n (app_dc a) = Some dc" "io_ok dc" "pending dc = take (unat n) d" "sent dc = sent (app_dc a)"
    using io_add_to_response_eq [of "app_dc a" n d] assms by auto
  have a': "a' = a\<lparr>app_dc := SEND_SW sw dc\<rparr>"
    using assms(1) dc(1) by (auto simp: respond_def SEND_RESPONSE_def SEND_SW_def add_to_response_def)
  have f: "io_ok (dc\<lparr>disp_sw := sw\<rparr>)" "length (pending (dc\<lparr>disp_sw := sw\<rparr>)) < 258"
    using dc(2,3) assms(5) by (simp_all add: io_ok_def pending_def)
  have p: "pending (dc\<lparr>disp_sw := sw\<rparr>) = take (unat n) d" "sent (dc\<lparr>disp_sw := sw\<rparr>) = sent (app_dc a)"
    using dc(3,4) by (simp_all add: pending_def)
  show "sent (app_dc a') = sent (app_dc a) @ [take (unat n) d @ enc_u16_be sw]" "disp_sw (app_dc a') = sw"
    "app_screens a' = app_screens a" "io_ok (app_dc a')" "pending (app_dc a') = []"
    unfolding a' using io_finalize_response_eq [OF f] io_confirm_response_eq [of "io_finalize_response sw (dc\<lparr>disp_sw := sw\<rparr>)"] p
    by (simp_all add: SEND_SW_def send_response_def finalize_response_def)
qed


section \<open>Requests inside a handler\<close>

definition ready :: "app \<Rightarrow> bool" where
  "ready a \<longleftrightarrow> io_ok (app_dc a) \<and> pending (app_dc a) = []"

lemma calm_policy_basic [calm_rules]: "calm (of_option e x)" "calm p \<Longrightarrow> calm (only_minus_1 p)"
proof -
  show "calm (of_option e x)" by (cases x) (simp_all add: of_option_def calm_basic)
  show "calm p \<Longrightarrow> calm (only_minus_1 p)"
    by (auto simp: calm_def only_minus_1_def split: option.splits sum.splits prod.splits if_splits)
qed

lemma calm_keys [calm_rules]: "calm (key_info_element E root n i)" "calm (get_extended_pubkey E wdi i)" "calm (get_derived_pubkey E wdi kp)"
  "calm (get_pubkey_from_merkle_tree E v root n i)"
  unfolding key_info_element_def get_extended_pubkey_def get_derived_pubkey_def get_pubkey_from_merkle_tree_def Let_def
  by (intro calm_rules)+

lemma calm_policies [calm_rules]: "calm (read_and_parse_wallet_policy E b)" "calm (is_wallet_policy_standard E h p)" "calm (fetch_wallet_policy E wallet_id)"
  unfolding read_and_parse_wallet_policy_def is_wallet_policy_standard_def fetch_wallet_policy_def Let_def
  by (intro calm_rules)+

lemma calm_pubkeys_differ [calm_rules]: "calm (pubkeys_differ m E v root n k j)"
proof (induction m arbitrary: j)
  case (Suc m)
  then show ?case unfolding pubkeys_differ.simps by (intro calm_rules)
qed (simp add: calm_basic)

lemma calm_pubkeys_distinct [calm_rules]: "calm (pubkeys_distinct m E v root n i)"
proof (induction m arbitrary: i)
  case (Suc m)
  then show ?case unfolding pubkeys_distinct.simps by (intro calm_rules)
qed (simp add: calm_basic)

lemma calm_is_policy_sane [calm_rules]: "calm (is_policy_sane E p v root n)"
  unfolding is_policy_sane_def by (intro calm_rules)

interpretation dkeys: derivation_invariant "derive_pubkey_of E wdi" "\<lambda>dc. extends dc0 dc \<and> (b \<longrightarrow> pending dc = [])" for E wdi dc0 b
proof (unfold_locales, goal_cases)
  case (1 kp dc k dc')
  then have r: "get_derived_pubkey E wdi kp dc = Some (Inr k, dc')"
    by (auto simp: derive_pubkey_of_def split: option.splits sum.splits prod.splits)
  have c: "calm (get_derived_pubkey E wdi kp)" by (rule calm_rules)
  show ?case using 1 calmD [OF c extends_ok, of dc0 dc] r extends_trans by blast
qed

lemma calm_wallet_script [calm_rules]: "calm (wallet_script E wdi policy)"
proof (rule calmI)
  fix dc y assume y: "wallet_script E wdi policy dc = Some y"
  show "calm_step dc y"
  proof (cases "fst y")
    case (Inl e)
    then have "snd y = dc" using y by (auto simp: wallet_script_def of_nested_def split: option.splits)
    then show ?thesis using Inl by (auto simp: calm_step_def extends_def)
  next
    case (Inr v)
    then obtain n out where
        "get_wallet_script (e_cx E) (derive_pubkey_of E wdi) (e_hf E) (e_junk E) policy (uninit E 34) dc = Some (Some (n, out, snd y))"
      using y by (auto simp: wallet_script_def of_nested_def split: option.splits)
    from dkeys.wallet_script_keeps [OF this, of dc "pending dc = []"] show ?thesis by (auto simp: calm_step_def extends_def)
  qed
qed

text \<open>A request of a handler that succeeds.\<close>

lemma on_dc_calm:
  assumes "on_dc p a = Some (Inr v, a')" "calm p" "ready a"
  shows "ready a' \<and> extends (app_dc a) (app_dc a') \<and> app_screens a' = app_screens a"
proof -
  obtain dc where r: "p (app_dc a) = Some (Inr v, dc)" "a' = a\<lparr>app_dc := dc\<rparr>" using assms(1) by (auto simp: on_dc_Inr)
  then show ?thesis using calmD [OF assms(2), of "app_dc a"] assms(3) extends_ok by (auto simp: ready_def)
qed

end
