(* ===== verification/Handlers_Export.thy ===== *)
theory Handlers_Export
  imports Handlers_Rules
begin

text \<open>
  The export of public keys (\<open>handler_get_extended_pubkey\<close>): which paths need no confirmation, how a
  handler reads its command, and that a key leaves the device only for such a path or with the user's consent.
\<close>

section \<open>Export of public keys\<close>

text \<open>The paths whose public key is exported without asking the user.\<close>

definition exportable :: "coin \<Rightarrow> u32 list \<Rightarrow> bool" where
  "exportable coin path \<longleftrightarrow>
     path = [0x80000000 + 4541509, 0x80000000 + 1112098098] \<or>
     (\<exists>p account rest. path = [0x80000000 + p, 0x80000000 + BIP44_COIN_TYPE coin, 0x80000000 + account] @ rest \<and>
        p \<in> {44, 45, 49, 84, 86} \<and> account \<le> MAX_BIP44_ACCOUNT_RECOMMENDED \<and> (\<forall>i\<in>set rest. i < 0x80000000)) \<or>
     (\<exists>account script_type rest. path = [0x80000000 + 48, 0x80000000 + BIP44_COIN_TYPE coin, 0x80000000 + account, 0x80000000 + script_type] @ rest \<and>
        script_type \<in> {1, 2} \<and> account \<le> MAX_BIP44_ACCOUNT_RECOMMENDED \<and> (\<forall>i\<in>set rest. i < 0x80000000))"

lemma hardened_iff: "y < 0x80000000 \<Longrightarrow> (0x80000000 \<le> x \<and> x AND 0x7FFFFFFF = y) \<longleftrightarrow> x = 0x80000000 + y" for x y :: u32
proof -
  have m: "unat (x AND 0x7FFFFFFF) = unat x mod 2147483648" for x :: u32
  proof -
    have "x AND 0x7FFFFFFF = take_bit 31 x" unfolding take_bit_eq_mask by (simp add: mask_eq_exp_minus_1)
    then show ?thesis by (simp only: unsigned_take_bit_eq) (simp add: take_bit_eq_mod)
  qed
  assume y: "y < 0x80000000"
  define n where "n = unat x"
  have "n < 4294967296" unfolding n_def by (rule unat_size_t_less)
  then have "n mod 2147483648 = (if 2147483648 \<le> n then n - 2147483648 else n)" by (simp add: le_mod_geq)
  then show ?thesis
    using y m [of x] \<open>n < 4294967296\<close>
    by (auto simp: word_unat_eq_iff word_le_nat_alt word_less_nat_alt unat_word_ariths n_def [symmetric])
qed

lemma list_ex_nth:
  "k \<le> length xs \<Longrightarrow> list_ex (\<lambda>i. Q (xs ! i)) [0..<k] \<longleftrightarrow> (\<exists>x\<in>set (take k xs). Q x)"
  "list_ex (\<lambda>i. Q (xs ! i)) [k..<length xs] \<longleftrightarrow> (\<exists>x\<in>set (drop k xs). Q x)"
proof -
  have m: "list_ex (\<lambda>i. Q (xs ! i)) js \<longleftrightarrow> (\<exists>x\<in>set (map ((!) xs) js). Q x)" for js by (auto simp: list_ex_iff)
  have "map ((!) xs) [k..<length xs] = drop k xs" by (rule nth_equalityI) auto
  then show "list_ex (\<lambda>i. Q (xs ! i)) [k..<length xs] \<longleftrightarrow> (\<exists>x\<in>set (drop k xs). Q x)" using m by metis
  have "k \<le> length xs \<Longrightarrow> map ((!) xs) [0..<k] = take k xs" by (rule nth_equalityI) auto
  then show "k \<le> length xs \<Longrightarrow> list_ex (\<lambda>i. Q (xs ! i)) [0..<k] \<longleftrightarrow> (\<exists>x\<in>set (take k xs). Q x)" using m by metis
qed

lemma account_iff: "0x80000000 \<le> x \<and> x AND 0x7FFFFFFF \<le> MAX_BIP44_ACCOUNT_RECOMMENDED \<longleftrightarrow>
    (\<exists>account \<le> MAX_BIP44_ACCOUNT_RECOMMENDED. x = 0x80000000 + account)" for x :: u32
proof -
  have "account < 0x80000000" if "account \<le> MAX_BIP44_ACCOUNT_RECOMMENDED" for account :: u32
    using that by (simp add: MAX_BIP44_ACCOUNT_RECOMMENDED_def word_less_nat_alt word_le_nat_alt)
  then show ?thesis using hardened_iff by metis
qed

lemma False_else: "(if c then False else d) \<longleftrightarrow> \<not> c \<and> d"
  by simp

lemma is_path_safe_long:
  assumes "BIP44_COIN_TYPE coin < 0x80000000"
  shows "is_path_safe_for_pubkey_export coin (a # b # c # rest) \<longleftrightarrow>
    (\<exists>account \<le> MAX_BIP44_ACCOUNT_RECOMMENDED. c = 0x80000000 + account) \<and> b = 0x80000000 + BIP44_COIN_TYPE coin \<and>
    ((\<exists>p\<in>{44, 45, 49, 84, 86}. a = 0x80000000 + p) \<and> (\<forall>i\<in>set rest. i < 0x80000000) \<or>
     a = 0x80000000 + 48 \<and> (\<exists>d rest'. rest = d # rest' \<and> d \<in> {0x80000000 + 1, 0x80000000 + 2} \<and> (\<forall>i\<in>set rest'. i < 0x80000000)))"
proof -
  let ?M = "\<lambda>x :: u32. x AND 0x7FFFFFFF" and ?H = "\<lambda>x :: u32. 0x80000000 \<le> x"
  have eq: "is_path_safe_for_pubkey_export coin (a # b # c # rest) \<longleftrightarrow>
    (?H c \<and> ?M c \<le> MAX_BIP44_ACCOUNT_RECOMMENDED) \<and> (?H b \<and> ?M b = BIP44_COIN_TYPE coin) \<and>
    ((\<exists>p\<in>{44, 45, 49, 84, 86}. ?H a \<and> ?M a = p) \<and> (\<forall>i\<in>set rest. i < 0x80000000) \<or>
     (?H a \<and> ?M a = 48) \<and> (\<exists>d rest'. rest = d # rest' \<and> (?H d \<and> ?M d = 1 \<or> ?H d \<and> ?M d = 2) \<and> (\<forall>i\<in>set rest'. i < 0x80000000)))"
  proof (cases "?M a = 48")
    case True
    show ?thesis
    proof (cases rest)
      case Nil
      then show ?thesis using True by (simp add: is_path_safe_for_pubkey_export_def)
    next
      case (Cons d rest')
      define q where "q = a # b # c # d # rest'"
      have q: "length q \<noteq> 2" "\<not> length q < 3" "\<not> length q < 4" "q ! 0 = a" "q ! 1 = b" "q ! 2 = c" "q ! 3 = d" by (simp_all add: q_def)
      have e1: "list_ex (\<lambda>i. q ! i < 0x80000000) [0..<4] \<longleftrightarrow> \<not> (?H a \<and> ?H b \<and> ?H c \<and> ?H d)"
        by (subst list_ex_nth(1)) (auto simp: q_def not_less)
      have e2: "list_ex (\<lambda>i. ?H (q ! i)) [4..<length q] \<longleftrightarrow> \<not> (\<forall>i\<in>set rest'. i < 0x80000000)"
        by (subst list_ex_nth(2)) (auto simp: q_def not_less)
      have "is_path_safe_for_pubkey_export coin q \<longleftrightarrow> (?H a \<and> ?H b \<and> ?H c \<and> ?H d) \<and> (\<forall>i\<in>set rest'. i < 0x80000000) \<and>
          ?M b = BIP44_COIN_TYPE coin \<and> ?M c \<le> MAX_BIP44_ACCOUNT_RECOMMENDED \<and> (?M d = 1 \<or> ?M d = 2)"
        unfolding is_path_safe_for_pubkey_export_def Let_def using True
        by (simp only: q e1 e2 False_else if_P simp_thms) (simp add: not_less)
      then show ?thesis using True Cons q_def by auto
    qed
  next
    case False
    define q where "q = a # b # c # rest"
    have q: "length q \<noteq> 2" "\<not> length q < 3" "q ! 0 = a" "q ! 2 = c" "q ! 1 = b" by (simp_all add: q_def)
    have e1: "list_ex (\<lambda>i. q ! i < 0x80000000) [0..<3] \<longleftrightarrow> \<not> (?H a \<and> ?H b \<and> ?H c)"
      by (subst list_ex_nth(1)) (auto simp: q_def not_less)
    have e2: "list_ex (\<lambda>i. ?H (q ! i)) [3..<length q] \<longleftrightarrow> \<not> (\<forall>i\<in>set rest. i < 0x80000000)"
      by (subst list_ex_nth(2)) (auto simp: q_def not_less)
    have "is_path_safe_for_pubkey_export coin q \<longleftrightarrow> (\<exists>p\<in>{44, 45, 49, 84, 86}. ?M a = p) \<and> (?H a \<and> ?H b \<and> ?H c) \<and>
        (\<forall>i\<in>set rest. i < 0x80000000) \<and> ?M b = BIP44_COIN_TYPE coin \<and> ?M c \<le> MAX_BIP44_ACCOUNT_RECOMMENDED"
      unfolding is_path_safe_for_pubkey_export_def Let_def using False
      by (simp only: q e1 e2 False_else if_not_P simp_thms) (auto simp: not_less)
    then show ?thesis unfolding q_def [symmetric] using False by blast
  qed
  have A: "(\<exists>p\<in>{44, 45, 49, 84, 86}. ?H a \<and> ?M a = p) \<longleftrightarrow> (\<exists>p\<in>{44, 45, 49, 84, 86}. a = 0x80000000 + p)"
    by (rule bex_cong [OF refl], rule hardened_iff) auto
  have D: "?H d \<and> ?M d = 1 \<or> ?H d \<and> ?M d = 2 \<longleftrightarrow> d \<in> {0x80000000 + 1, 0x80000000 + 2}" for d
    using hardened_iff [of 1 d] hardened_iff [of 2 d] by simp
  have C: "?H a \<and> ?M a = 48 \<longleftrightarrow> a = 0x80000000 + 48" by (rule hardened_iff) simp
  show ?thesis unfolding eq A C D account_iff hardened_iff [OF assms] by (rule refl)
qed

lemma is_path_safe_for_pubkey_export_iff:
  assumes "BIP44_COIN_TYPE coin < 0x80000000"
  shows "is_path_safe_for_pubkey_export coin path \<longleftrightarrow> exportable coin path"
proof (cases "3 \<le> length path")
  case True
  then obtain a b c rest where p: "path = a # b # c # rest" by (auto simp: numeral_3_eq_3 Suc_le_length_iff)
  show ?thesis unfolding p is_path_safe_long [OF assms] exportable_def by auto
next
  case False
  then have "exportable coin path \<longleftrightarrow> path = [0x80000000 + 4541509, 0x80000000 + 1112098098]"
    unfolding exportable_def by auto
  also have "\<dots> \<longleftrightarrow> is_path_safe_for_pubkey_export coin path"
    using False by (cases path rule: path_text.cases) (auto simp: is_path_safe_for_pubkey_export_def neq_Nil_conv)
  finally show ?thesis by simp
qed

section \<open>Reading the command\<close>

lemma cmd_u8_Inr:
  assumes "cmd_u8 a = Some (Inr v, a')" "answer d off (app_dc a)"
  shows "off < length d" "v = d ! off" "a' = a\<lparr>app_dc := step (app_dc a) 1\<rparr>" "answer d (Suc off) (app_dc a')"
proof -
  have *: "off < length d \<and> v = d ! off \<and> a' = a\<lparr>app_dc := step (app_dc a) 1\<rparr>"
    using assms by (auto simp: cmd_u8_def on_dc_Inr rd_u8_eq split: if_splits)
  then show "off < length d" "v = d ! off" "a' = a\<lparr>app_dc := step (app_dc a) 1\<rparr>" by simp_all
  show "answer d (Suc off) (app_dc a')" using * answer_step [OF assms(2), of 1] by simp
qed

lemma cmd_bip32_path_Inr:
  assumes "cmd_bip32_path n a = Some (Inr path, a')" "answer d off (app_dc a)" "off \<le> 9"
  shows "\<exists>b. a' = a\<lparr>app_dc := (app_dc a)\<lparr>read_buffer := b\<rparr>\<rparr>" "length path = n" "n \<le> MAX_BIP32_PATH_STEPS"
    "path = map (\<lambda>i. read_u32_be (drop (off + 5) (io_apdu_buffer (app_dc a))) (4 * i)) [0..<n]"
proof -
  obtain ok p b where r: "buffer_read_bip32_path (rb (app_dc a)) n = Some (ok, p, b)" and ok: ok and p: "p = path"
      and a': "a' = a\<lparr>app_dc := (app_dc a)\<lparr>read_buffer := b\<rparr>\<rparr>"
    using assms(1) by (auto simp: cmd_bip32_path_def on_dc_Inr split: bind_splits if_splits)
  show "\<exists>b. a' = a\<lparr>app_dc := (app_dc a)\<lparr>read_buffer := b\<rparr>\<rparr>" using a' by blast
  have off: "unat (buf_offset (rb (app_dc a))) = off" using answer_offset [OF assms(2)] by (simp add: rb_def)
  let ?inp = "drop (off + 5) (io_apdu_buffer (app_dc a))"
  obtain in_len where b: "bip32_path_read ?inp in_len n = Some (True, path)"
    using r ok p off by (auto simp: buffer_read_bip32_path_def rb_def split: bind_splits if_splits)
  then show n: "n \<le> MAX_BIP32_PATH_STEPS" by (auto simp: bip32_path_read_def split: if_splits)
  have "length ?inp = 260 - (off + 5)" using assms(2) by (simp add: answer_def io_ok_def IO_APDU_BUFFER_SIZE_def)
  then have "4 * n \<le> length ?inp" using n assms(3) by (simp add: MAX_BIP32_PATH_STEPS_def)
  with path_read_loop_eq [of 0 n ?inp in_len "[]"] b n
  show "path = map (\<lambda>i. read_u32_be ?inp (4 * i)) [0..<n]" by (auto simp: bip32_path_read_def)
  then show "length path = n" by simp
qed

lemma base58_encode_text:
  assumes "base58_encode x n = Some e"
  shows "0 \<notin> set e" "length e \<le> n"
proof -
  have "length x \<le> 120" using assms by (auto simp: base58_encode_def MAX_ENC_INPUT_SIZE_def Let_def split: if_splits bind_splits)
  from base58_encode_digits [OF assms this] obtain z ds where e: "e = map alphabet (replicate z 0 @ ds)" "base58_ok ds" "length e \<le> n" by blast
  then show "length e \<le> n" by simp
  have "\<forall>c\<in>set BASE58_ALPHABET. c \<noteq> 0" "length BASE58_ALPHABET = 58" by (simp_all add: BASE58_ALPHABET_def str_def ch_def)
  then have "alphabet d \<noteq> 0" if "unat d < 58" for d using that nth_mem [of "unat d" BASE58_ALPHABET] by (auto simp: alphabet_def)
  then show "0 \<notin> set e" using e(1,2) by (auto simp: base58_ok_def list_all_iff)
qed

text \<open>What a screen shows for a path.\<close>

definition shown_path :: "u32 list \<Rightarrow> bytes" where
  "shown_path path = (if path = [] then str ''(Master key)'' else path_text path)"

lemma c_string_path_str:
  assumes "length path \<le> MAX_BIP32_PATH_STEPS"
  shows "c_string (path_str path) = shown_path path"
proof -
  let ?t = "str ''(Master key)'' @ replicate (MAX_SERIALIZED_BIP32_PATH_LENGTH + 1 - 12) 0"
  have "length ?t = MAX_SERIALIZED_BIP32_PATH_LENGTH + 1" by (simp add: MAX_SERIALIZED_BIP32_PATH_LENGTH_def MAX_BIP32_PATH_STEPS_def str_def)
  then obtain rest where "bip32_path_format path ?t = (True, path_text path @ 0 # rest)" using bip32_path_format_eq [OF assms] by blast
  moreover have "c_string ?t = str ''(Master key)''"
    by (simp add: c_string_def str_def ch_def MAX_SERIALIZED_BIP32_PATH_LENGTH_def MAX_BIP32_PATH_STEPS_def)
  ultimately show ?thesis by (simp add: path_str_def shown_path_def path_text_no_zero)
qed

text \<open>Handlers that do not talk to the host answer once: with a status word when they leave early.\<close>

named_theorems once_rules \<open>handlers that answer once\<close>

definition silent :: "(app, 'a) stproc \<Rightarrow> bool" where
  "silent p \<longleftrightarrow> (\<forall>a r a'. ready a \<longrightarrow> p a = Some (r, a') \<longrightarrow> ready a' \<and> sent (app_dc a') = sent (app_dc a))"

definition silent_or_sw :: "(app, 'a) stproc \<Rightarrow> bool" where
  "silent_or_sw p \<longleftrightarrow> (\<forall>a r a'. ready a \<longrightarrow> p a = Some (r, a') \<longrightarrow>
     (case r of Inr _ \<Rightarrow> ready a' \<and> sent (app_dc a') = sent (app_dc a)
              | Inl _ \<Rightarrow> sent (app_dc a') = sent (app_dc a) @ [enc_u16_be (disp_sw (app_dc a'))]))"

definition early_sw :: "(app, 'a) stproc \<Rightarrow> bool" where
  "early_sw p \<longleftrightarrow> (\<forall>a e a'. ready a \<longrightarrow> p a = Some (Inl e, a') \<longrightarrow> sent (app_dc a') = sent (app_dc a) @ [enc_u16_be (disp_sw (app_dc a'))])"

lemma silent_seqp [once_rules]: "silent p \<Longrightarrow> (\<And>v. silent (f v)) \<Longrightarrow> silent (seqp p f)"
  unfolding silent_def seqp_Some by metis

lemma silent_or_swD:
  assumes "silent_or_sw p" "ready a"
  shows "p a = Some (Inr v, a') \<Longrightarrow> ready a' \<and> sent (app_dc a') = sent (app_dc a)"
    "p a = Some (Inl e, a') \<Longrightarrow> sent (app_dc a') = sent (app_dc a) @ [enc_u16_be (disp_sw (app_dc a'))]"
  using assms by (fastforce simp: silent_or_sw_def)+

lemma silent_or_swI:
  assumes "\<And>a v a'. ready a \<Longrightarrow> p a = Some (Inr v, a') \<Longrightarrow> ready a' \<and> sent (app_dc a') = sent (app_dc a)"
    "\<And>a e a'. ready a \<Longrightarrow> p a = Some (Inl e, a') \<Longrightarrow> sent (app_dc a') = sent (app_dc a) @ [enc_u16_be (disp_sw (app_dc a'))]"
  shows "silent_or_sw p"
  unfolding silent_or_sw_def
proof (intro allI impI)
  fix a r a' assume r: "ready a" "p a = Some (r, a')"
  then show "case r of Inr _ \<Rightarrow> ready a' \<and> sent (app_dc a') = sent (app_dc a)
      | Inl _ \<Rightarrow> sent (app_dc a') = sent (app_dc a) @ [enc_u16_be (disp_sw (app_dc a'))]"
  proof (cases r)
    case (Inl e)
    with assms(2) [of a e a'] r show ?thesis by simp
  next
    case (Inr v)
    with assms(1) [of a v a'] r show ?thesis by simp
  qed
qed

lemma silent_or_sw_seqp [once_rules]:
  assumes "silent_or_sw p" "\<And>v. silent_or_sw (f v)"
  shows "silent_or_sw (seqp p f)"
proof (rule silent_or_swI)
  fix a v a' assume a: "ready a" and "seqp p f a = Some (Inr v, a')"
  then obtain u a1 where 1: "p a = Some (Inr u, a1)" "f u a1 = Some (Inr v, a')" unfolding seqp_Inr by blast
  show "ready a' \<and> sent (app_dc a') = sent (app_dc a)"
    using silent_or_swD(1) [OF assms(1) a 1(1)] silent_or_swD(1) [OF assms(2) _ 1(2)] by simp
next
  fix a e a' assume a: "ready a" and "seqp p f a = Some (Inl e, a')"
  then consider "p a = Some (Inl e, a')" | u a1 where "p a = Some (Inr u, a1)" "f u a1 = Some (Inl e, a')"
    unfolding seqp_Some by blast
  then show "sent (app_dc a') = sent (app_dc a) @ [enc_u16_be (disp_sw (app_dc a'))]"
    using silent_or_swD [OF assms(1) a] silent_or_swD(2) [OF assms(2)] by cases fastforce+
qed

lemma early_sw_seqp [once_rules]:
  assumes "silent_or_sw p" "\<And>v. early_sw (f v)"
  shows "early_sw (seqp p f)"
  unfolding early_sw_def
proof (intro allI impI)
  fix a e a' assume a: "ready a" and "seqp p f a = Some (Inl e, a')"
  then consider "p a = Some (Inl e, a')" | u a1 where "p a = Some (Inr u, a1)" "f u a1 = Some (Inl e, a')"
    unfolding seqp_Some by blast
  then show "sent (app_dc a') = sent (app_dc a) @ [enc_u16_be (disp_sw (app_dc a'))]"
  proof cases
    case 2
    then show ?thesis using silent_or_swD(1) [OF assms(1) a 2(1)] assms(2) [of u] unfolding early_sw_def by metis
  qed (rule silent_or_swD [OF assms(1) a])
qed

lemma silent_basic [once_rules]: "silent (ret v)" "silent (of_option e x)" "silent cmd_u8" "silent (cmd_bip32_path n)"
  by (auto simp: silent_def ready_def ret_def of_option_def err_def cmd_u8_def cmd_bip32_path_def on_dc_def rd_u8_def
    split: option.splits bind_splits prod.splits)

lemma silent_or_sw_ui [once_rules]: "silent_or_sw (ret v)" "silent_or_sw (text_field t m)" "silent_or_sw (io_ui_process E s)"
  by (auto simp: silent_or_sw_def ret_def text_field_def undefined_if_none_def ready_def io_ui_process_def Let_def io_start_processing_timeout_def
      io_clear_processing_timeout_def set_ui_dirty_def io_ok_def pending_def)

lemma silent_or_sw_if [once_rules]: "silent_or_sw p \<Longrightarrow> silent_or_sw q \<Longrightarrow> silent_or_sw (if c then p else q)"
  by simp

lemma fail_sw_sends: "ready a \<Longrightarrow> fail_sw sw a = Some (r, a') \<Longrightarrow> (\<exists>e. r = Inl e) \<and> sent (app_dc a') = sent (app_dc a) @ [enc_u16_be (disp_sw (app_dc a'))]"
  using SEND_SW_eq [of "app_dc a" sw] by (auto simp: fail_sw_def ready_def)

lemma silent_or_sw_check [once_rules]: "silent_or_sw (check_sw c sw)"
proof (rule silent_or_swI)
  fix a v a' assume "ready a" "check_sw c sw a = Some (Inr v, a')"
  then show "ready a' \<and> sent (app_dc a') = sent (app_dc a)" by (simp add: check_sw_Inr)
next
  fix a e a' assume a: "ready a" and "check_sw c sw a = Some (Inl e, a')"
  then have "fail_sw sw a = Some (Inl e :: int + unit, a')" by (simp add: check_sw_def ret_def split: if_splits)
  then show "sent (app_dc a') = sent (app_dc a) @ [enc_u16_be (disp_sw (app_dc a'))]" using fail_sw_sends [OF a] by blast
qed

lemma silent_or_sw_or_sw [once_rules]:
  assumes s: "silent p"
  shows "silent_or_sw (or_sw sw p)"
proof (rule silent_or_swI)
  fix a v a' assume "ready a" "or_sw sw p a = Some (Inr v, a')"
  then show "ready a' \<and> sent (app_dc a') = sent (app_dc a)" using s unfolding or_sw_Inr silent_def by blast
next
  fix a e a' assume a: "ready a" and "or_sw sw p a = Some (Inl e, a')"
  then obtain e' a1 where p: "p a = Some (Inl e', a1)" and f: "fail_sw sw a1 = Some (Inl e :: int + 'a, a')"
    by (auto simp: or_sw_def split: option.splits sum.splits prod.splits)
  have "ready a1 \<and> sent (app_dc a1) = sent (app_dc a)" using s a p unfolding silent_def by blast
  then show "sent (app_dc a') = sent (app_dc a) @ [enc_u16_be (disp_sw (app_dc a'))]" using fail_sw_sends [OF _ f] by simp
qed

lemma early_sw_respond [once_rules]: "early_sw (respond d n sw)"
  by (auto simp: early_sw_def respond_def)

lemma early_sw_case_prod [once_rules]: "(\<And>x y. early_sw (f x y)) \<Longrightarrow> early_sw (case p of (x, y) \<Rightarrow> f x y)"
  by (cases p) simp

lemma early_sw_handlers: "early_sw (handler_get_master_fingerprint E v)" "early_sw (handler_get_extended_pubkey E v)"
  unfolding handler_get_master_fingerprint_def handler_get_extended_pubkey_def ui_display_pubkey_def Let_def
  by ((rule once_rules)+)[2]

lemma get_extended_pubkey_Inr:
  assumes "handler_get_extended_pubkey E v a = Some (Inr (), a')" "answer d 0 (app_dc a)" "pending (app_dc a) = []" "app_screens a = []"
    and "BIP44_COIN_TYPE (e_coin E) < 0x80000000"
  defines "path \<equiv> map (\<lambda>i. read_u32_be (drop 7 (io_apdu_buffer (app_dc a))) (4 * i)) [0..<unat (d ! 1)]"
  obtains k key where "disp_sw (app_dc a') = SW_OK" "sent (app_dc a') = sent (app_dc a) @ [key @ enc_u16_be SW_OK]" "e_pin_validated E"
    "get_extended_pubkey_at_path (e_hf E) (e_os E) path (BIP32_PUBKEY_VERSION (e_coin E)) = Some k"
    "base58_encode (xpub_bytes k @ crypto_get_checksum (e_hf E) (xpub_bytes k)) (MAX_SERIALIZED_PUBKEY_LENGTH + 1) = Some key"
    "app_screens a' = [] \<and> exportable (e_coin E) path \<or>
     app_screens a' = [if exportable (e_coin E) path then Screen_pubkey (shown_path path) key
       else Screen_pubkey_suspicious (shown_path path) key] \<and> e_user E (app_screens a')"
proof -
  let ?safe = "is_path_safe_for_pubkey_export (e_coin E)"
  from assms(1) obtain display len a1 a2 p a3 k key approved a4 where
      pin: "e_pin_validated E" and
      r: "cmd_u8 a = Some (Inr display, a1)" "cmd_u8 a1 = Some (Inr len, a2)" "cmd_bip32_path (unat len) a2 = Some (Inr p, a3)" and
      safe: "?safe p \<or> display \<noteq> 0" and
      k: "get_extended_pubkey_at_path (e_hf E) (e_os E) p (BIP32_PUBKEY_VERSION (e_coin E)) = Some k"
        "base58_encode (xpub_bytes k @ crypto_get_checksum (e_hf E) (xpub_bytes k)) (MAX_SERIALIZED_PUBKEY_LENGTH + 1) = Some key"
        "length key = 111 \<or> length key = 112" and
      ui: "(if display \<noteq> 0 then ui_display_pubkey E (path_str p) (\<not> ?safe p) (key @ [0]) else ret True) a3 = Some (Inr True, a4)" and
      resp: "respond key (of_nat (length key)) SW_OK a4 = Some (Inr (), a')"
    unfolding handler_get_extended_pubkey_def Let_def by (auto simp: handler_simps split: prod.splits)
  note a1 = cmd_u8_Inr [OF r(1) assms(2)]
  note a2 = cmd_u8_Inr [OF r(2) a1(4)]
  have off: "Suc (Suc 0) \<le> 9" by simp
  note a3 = cmd_bip32_path_Inr [OF r(3) a2(4) off]
  have p: "p = path" using a3(4) a1(3) a2(2,3) by (simp add: path_def)
  have f3: "io_ok (app_dc a3)" "pending (app_dc a3) = []" "sent (app_dc a3) = sent (app_dc a)" "app_screens a3 = []"
    using a1(3) a2(3) a3(1) answer_ok [OF assms(2)] assms(3,4) by auto
  have len: "unat (of_nat (length key) :: size_t) = length key" "length key < 258" using k(3) by (auto simp: unat_of_nat)
  have shown: "app_screens a4 = [] \<and> ?safe p \<or>
     app_screens a4 = [if ?safe p then Screen_pubkey (shown_path p) key else Screen_pubkey_suspicious (shown_path p) key] \<and> e_user E (app_screens a4)"
    and f4: "io_ok (app_dc a4)" "pending (app_dc a4) = []" "sent (app_dc a4) = sent (app_dc a)"
    using ui f3 safe a3(2,3) base58_encode_text(1) [OF k(2)]
    by (auto simp: ui_display_pubkey_def handler_simps c_string_path_str split: if_splits)
  show ?thesis
    using that [OF _ _ pin k(1,2) [unfolded p]] respond_Inr [OF resp f4(1,2)] shown [unfolded p is_path_safe_for_pubkey_export_iff [OF assms(5)]] len f4(3) by simp
qed


text \<open>Every extended public key of the two coins has 111 characters.\<close>

lemma base58_xpub_length:
  assumes "length x = 82" "take 4 x = [4, 0x88, 0xB2, 0x1E] \<or> take 4 x = [4, 0x35, 0x87, 0xCF]"
  shows "\<exists>e. base58_encode x (MAX_SERIALIZED_PUBKEY_LENGTH + 1) = Some e \<and> length e = 111"
proof -
  define v where "v = radix_value 256 (take 4 x)"
  have v: "70617039 \<le> v" "v \<le> 76067358" using assms(2) by (auto simp: v_def)
  have V: "radix_value 256 x = v * 256 ^ 78 + radix_value 256 (drop 4 x)"
    using radix_value_append [of 256 "take 4 x" "drop 4 x"] assms(1) by (simp add: v_def)
  moreover have "radix_value 256 (drop 4 x) < 256 ^ 78"
    using radix_value_less [of "drop 4 x" 256] assms(1) u8_less by simp
  ultimately have "70617039 * 256 ^ 78 \<le> radix_value 256 x" "radix_value 256 x < 76067359 * 256 ^ 78"
    using v by simp_all
  then have b: "58 ^ 110 \<le> radix_value 256 x" "radix_value 256 x < 58 ^ 111" by simp_all
  have nl: "no_lead x" using assms(2) by (cases x) (auto simp: no_lead_def)
  obtain ds where ds: "base58_ok ds" "no_lead ds" "radix_value 58 ds = radix_value 256 x"
      "base58_encode x (MAX_SERIALIZED_PUBKEY_LENGTH + 1) = (if length ds \<le> MAX_SERIALIZED_PUBKEY_LENGTH + 1 then Some (map alphabet ds) else None)"
    using base58_encode_eq [OF nl, of 0] assms(1) by auto
  have "ds \<noteq> []" using b(1) ds(3) by auto
  then have "(58 :: nat) ^ (length ds - 1) < 58 ^ 111" using radix_value_lead [OF ds(2), of 58] b(2) ds(3) by linarith
  moreover have "(58 :: nat) ^ 110 < 58 ^ length ds" using radix_value_less [of ds 58] ds(1,3) b(1) by (simp add: base58_ok_def)
  ultimately have "length ds - 1 < 111" "110 < length ds" by (simp_all only: power_strict_increasing_iff)
  then have "length ds = 111" by linarith
  then show ?thesis using ds(4) by (simp add: MAX_SERIALIZED_PUBKEY_LENGTH_def)
qed

text \<open>The state in which a handler starts with the data of a command.\<close>

definition commanded :: "bytes \<Rightarrow> app" where
  "commanded d = \<lparr>app_dc = idle\<lparr>io_apdu_buffer := take 260 ([0xE1, 0, 0, 1, of_nat (length d)] @ d @ replicate 260 0),
     read_buffer := buffer_create 0 [] (of_nat (length d))\<rparr>, app_screens = [], app_should_exit = False\<rparr>"

lemma commanded_fields [simp]: "app_screens (commanded d) = []" "sent (app_dc (commanded d)) = []" "pending (app_dc (commanded d)) = []"
  by (simp_all add: commanded_def idle_def pending_def)

lemma commanded_answer: "length d \<le> 255 \<Longrightarrow> answer d 0 (app_dc (commanded d))"
  by (auto simp: commanded_def answer_def idle_def io_ok_def IO_APDU_BUFFER_SIZE_def buffer_create_def unat_of_nat)

definition export_command :: bytes where
  "export_command = [0, 3, 0x80, 0, 0, 0x54, 0x80, 0, 0, 0x39, 0x80, 0, 0, 1]"

lemma cmd_u8_run:
  "answer d off (app_dc a) \<Longrightarrow> off < length d \<Longrightarrow> cmd_u8 a = Some (Inr (d ! off), a\<lparr>app_dc := step (app_dc a) 1\<rparr>)"
  by (simp add: cmd_u8_def on_dc_def rd_u8_eq)

lemma cmd_bip32_path_run:
  assumes "answer d off (app_dc a)" "n \<le> MAX_BIP32_PATH_STEPS" "off + 4 * n \<le> length d"
  shows "\<exists>b. cmd_bip32_path n a = Some (Inr (map (\<lambda>i. read_u32_be (drop (off + 5) (io_apdu_buffer (app_dc a))) (4 * i)) [0..<n]),
    a\<lparr>app_dc := (app_dc a)\<lparr>read_buffer := b\<rparr>\<rparr>)"
proof -
  define inp where "inp = drop (off + 5) (io_apdu_buffer (app_dc a))"
  have o: "unat (buf_offset (rb (app_dc a))) = off" "unat (buf_size (rb (app_dc a))) = length d" "length d \<le> 255"
    using assms(1) by (simp_all add: rb_def answer_def)
  then have sz: "unat (buf_size (rb (app_dc a)) - buf_offset (rb (app_dc a))) = length d - off"
    using assms(3) by (subst unat_sub_le) (auto simp: word_le_nat_alt)
  have inp: "drop (unat (buf_offset (rb (app_dc a)))) (buf_ptr (rb (app_dc a))) = inp"
    using o(1) by (simp add: inp_def rb_def)
  have "length (io_apdu_buffer (app_dc a)) = 260" using assms(1) by (simp add: answer_def io_ok_def IO_APDU_BUFFER_SIZE_def)
  then have "0 + 4 * n \<le> length inp" using assms(3) o(3) by (simp add: inp_def)
  from path_read_loop_eq [OF this, of "length d - off" "[]"]
  have "path_read_loop n 0 inp (length d - off) [] = Some (True, map (\<lambda>i. read_u32_be inp (4 * i)) [0..<n])"
    using assms(3) by fastforce
  then have "buffer_read_bip32_path (rb (app_dc a)) n =
      Some (True, map (\<lambda>i. read_u32_be inp (4 * i)) [0..<n], snd (buffer_seek_cur (rb (app_dc a)) (of_nat (4 * n))))"
    unfolding buffer_read_bip32_path_def bip32_path_read_def inp sz using assms(2) by simp
  then show ?thesis by (intro exI) (simp add: cmd_bip32_path_def on_dc_def inp_def)
qed

lemma run_simps:
  "p a = Some (Inr v, a1) \<Longrightarrow> seqp p f a = f v a1" "p a = Some (Inr v, a1) \<Longrightarrow> or_sw sw p a = Some (Inr v, a1)"
  "c \<Longrightarrow> check_sw c sw a = Some (Inr (), a)" "ret v a = Some (Inr v, a)" "of_option e (Some v) a = Some (Inr v, a)"
  "undefined_if_none (Some v) a = Some (Inr v, a)"
  by (simp_all add: seqp_def or_sw_def check_sw_def ret_def of_option_def undefined_if_none_def)

lemma respond_run:
  assumes "io_ok (app_dc a)" "pending (app_dc a) = []" "unat n \<le> length d" "unat n < 258"
  shows "\<exists>a'. respond d n sw a = Some (Inr (), a')"
  using io_add_to_response_eq [of "app_dc a" n d] assms by (auto simp: respond_def SEND_RESPONSE_def add_to_response_def)

lemma get_extended_pubkey_served:
  assumes "answer d 0 (app_dc a)" "pending (app_dc a) = []" "e_pin_validated E" "d ! 0 = 0" "unat (d ! 1) \<le> MAX_BIP32_PATH_STEPS"
    "2 + 4 * unat (d ! 1) \<le> length d" 
  defines "path \<equiv> map (\<lambda>i. read_u32_be (drop 7 (io_apdu_buffer (app_dc a))) (4 * i)) [0..<unat (d ! 1)]"
  assumes safe: "is_path_safe_for_pubkey_export (e_coin E) path"
    and k: "get_extended_pubkey_at_path (e_hf E) (e_os E) path (BIP32_PUBKEY_VERSION (e_coin E)) = Some k"
      "length (xpub_bytes k @ crypto_get_checksum (e_hf E) (xpub_bytes k)) = 82"
      "take 4 (xpub_bytes k @ crypto_get_checksum (e_hf E) (xpub_bytes k)) = [4, 0x88, 0xB2, 0x1E]"
  shows "\<exists>a'. handler_get_extended_pubkey E v a = Some (Inr (), a')"
proof -
  define a1 where "a1 = a\<lparr>app_dc := step (app_dc a) 1\<rparr>"
  have r1: "cmd_u8 a = Some (Inr 0, a1)" using cmd_u8_run [OF assms(1)] assms(4,6) by (cases d) (simp_all add: a1_def)
  have a1: "answer d 1 (app_dc a1)" using answer_step [OF assms(1), of 1] assms(6) by (simp add: a1_def)
  define a2 where "a2 = a1\<lparr>app_dc := step (app_dc a1) 1\<rparr>"
  have r2: "cmd_u8 a1 = Some (Inr (d ! 1), a2)" using cmd_u8_run [OF a1] assms(6) by (simp add: a2_def)
  have a2: "answer d 2 (app_dc a2)" using answer_step [OF a1, of 1] assms(6) by (simp add: a2_def numeral_2_eq_2)
  obtain b where r3: "cmd_bip32_path (unat (d ! 1)) a2 = Some (Inr path, a2\<lparr>app_dc := (app_dc a2)\<lparr>read_buffer := b\<rparr>\<rparr>)"
    using cmd_bip32_path_run [OF a2 assms(5,6)] by (auto simp: path_def a2_def a1_def)
  let ?a3 = "a2\<lparr>app_dc := (app_dc a2)\<lparr>read_buffer := b\<rparr>\<rparr>"
  obtain key where key: "base58_encode (xpub_bytes k @ crypto_get_checksum (e_hf E) (xpub_bytes k)) (MAX_SERIALIZED_PUBKEY_LENGTH + 1) = Some key" "length key = 111"
    using base58_xpub_length [OF k(2)] k(3) by auto
  have "io_ok (app_dc ?a3)" "pending (app_dc ?a3) = []" using answer_ok [OF assms(1)] assms(2) by (simp_all add: a2_def a1_def)
  then obtain a' where "respond key (of_nat (length key)) SW_OK ?a3 = Some (Inr (), a')" using respond_run [of ?a3 "of_nat (length key)" key SW_OK] key(2) by auto
  then show ?thesis
    using r3 assms(3-5) key safe k(1)
    by (simp add: handler_get_extended_pubkey_def Let_def run_simps r1 r2)
qed

definition export_path :: "u32 list" where
  "export_path = [0x80000054, 0x80000039, 0x80000001]"

definition export_key :: serialized_extended_pubkey where
  "export_key = the (get_extended_pubkey_at_path (e_hf test_env) (e_os test_env) export_path (BIP32_PUBKEY_VERSION (e_coin test_env)))"


end
