(* ===== verification/Handlers_Address.thy ===== *)
theory Handlers_Address
  imports Handlers_Export
begin

text \<open>
  Addresses of wallet policies (\<open>handler_get_wallet_address\<close>): what makes a policy a standard one of the
  device, and that an address leaves the device only for a registered or standard policy and, if it is to be displayed, with the user's consent.
\<close>

section \<open>Standard policies\<close>

text \<open>
  The four templates that need no registration, each with its purpose, and what it means that the
  policy is a standard one of the device: its only key is the one that the device derives for the
  purpose, the coin and an account of at most 100.
\<close>

definition standard_template :: "policy_node \<Rightarrow> int \<Rightarrow> bool" where
  "standard_template policy purpose \<longleftrightarrow> (\<exists>f g kp. key_index kp = 0 \<and> num_first kp = 0 \<and> num_second kp = 1 \<and>
     (policy = Node_with_key TOKEN_PKH f kp \<and> purpose = 44 \<or> policy = Node_with_key TOKEN_WPKH f kp \<and> purpose = 84 \<or>
      policy = Node_with_script TOKEN_SH f (Node_with_key TOKEN_WPKH g kp) \<and> purpose = 49 \<or>
      policy = Node_tr TOKEN_TR f kp None \<and> purpose = 86))"

definition own_standard_policy :: "env \<Rightarrow> policy_map_wallet_header \<Rightarrow> policy_node \<Rightarrow> bool" where
  "own_standard_policy E header policy \<longleftrightarrow> hdr_n_keys header = 1 \<and>
     (\<exists>purpose account k. standard_template policy purpose \<and> account \<le> MAX_BIP44_ACCOUNT_RECOMMENDED \<and>
        get_extended_pubkey_at_path (e_hf E) (e_os E)
          [0x80000000 + of_int purpose, 0x80000000 + BIP44_COIN_TYPE (e_coin E), 0x80000000 + account]
          (BIP32_PUBKEY_VERSION (e_coin E)) = Some k \<and>
        (\<exists>dc dc' info buf. key_info_element E (hdr_keys_info_merkle_root header) 1 0 dc = Some (Inr buf, dc') \<and>
           parse_policy_map_key_info E buf (uint (hdr_version header)) = Some info \<and> xpub_bytes (ki_ext_pubkey info) = xpub_bytes k))"

lemma purpose_standard: "get_bip44_purpose policy = p \<Longrightarrow> \<not> p < 0 \<Longrightarrow> standard_template policy p"
  unfolding get_bip44_purpose_def standard_template_def
  by (cases policy rule: purpose_and_key.cases) (auto split: if_splits)

lemma is_wallet_policy_standard_sound:
  assumes "is_wallet_policy_standard E header policy dc = Some (Inr (), dc')"
  shows "own_standard_policy E header policy"
proof -
  define p where "p = get_bip44_purpose policy"
  from assms obtain buf dc1 info k where
      n: "\<not> p < 0" "hdr_n_keys header = 1"
      and buf: "key_info_element E (hdr_keys_info_merkle_root header) 1 0 dc = Some (Inr buf, dc1)"
      and info: "parse_policy_map_key_info E buf (uint (hdr_version header)) = Some info"
      and k: "get_extended_pubkey_at_path (e_hf E) (e_os E) (ki_master_key_derivation info) (BIP32_PUBKEY_VERSION (e_coin E)) = Some k"
        "xpub_bytes (ki_ext_pubkey info) = xpub_bytes k"
      and path: "length (ki_master_key_derivation info) = 3" "ki_master_key_derivation info ! 0 = BIP32_FIRST_HARDENED_CHILD + of_int p"
        "ki_master_key_derivation info ! 1 = BIP32_FIRST_HARDENED_CHILD + BIP44_COIN_TYPE (e_coin E)"
        "\<not> ki_master_key_derivation info ! 2 < BIP32_FIRST_HARDENED_CHILD"
        "\<not> ki_master_key_derivation info ! 2 > BIP32_FIRST_HARDENED_CHILD + MAX_BIP44_ACCOUNT_RECOMMENDED"
    unfolding is_wallet_policy_standard_def Let_def p_def by (auto simp: success_simps)
  define account where "account = ki_master_key_derivation info ! 2 - 0x80000000"
  have "0x80000000 \<le> ki_master_key_derivation info ! 2" "ki_master_key_derivation info ! 2 \<le> 0x80000000 + 100"
    using path(4,5) by (simp_all add: BIP32_FIRST_HARDENED_CHILD_def MAX_BIP44_ACCOUNT_RECOMMENDED_def not_less)
  then have acc: "account \<le> MAX_BIP44_ACCOUNT_RECOMMENDED" "ki_master_key_derivation info ! 2 = 0x80000000 + account"
    unfolding account_def MAX_BIP44_ACCOUNT_RECOMMENDED_def by (simp_all add: word_le_nat_alt unat_sub_le)
  have "ki_master_key_derivation info =
      [ki_master_key_derivation info ! 0, ki_master_key_derivation info ! 1, ki_master_key_derivation info ! 2]"
    using path(1) by (auto simp: numeral_3_eq_3 numeral_2_eq_2 length_Suc_conv)
  then have "ki_master_key_derivation info = [0x80000000 + of_int p, 0x80000000 + BIP44_COIN_TYPE (e_coin E), 0x80000000 + account]"
    using path(2,3) acc(2) by (simp add: BIP32_FIRST_HARDENED_CHILD_def)
  then show ?thesis
    unfolding own_standard_policy_def using n purpose_standard [OF p_def [symmetric] n(1)] acc(1) k buf info by metis
qed

section \<open>Addresses\<close>

lemma cmd_bytes_Inr:
  assumes "cmd_bytes n a = Some (Inr v, a')" "answer d off (app_dc a)"
  shows "off + unat n \<le> length d" "v = take (unat n) (drop off d)" "a' = a\<lparr>app_dc := step (app_dc a) n\<rparr>" "answer d (off + unat n) (app_dc a')"
proof -
  have *: "off + unat n \<le> length d \<and> v = take (unat n) (drop off d) \<and> a' = a\<lparr>app_dc := step (app_dc a) n\<rparr>"
    using assms by (auto simp: cmd_bytes_def on_dc_Inr rd_bytes_eq split: if_splits)
  then show "off + unat n \<le> length d" "v = take (unat n) (drop off d)" "a' = a\<lparr>app_dc := step (app_dc a) n\<rparr>" by simp_all
  show "answer d (off + unat n) (app_dc a')" using * answer_step [OF assms(2), of n] by simp
qed

lemma cmd_u32_be_Inr:
  assumes "cmd_u32_be a = Some (Inr v, a')" "answer d off (app_dc a)"
  shows "off + 4 \<le> length d" "v = read_u32_be (drop off d) 0" "\<exists>b. a' = a\<lparr>app_dc := (app_dc a)\<lparr>read_buffer := b\<rparr>\<rparr>"
proof -
  have r: "buffer_read_u32 (rb (app_dc a)) BE =
      (if 4 \<le> length d - off then (True, read_u32_be (drop off d) 0, buf_adv (rb (app_dc a)) 4) else (False, 0, rb (app_dc a)))"
    using buffer_read_u32_eq [OF answer_rb(1) [OF assms(2)]] answer_rb(2) [OF assms(2)] by simp
  then show "off + 4 \<le> length d" "v = read_u32_be (drop off d) 0" "\<exists>b. a' = a\<lparr>app_dc := (app_dc a)\<lparr>read_buffer := b\<rparr>\<rparr>"
    using assms(1) by (auto simp: cmd_u32_be_def on_dc_Inr split: if_splits)
qed

lemma foldl_or_0: "foldl (OR) 0 xs = 0 \<longleftrightarrow> (\<forall>x\<in>set xs. x = 0)" for xs :: bytes
proof -
  have "foldl (OR) a xs = 0 \<longleftrightarrow> a = 0 \<and> (\<forall>x\<in>set xs. x = 0)" for a
    by (induction xs arbitrary: a) (auto simp: or_eq_0_iff)
  then show ?thesis by simp
qed

lemma segwit_addr_length:
  assumes "segwit_addr_encode hrp witver witprog = Some address"
  shows "length address \<le> length hrp + 72"
proof -
  obtain data enc where d: "convert_bits 5 witprog 8 True = Some data" "length witprog \<le> 40" and e: "bech32_encode hrp (of_int witver # data) enc = Some address"
    using assms by (auto simp: segwit_addr_encode_def split: if_splits option.splits)
  have "length data \<le> 64" using convert_bits_8_5 [OF d(1)] d(2) by simp
  then show ?thesis using e by (auto simp: bech32_encode_def Let_def split: if_splits)
qed

text \<open>An address fits the field of the screen that shows it.\<close>

lemma get_script_address_length:
  assumes a: "get_script_address coin hf script (of_nat (MAX_ADDRESS_LENGTH_STR coin + 1)) = Some address" and "length (COIN_NATIVE_SEGWIT_PREFIX coin) \<le> 83"
  shows "length address \<le> MAX_ADDRESS_LENGTH_STR coin"
proof -
  have n: "of_nat (MAX_ADDRESS_LENGTH_STR coin + 1) - 1 = (of_nat (MAX_ADDRESS_LENGTH_STR coin) :: size_t)" by simp
  have "MAX_ADDRESS_LENGTH_STR coin \<le> 156" using assms(2) by (simp add: MAX_ADDRESS_LENGTH_STR_def)
  then have "unat (of_nat (MAX_ADDRESS_LENGTH_STR coin) :: size_t) = MAX_ADDRESS_LENGTH_STR coin" by (simp add: unat_of_nat)
  moreover have "length (COIN_NATIVE_SEGWIT_PREFIX coin) + 72 \<le> MAX_ADDRESS_LENGTH_STR coin" by (simp add: MAX_ADDRESS_LENGTH_STR_def)
  ultimately show ?thesis using a [unfolded get_script_address_def n base58_encode_address_def Let_def]
    by (auto dest: base58_encode_text(2) segwit_addr_length split: option.splits if_splits)
qed

text \<open>The screen with an address: with the name of the policy, unless it is a standard one.\<close>

definition address_screen :: "bool \<Rightarrow> policy_map_wallet_header \<Rightarrow> bytes \<Rightarrow> screen" where
  "address_screen standard header address =
     (if standard then Screen_default_wallet_address (c_string address)
      else Screen_receive_in_wallet (c_string (hdr_name header)) (c_string address))"

lemma ret_Inr: "ret v s = Some (Inr w, s') \<longleftrightarrow> v = w \<and> s' = s"
  by (auto simp: ret_def)

text \<open>For unfolding a successful run of a long handler into its steps.\<close>

lemmas run_unfolds = seqp_Inr or_sw_Inr check_sw_Inr of_option_simps(3) ret_Inr split_paired_Ex prod.case prod.inject

lemma get_wallet_address_Inr:
  assumes "handler_get_wallet_address E v a = Some (Inr (), a')"
  obtains display a1 wid a2 hm a3 change a4 idx a5 header descriptor policy a6 standard a7 script a8 address a9 where
    "cmd_u8 a = Some (Inr display, a1)" "cmd_bytes 32 a1 = Some (Inr wid, a2)" "cmd_bytes 32 a2 = Some (Inr hm, a3)"
    "cmd_u8 a3 = Some (Inr change, a4)" "cmd_u32_be a4 = Some (Inr idx, a5)" "change = 0 \<or> change = 1" "idx < 0x80000000"
    "on_dc (fetch_wallet_policy E wid) a5 = Some (Inr (header, descriptor, policy), a6)" "wid = get_policy_wallet_id (sha E) header"
    "if standard then hm = replicate (length hm) 0 \<and> on_dc (is_wallet_policy_standard E header policy) a6 = Some (Inr (), a7) \<and> hdr_name_len header = 0 \<and> idx \<le> 50000
     else hm \<noteq> replicate (length hm) 0 \<and> check_wallet_hmac (e_os E) wid hm \<and> \<not> swap_called (e_swap E) \<and> a7 = a6"
    "on_dc (wallet_script E (header_wdi header (change = 1) idx) policy) a7 = Some (Inr script, a8)"
    "get_script_address (e_coin E) (e_hf E) script (of_nat (MAX_ADDRESS_LENGTH_STR (e_coin E) + 1)) = Some address"
    "if display = 0 then a9 = a8 else a9 = shown (address_screen standard header address) a8 \<and> e_user E (app_screens a9)"
    "respond address (of_nat (length address)) SW_OK a9 = Some (Inr (), a')" "e_pin_validated E"
proof -
  have z: "foldl (OR) 0 hm = 0 \<longleftrightarrow> hm = replicate (length hm) 0" for hm :: bytes
    unfolding foldl_or_0 by (induction hm) auto
  let ?auth = "\<lambda>hm header policy wid idx. if hm = replicate (length hm) 0 then
         seqp (or_sw SW_INCORRECT_DATA (on_dc (is_wallet_policy_standard E header policy))) (\<lambda>_.
         seqp (check_sw (hdr_name_len header = 0) SW_INCORRECT_DATA) (\<lambda>_.
         seqp (check_sw (\<not> idx > MAX_BIP44_ADDRESS_INDEX_RECOMMENDED) SW_INCORRECT_DATA) (\<lambda>_.
         ret True)))
       else
         seqp (check_sw (check_wallet_hmac (e_os E) wid hm) SW_SIGNATURE_FAIL) (\<lambda>_.
         ret False)"
  from assms [unfolded handler_get_wallet_address_def Let_def z run_unfolds]
  obtain display a1 wid a2 hm a3 change a4 idx a5 header descriptor policy a6 standard a7 script a8 address approved a9 where
      pin: "e_pin_validated E" and
      read: "cmd_u8 a = Some (Inr display, a1)" "cmd_bytes 32 a1 = Some (Inr wid, a2)" "cmd_bytes 32 a2 = Some (Inr hm, a3)"
        "cmd_u8 a3 = Some (Inr change, a4)" "cmd_u32_be a4 = Some (Inr idx, a5)" and
      chk: "\<not> (change \<noteq> 0 \<and> change \<noteq> 1)" "\<not> idx \<ge> BIP32_FIRST_HARDENED_CHILD" and
      fetch: "on_dc (fetch_wallet_policy E wid) a5 = Some (Inr (header, descriptor, policy), a6)" and
      auth: "?auth hm header policy wid idx a6 = Some (Inr standard, a7)" and
      swap: "\<not> (swap_called (e_swap E) \<and> \<not> standard)" and wid: "wid = get_policy_wallet_id (sha E) header" and
      script: "on_dc (wallet_script E (header_wdi header (change = 1) idx) policy) a7 = Some (Inr script, a8)" and
      address: "get_script_address (e_coin E) (e_hf E) script (of_nat (MAX_ADDRESS_LENGTH_STR (e_coin E) + 1)) = Some address" and
      ui: "(if display \<noteq> 0 then ui_display_wallet_address E (if standard then None else Some (hdr_name header)) address else ret True) a8 = Some (Inr approved, a9)" approved and
      resp: "respond address (of_nat (length address)) SW_OK a9 = Some (Inr (), a')"
    apply (elim exE conjE)
    apply hypsubst
    apply (rule that)
    apply (assumption | rule refl)+
    done
  show thesis
    by (rule that [OF read _ _ fetch wid _ script address _ resp pin, of standard])
      (use chk auth swap ui in \<open>auto simp: handler_simps BIP32_FIRST_HARDENED_CHILD_def MAX_BIP44_ADDRESS_INDEX_RECOMMENDED_def
        ui_display_wallet_address_def address_screen_def split: if_splits\<close>)
qed

text \<open>C6: Asked for an address of a wallet policy, the device answers with \<open>SW_OK\<close> only when the
  policy is the one of the wallet id in the command, and either the registration code in the command is
  the right one, or the code is zero and the policy is a standard one of this device, has no name and the index is at most
  50000; during an exchange only the latter is allowed. The message then sent is the address of the script of the policy
  for the branch and the index in the command. If the command asks to display it, the user has approved a screen with this
  address and the name of the policy; otherwise no screen was shown.\<close>

theorem handler_get_wallet_address_approved:
  assumes "handler_get_wallet_address E v a = Some (r, a')" "answer d 0 (app_dc a)" "pending (app_dc a) = []" "app_screens a = []"
    and "disp_sw (app_dc a') = SW_OK" "length (COIN_NATIVE_SEGWIT_PREFIX (e_coin E)) \<le> 83"
  defines "wallet_id \<equiv> take 32 (drop 1 d)" and "hmac \<equiv> take 32 (drop 33 d)" and "index \<equiv> read_u32_be (drop 66 d) 0"
  shows "\<exists>header descriptor policy standard script address dc dc1 dc2 dc3. e_pin_validated E \<and>
    fetch_wallet_policy E wallet_id dc = Some (Inr (header, descriptor, policy), dc1) \<and> wallet_id = get_policy_wallet_id (sha E) header \<and>
    (if standard then hmac = replicate 32 0 \<and> own_standard_policy E header policy \<and> hdr_name_len header = 0 \<and> index \<le> 50000
     else hmac \<noteq> replicate 32 0 \<and> check_wallet_hmac (e_os E) wallet_id hmac \<and> \<not> swap_called (e_swap E)) \<and>
    d ! 65 \<in> {0, 1} \<and> index < 0x80000000 \<and>
    wallet_script E (header_wdi header (d ! 65 = 1) index) policy dc2 = Some (Inr script, dc3) \<and>
    get_script_address (e_coin E) (e_hf E) script (of_nat (MAX_ADDRESS_LENGTH_STR (e_coin E) + 1)) = Some address \<and>
    last (sent (app_dc a')) = address @ enc_u16_be SW_OK \<and>
    (if d ! 0 = 0 then app_screens a' = []
     else app_screens a' = [address_screen standard header address] \<and> e_user E (app_screens a'))"
proof -
  have "r = Inr ()" using rejectsD [OF rejects_handlers(3) assms(1,5)] by auto
  with assms(1) have run: "handler_get_wallet_address E v a = Some (Inr (), a')" by simp
  obtain display a1 wid a2 hm a3 change a4 idx a5 header descriptor policy a6 standard a7 script a8 address a9 where
    r: "cmd_u8 a = Some (Inr display, a1)" "cmd_bytes 32 a1 = Some (Inr wid, a2)" "cmd_bytes 32 a2 = Some (Inr hm, a3)"
      "cmd_u8 a3 = Some (Inr change, a4)" "cmd_u32_be a4 = Some (Inr idx, a5)" and chk: "change = 0 \<or> change = 1" "idx < 0x80000000"
    and fetch: "on_dc (fetch_wallet_policy E wid) a5 = Some (Inr (header, descriptor, policy), a6)" and wid: "wid = get_policy_wallet_id (sha E) header"
    and auth: "if standard then hm = replicate (length hm) 0 \<and> on_dc (is_wallet_policy_standard E header policy) a6 = Some (Inr (), a7) \<and> hdr_name_len header = 0 \<and> idx \<le> 50000
     else hm \<noteq> replicate (length hm) 0 \<and> check_wallet_hmac (e_os E) wid hm \<and> \<not> swap_called (e_swap E) \<and> a7 = a6"
    and script: "on_dc (wallet_script E (header_wdi header (change = 1) idx) policy) a7 = Some (Inr script, a8)"
    and address: "get_script_address (e_coin E) (e_hf E) script (of_nat (MAX_ADDRESS_LENGTH_STR (e_coin E) + 1)) = Some address"
    and ui: "if display = 0 then a9 = a8 else a9 = shown (address_screen standard header address) a8 \<and> e_user E (app_screens a9)"
    and resp: "respond address (of_nat (length address)) SW_OK a9 = Some (Inr (), a')" and pin: "e_pin_validated E"
    by (rule get_wallet_address_Inr [OF run])
  note b1 = cmd_u8_Inr [OF r(1) assms(2)]
  note b2 = cmd_bytes_Inr [OF r(2) b1(4)]
  note b3 = cmd_bytes_Inr [OF r(3) b2(4)]
  note b4 = cmd_u8_Inr [OF r(4) b3(4)]
  note b5 = cmd_u32_be_Inr [OF r(5) b4(4)]
  have vals: "display = d ! 0" "wid = wallet_id" "hm = hmac" "change = d ! 65" "idx = index" "length hm = 32"
    using b1(2) b2(2) b3(1,2) b4(2) b5(2) by (simp_all add: wallet_id_def hmac_def index_def)
  have f5: "ready a5" "app_screens a5 = []"
    using b1(3) b2(3) b3(3) b4(3) b5(3) answer_ok [OF assms(2)] assms(3,4) by (auto simp: ready_def)
  have f6: "ready a6" "app_screens a6 = []" using on_dc_calm [OF fetch calm_policies(3) f5(1)] f5(2) by auto
  have f7: "ready a7" "app_screens a7 = []"
    using auth on_dc_calm [OF _ calm_policies(2) f6(1)] f6 by (auto split: if_splits)
  have f8: "ready a8" "app_screens a8 = []" using on_dc_calm [OF script calm_wallet_script f7(1)] f7(2) by auto
  have f9: "ready a9" "app_screens a9 = (if display = 0 then [] else [address_screen standard header address])"
    using ui f8 by (auto simp: ready_def split: if_splits)
  have len: "unat (of_nat (length address) :: size_t) = length address" "length address < 258"
    using get_script_address_length [OF address assms(6)] assms(6) by (simp_all add: unat_of_nat MAX_ADDRESS_LENGTH_STR_def)
  note res = respond_Inr [OF resp, unfolded len(1)]
  have own: "own_standard_policy E header policy" if standard
    using auth that is_wallet_policy_standard_sound by (auto simp: on_dc_Inr)
  have 1: "fetch_wallet_policy E wallet_id (app_dc a5) = Some (Inr (header, descriptor, policy), app_dc a6)"
    "wallet_script E (header_wdi header (d ! 65 = 1) index) policy (app_dc a7) = Some (Inr script, app_dc a8)"
    using fetch script by (auto simp: on_dc_Inr vals)
  have 2: "if standard then hmac = replicate 32 0 \<and> own_standard_policy E header policy \<and> hdr_name_len header = 0 \<and> index \<le> 50000
     else hmac \<noteq> replicate 32 0 \<and> check_wallet_hmac (e_os E) wallet_id hmac \<and> \<not> swap_called (e_swap E)"
    using auth own vals by (cases standard) simp_all
  have 3: "last (sent (app_dc a')) = address @ enc_u16_be SW_OK" "app_screens a' = app_screens a9"
    using res f9(1) len(2) by (simp_all add: ready_def)
  have 4: "if d ! 0 = 0 then app_screens a' = []
     else app_screens a' = [address_screen standard header address] \<and> e_user E (app_screens a')"
    using ui f9(2) 3(2) vals(1) by (cases "d ! 0 = 0") simp_all
  have 5: "wallet_id = get_policy_wallet_id (sha E) header" "d ! 65 \<in> {0, 1}" "index < 0x80000000"
    using wid chk vals by simp_all
  show ?thesis by (intro exI conjI; fact pin 1 2 3 4 5 address)
qed

section \<open>A policy without keys\<close>

text \<open>An example: the registered policy \<open>wsh(older(1))\<close> with the name \<open>A\<close>.\<close>

definition keyless_descriptor :: bytes where
  "keyless_descriptor = str ''wsh(older(1))''"

definition keyless_policy :: bytes where
  "keyless_policy = [1, 1, ch CHR ''A'', of_nat (length keyless_descriptor)] @ keyless_descriptor @ [0] @ replicate 32 0"

definition address_env :: env where
  "address_env = test_env\<lparr>e_host := scripted [reply (of_nat (length keyless_policy) # of_nat (length keyless_policy) # keyless_policy)]\<rparr>"

definition address_command :: bytes where
  "address_command = [1] @ digest32 keyless_policy @ digest32 (digest32 WALLET_SLIP0021_LABEL) @ [0, 0, 0, 0, 7]"

definition keyless_header :: policy_map_wallet_header where
  "keyless_header = \<lparr>hdr_version = 1, hdr_name_len = 1, hdr_name = [ch CHR ''A''], hdr_descriptor_template_len = 13,
     hdr_descriptor = keyless_descriptor, hdr_n_keys = 0, hdr_keys_info_merkle_root = replicate 32 0\<rparr>"

definition keyless_node :: policy_node where
  "keyless_node = Node_with_script TOKEN_WSH None (Node_with_uint32 TOKEN_OLDER (Some type_timelock) 1)"

definition keyless_script :: bytes where
  "keyless_script = [0, 32, 0x51, 0xB2] @ replicate 30 0"

lemma cmd_bytes_run:
  assumes "answer d off (app_dc a)" "off + unat n \<le> length d"
  shows "cmd_bytes n a = Some (Inr (take (unat n) (drop off d)), a\<lparr>app_dc := step (app_dc a) n\<rparr>)"
  using assms by (simp add: cmd_bytes_def on_dc_def rd_bytes_eq)

lemma cmd_u32_be_run:
  assumes "answer d off (app_dc a)" "off + 4 \<le> length d"
  shows "\<exists>b. cmd_u32_be a = Some (Inr (read_u32_be (drop off d) 0), a\<lparr>app_dc := (app_dc a)\<lparr>read_buffer := b\<rparr>\<rparr>)"
  using buffer_read_u32_eq [OF answer_rb(1) [OF assms(1)], of BE] answer_rb(2) [OF assms(1)] assms(2)
  by (auto simp: cmd_u32_be_def on_dc_def)

lemma keyless_header_read:
  "map_option fst (read_wallet_policy_header (buffer_create 0 (keyless_policy @ drop (length keyless_policy)
     (uninit address_env MAX_WALLET_POLICY_SERIALIZED_LENGTH)) (of_nat (length keyless_policy)))) = Some keyless_header"
  by code_simp

lemma keyless_parse:
  "map_option fst (parse_descriptor_template (e_sizes address_env) (buffer_create 0 (splice (uninit address_env MAX_DESCRIPTOR_TEMPLATE_LENGTH) 0
      (take (unat (hdr_descriptor_template_len keyless_header)) (hdr_descriptor keyless_header)))
      (ucast (hdr_descriptor_template_len keyless_header))) (e_addr address_env) (uninit address_env MAX_WALLET_POLICY_BYTES)
      (of_nat MAX_WALLET_POLICY_BYTES) (uint (hdr_version keyless_header))) = Some keyless_node"
  by code_simp

lemma keyless_wallet_script: "wallet_script address_env wdi keyless_node dc = Some (Inr keyless_script, dc)"
  by code_simp

lemma keyless_address:
  "\<exists>address. get_script_address (e_coin address_env) (e_hf address_env) keyless_script (of_nat (MAX_ADDRESS_LENGTH_STR (e_coin address_env) + 1)) = Some address"
proof -
  let ?hrp = "COIN_NATIVE_SEGWIT_PREFIX (e_coin address_env)" and ?n = "of_nat (MAX_ADDRESS_LENGTH_STR (e_coin address_env) + 1) :: size_t"
  have k: "get_script_type keyless_script = Some SCRIPT_TYPE_P2WSH" "\<not> ?n < 73 + of_nat (length ?hrp)"
    "list_all (\<lambda>c. hrp_char c \<and> \<not> is_upper c) ?hrp" "length ?hrp \<le> 18"
    by code_simp+
  obtain address where "segwit_addr_encode ?hrp 0 (drop 2 keyless_script) = Some address"
    using segwit_addr_encode_Some [OF k(3,4), of 0 "drop 2 keyless_script"] by (auto simp: keyless_script_def)
  then show ?thesis using k(1,2) by (auto simp: get_script_address_def keyless_script_def)
qed

lemma keyless_id: "get_policy_wallet_id (sha address_env) keyless_header = digest32 keyless_policy"
  by code_simp

lemma keyless_hmac: "check_wallet_hmac (e_os address_env) (digest32 keyless_policy) (digest32 (digest32 WALLET_SLIP0021_LABEL))"
  by code_simp

lemma keyless_fetch:
  assumes "io_ok dc" "pending dc = []" "sent dc = []"
  shows "\<exists>t dc'. fetch_wallet_policy address_env (digest32 keyless_policy) dc = Some (Inr (keyless_header, t, keyless_node), dc') \<and> io_ok dc' \<and> pending dc' = []"
proof -
  let ?out = "uninit address_env MAX_WALLET_POLICY_SERIALIZED_LENGTH"
  have len: "length ?out = 148" "length keyless_policy = 50" "digest32 = sha address_env" "length (digest32 keyless_policy) = 32"
    by (simp_all add: uninit_def address_env_def test_env_def MAX_WALLET_POLICY_SERIALIZED_LENGTH_def keyless_policy_def keyless_descriptor_def str_def digest32_def)
  have h: "e_host address_env ([] @ [m]) = Some (reply (varint_enc (of_nat (length keyless_policy)) @ of_nat (length keyless_policy) # keyless_policy))" for m
    by (simp add: address_env_def scripted_def varint_enc_def len)
  obtain dc' where g: "call_get_preimage (sha address_env) (e_host address_env) (digest32 keyless_policy) ?out dc =
      Some (Inr (int (length keyless_policy), keyless_policy @ drop (length keyless_policy) ?out), dc')" "io_ok dc'" "pending dc' = []"
    using get_preimage_run [of dc digest32 keyless_policy keyless_policy "[]" ?out "e_host address_env"] assms h len by auto
  obtain b where hr: "read_wallet_policy_header (buffer_create 0 (keyless_policy @ drop (length keyless_policy) ?out) (of_nat (length keyless_policy))) = Some (keyless_header, b)"
    using keyless_header_read by auto
  obtain st where pr: "parse_descriptor_template (e_sizes address_env) (buffer_create 0 (splice (uninit address_env MAX_DESCRIPTOR_TEMPLATE_LENGTH) 0
      (take (unat (hdr_descriptor_template_len keyless_header)) (hdr_descriptor keyless_header)))
      (ucast (hdr_descriptor_template_len keyless_header))) (e_addr address_env) (uninit address_env MAX_WALLET_POLICY_BYTES)
      (of_nat MAX_WALLET_POLICY_BYTES) (uint (hdr_version keyless_header)) = Some (keyless_node, st)"
    using keyless_parse by auto
  have v1: "uint (hdr_version keyless_header) = WALLET_POLICY_VERSION_V1" by code_simp
  show ?thesis
    unfolding fetch_wallet_policy_def read_and_parse_wallet_policy_def
    using g hr pr v1 by (simp add: seqp_def require_def ret_def of_option_def)
qed

lemma respond_sw: "respond d n sw a = Some (r, a') \<Longrightarrow> disp_sw (app_dc a') = sw"
  by (auto simp: respond_def SEND_RESPONSE_def SEND_SW_def send_response_def finalize_response_def io_confirm_response_def io_finalize_response_def)

text \<open>The handler serves a command for a registered policy.\<close>

lemma get_wallet_address_served:
  assumes an: "answer d 0 (app_dc a)" "ready a" "app_screens a = []" "length d = 70" and "e_pin_validated E" "\<not> swap_called (e_swap E)"
    and d: "d ! 0 \<noteq> 0" "d ! 65 = 0 \<or> d ! 65 = 1" "read_u32_be (drop 66 d) 0 < 0x80000000"
  defines "wallet_id \<equiv> take 32 (drop 1 d)" and "hmac \<equiv> take 32 (drop 33 d)"
  assumes fetch: "\<And>dc. io_ok dc \<Longrightarrow> pending dc = [] \<Longrightarrow> sent dc = sent (app_dc a) \<Longrightarrow>
      \<exists>t dc'. fetch_wallet_policy E wallet_id dc = Some (Inr (header, t, policy), dc') \<and> io_ok dc' \<and> pending dc' = []"
    and id: "get_policy_wallet_id (sha E) header = wallet_id"
    and hmac: "hmac \<noteq> replicate 32 0" "check_wallet_hmac (e_os E) wallet_id hmac"
    and script: "\<And>wdi dc. wallet_script E wdi policy dc = Some (Inr script, dc)"
    and address: "get_script_address (e_coin E) (e_hf E) script (of_nat (MAX_ADDRESS_LENGTH_STR (e_coin E) + 1)) = Some address"
    and name: "length (c_string (hdr_name header)) \<le> unat MAX_WALLET_NAME_LENGTH"
    and prefix: "length (COIN_NATIVE_SEGWIT_PREFIX (e_coin E)) \<le> 83"
    and user: "e_user E [Screen_receive_in_wallet (c_string (hdr_name header)) (c_string address)]"
  shows "\<exists>a'. handler_get_wallet_address E v a = Some (Inr (), a') \<and> disp_sw (app_dc a') = SW_OK"
proof -
  define a1 where "a1 = a\<lparr>app_dc := step (app_dc a) 1\<rparr>"
  have r1: "cmd_u8 a = Some (Inr (d ! 0), a1)" using cmd_u8_run [OF an(1)] an(4) by (simp add: a1_def)
  have n1: "answer d 1 (app_dc a1)" using answer_step [OF an(1), of 1] an(4) by (simp add: a1_def)
  define a2 where "a2 = a1\<lparr>app_dc := step (app_dc a1) 32\<rparr>"
  have r2: "cmd_bytes 32 a1 = Some (Inr wallet_id, a2)" using cmd_bytes_run [OF n1, of 32] an(4) by (simp add: a2_def wallet_id_def)
  have n2: "answer d 33 (app_dc a2)" using answer_step [OF n1, of 32] an(4) by (simp add: a2_def)
  define a3 where "a3 = a2\<lparr>app_dc := step (app_dc a2) 32\<rparr>"
  have r3: "cmd_bytes 32 a2 = Some (Inr hmac, a3)" using cmd_bytes_run [OF n2, of 32] an(4) by (simp add: a3_def hmac_def)
  have n3: "answer d 65 (app_dc a3)" using answer_step [OF n2, of 32] an(4) by (simp add: a3_def)
  define a4 where "a4 = a3\<lparr>app_dc := step (app_dc a3) 1\<rparr>"
  have r4: "cmd_u8 a3 = Some (Inr (d ! 65), a4)" using cmd_u8_run [OF n3] an(4) by (simp add: a4_def)
  have n4: "answer d 66 (app_dc a4)" using answer_step [OF n3, of 1] an(4) by (simp add: a4_def)
  obtain b where r5: "cmd_u32_be a4 = Some (Inr (read_u32_be (drop 66 d) 0), a4\<lparr>app_dc := (app_dc a4)\<lparr>read_buffer := b\<rparr>\<rparr>)"
    using cmd_u32_be_run [OF n4] an(4) by auto
  define a5 where "a5 = a4\<lparr>app_dc := (app_dc a4)\<lparr>read_buffer := b\<rparr>\<rparr>"
  have f5: "io_ok (app_dc a5)" "pending (app_dc a5) = []" "sent (app_dc a5) = sent (app_dc a)" "app_screens a5 = []"
    using an(2,3) by (simp_all add: a5_def a4_def a3_def a2_def a1_def ready_def)
  obtain t dc6 where f6: "fetch_wallet_policy E wallet_id (app_dc a5) = Some (Inr (header, t, policy), dc6)" "io_ok dc6" "pending dc6 = []"
    using fetch [OF f5(1-3)] by blast
  let ?a6 = "a5\<lparr>app_dc := dc6\<rparr>"
  let ?a9 = "shown (Screen_receive_in_wallet (c_string (hdr_name header)) (c_string address)) ?a6"
  have len: "length address < 258" "length (c_string address) < MAX_ADDRESS_LENGTH_STR (e_coin E) + 1"
    using get_script_address_length [OF address prefix] prefix length_takeWhile_le [of "\<lambda>c. c \<noteq> 0" address]
    by (simp_all add: MAX_ADDRESS_LENGTH_STR_def c_string_def)
  have ui: "ui_display_wallet_address E (Some (hdr_name header)) address ?a6 = Some (Inr True, ?a9)"
    using len(2) name user f5(4)
    by (simp add: ui_display_wallet_address_def seqp_def text_field_def undefined_if_none_def io_ui_process_def shown_def Let_def)
  obtain a' where rs: "respond address (of_nat (length address)) SW_OK ?a9 = Some (Inr (), a')"
    using respond_run [of ?a9 "of_nat (length address)" address SW_OK] len(1) f6(2,3) by (auto simp: unat_of_nat)
  have "foldl (OR) 0 hmac \<noteq> 0"
  proof
    assume "foldl (OR) 0 hmac = 0"
    then have "hmac = replicate (length hmac) 0" unfolding foldl_or_0 by (metis replicate_length_same)
    then show False using hmac(1) an(4) by (simp add: hmac_def)
  qed
  then have "handler_get_wallet_address E v a = Some (Inr (), a')"
    using assms(5,6) d f6(1) hmac(2) id script address ui r5 rs
    by (simp add: handler_get_wallet_address_def Let_def seqp_def or_sw_def check_sw_def ret_def of_option_def on_dc_def r1 r2 r3 r4
      a5_def [symmetric] BIP32_FIRST_HARDENED_CHILD_def not_le)
  then show ?thesis using respond_sw [OF rs] by blast
qed

theorem handler_get_wallet_address_approved_witness:
  "\<exists>a' standard header address. handler_get_wallet_address address_env 1 (commanded address_command) = Some (Inr (), a') \<and>
     last (sent (app_dc a')) = address @ enc_u16_be SW_OK \<and> app_screens a' = [address_screen standard header address]"
proof -
  let ?a = "commanded address_command"
  have len: "length address_command = 70" by (simp add: address_command_def digest32_def)
  then have an: "answer address_command 0 (app_dc ?a)" by (intro commanded_answer) simp
  then have rd: "ready ?a" by (simp add: ready_def answer_ok)
  have c: "address_command ! 0 = 1" "address_command ! 65 = 0" "read_u32_be (drop 66 address_command) 0 = 7"
    "take 32 (drop 1 address_command) = digest32 keyless_policy" "take 32 (drop 33 address_command) = digest32 (digest32 WALLET_SLIP0021_LABEL)"
    "digest32 (digest32 WALLET_SLIP0021_LABEL) \<noteq> replicate 32 0"
    by code_simp+
  have e: "length (COIN_NATIVE_SEGWIT_PREFIX (e_coin address_env)) \<le> 83" "e_pin_validated address_env" "\<not> swap_called (e_swap address_env)"
    "length (c_string (hdr_name keyless_header)) \<le> unat MAX_WALLET_NAME_LENGTH"
    by code_simp+
  have u: "e_user address_env s" for s by (simp add: address_env_def test_env_def)
  obtain address where address: "get_script_address (e_coin address_env) (e_hf address_env) keyless_script
      (of_nat (MAX_ADDRESS_LENGTH_STR (e_coin address_env) + 1)) = Some address"
    using keyless_address by blast
  have "\<exists>a'. handler_get_wallet_address address_env 1 ?a = Some (Inr (), a') \<and> disp_sw (app_dc a') = SW_OK"
  proof (rule get_wallet_address_served [OF an rd commanded_fields(1) len e(2,3) _ _ _ _ _ _ _ keyless_wallet_script address e(4,1) u])
    show "address_command ! 0 \<noteq> 0" "address_command ! 65 = 0 \<or> address_command ! 65 = 1" "read_u32_be (drop 66 address_command) 0 < 0x80000000"
      unfolding c by simp_all
    show "get_policy_wallet_id (sha address_env) keyless_header = take 32 (drop 1 address_command)" unfolding c by (rule keyless_id)
    show "take 32 (drop 33 address_command) \<noteq> replicate 32 0" unfolding c(5) by (rule c(6))
    show "check_wallet_hmac (e_os address_env) (take 32 (drop 1 address_command)) (take 32 (drop 33 address_command))"
      unfolding c by (rule keyless_hmac)
    fix dc assume "io_ok dc" "pending dc = []" "sent dc = sent (app_dc ?a)"
    then show "\<exists>t dc'. fetch_wallet_policy address_env (take 32 (drop 1 address_command)) dc = Some (Inr (keyless_header, t, keyless_node), dc') \<and> io_ok dc' \<and> pending dc' = []"
      unfolding c commanded_fields by (rule keyless_fetch)
  qed
  then obtain a' where r: "handler_get_wallet_address address_env 1 ?a = Some (Inr (), a')" "disp_sw (app_dc a') = SW_OK" by blast
  have "address_command ! 0 \<noteq> 0" using c(1) by simp
  with handler_get_wallet_address_approved [OF r(1) an commanded_fields(3,1) r(2) e(1)] obtain standard header address' where
      "last (sent (app_dc a')) = address' @ enc_u16_be SW_OK" "app_screens a' = [address_screen standard header address']"
    by (elim exE conjE) (simp only: if_False simp_thms)
  with r(1) show ?thesis by blast
qed

end
