(* ===== verification/Spec2Isabelle.thy ===== *)
theory Spec2Isabelle
  imports Handlers_Address Base58 Client_Preimage Bitvector
begin

text \<open>
  A verification of the Ledger application for Syscoin: the C sources under \<open>src/src\<close>, which run on a signing
  device that talks to an untrusted host and to its user.

  \<^bold>\<open>Conventions.\<close> A byte is an \<open>8 word\<close>, \<open>size_t\<close> a \<open>32 word\<close>, and every other integer keeps the width and the
  wrap-around of the source; an \<open>int\<close> of the source that stays small is an \<open>int\<close>. An array is the list of its bytes.
  A function with a status has an \<open>option\<close> or a sum as its result; a read or write out of bounds, an endless loop and
  any other undefined behaviour are \<open>None\<close> (the outer one where options are nested), so a
  theorem that a result exists also says that none of this happens. Code of the operating system is a parameter:
  the hash functions (\<open>hash_fns\<close>), the big-number and curve operations (\<open>cx_ops\<close>), the key derivation and the
  signatures (\<open>key_ops\<close>), the host (a function from all the messages sent so far to the next answer) and the user (a function
  from the screens shown so far to yes or no). No theorem assumes anything about the host, and a theorem that
  needs a property of a parameter (the length of a digest, the absence of a collision, the laws of a field) names it as a hypothesis.

  \<^bold>\<open>Foundations.\<close> \<open>Prelude\<close> has the lemmas on words and lists; \<open>Bytes\<close> the integer codecs (\<open>common/read.c\<close>,
  \<open>write.c\<close>, \<open>varint.c\<close>); \<open>Buffer\<close> the cursor (\<open>common/buffer.c\<close>), with the safety of every read
  and the round trip of every write; \<open>Bitvector\<close> the bit vectors; \<open>Base58\<close> (\<open>common/base58.c\<close>) and \<open>Segwit_Addr\<close>
  (\<open>common/segwit_addr.c\<close>) the two codecs of addresses, with their round trips; \<open>Text_Format\<close> and \<open>Bip32\<close> the texts
  on the screen (\<open>common/format.c\<close>, \<open>ui/display_utils.c\<close>, \<open>common/bip32.c\<close>, \<open>swap/btchip_bcd.c\<close>, \<open>swap/bip32_path.c\<close>);
  \<open>Script\<close> and \<open>Address\<close> the classification of output scripts and their addresses (\<open>common/script.c\<close>), which are
  shown to determine the script; \<open>Crypto_Hash\<close>, \<open>Crypto_Taproot\<close> and \<open>Keys\<close> are \<open>crypto.c\<close>.

  \<^bold>\<open>Wallet policies.\<close> \<open>Wallet_Types\<close>, \<open>Wallet_Lex\<close> and \<open>Wallet_Parse\<close> are \<open>common/wallet.c\<close> up to the parser of
  descriptor templates: the parser ends and yields only trees that satisfy the typing rules of miniscript. The
  recursion of \<open>parse_script\<close> and its loops run on fuel; \<open>parse_descriptor_template\<close> takes one more than the number of
  bytes of the input, and a theorem shows that any larger amount gives the same result. \<open>Miniscript\<close> and \<open>Policy_Size\<close> have the extended properties of miniscript (sizes, opcode and
  stack counts), which are compared with the script that is generated. \<open>Policy_Script\<close> is the stack machine of
  \<open>handler/lib/policy.c\<close> that compiles a policy to a script; \<open>Policy_Compile\<close> gives the script of a policy by structural recursion and shows that the
  machine computes it, in a locale for the derivation of keys that is interpreted on the device's own derivation.
  \<open>Policy_Keys\<close> has the rest of \<open>policy.c\<close>: the keys of a policy, standard policies, registration codes, placeholders
  and the sanity checks, whose soundness is in \<open>Policy_Sane\<close>. \<open>Policy_State\<close> carries an invariant of the dispatcher through script generation.

  \<^bold>\<open>Messages.\<close> \<open>Dispatcher\<close> has the parser of commands, the response buffer, the timeouts and the dispatcher
  (\<open>boilerplate/apdu_parser.c\<close>, \<open>io.c\<close>, \<open>dispatcher.c\<close>). \<open>Merkle\<close> and \<open>Client\<close> have the requests of the device to the host
  (\<open>common/merkle.c\<close>, \<open>handler/lib/get_*.c\<close>, \<open>stream_*.c\<close>, \<open>check_merkle_tree_sorted.c\<close>). \<open>Client_Rules\<close>,
  \<open>Client_Sound\<close>, \<open>Client_Props\<close>, \<open>Client_Preimage\<close> and \<open>Client_Calm\<close> show what the device knows of the answers of
  an arbitrary host, that an honest host is served, and that no request leaves a partial response behind. Loops
  whose end depends on the host are partial functions, and it is proved when they return.

  \<^bold>\<open>Commands.\<close> \<open>Display\<close> has the screens (\<open>ui/display.c\<close>, for devices with buttons) and \<open>Handlers\<close> the commands for fingerprints, public
  keys, addresses, registration and messages (\<open>handler/*.c\<close>). The state of a handler is that of the dispatcher with the list of the screens that were shown.
  \<open>Handlers_Rules\<close> has the rules for successful runs and early returns, and \<open>Handlers_Export\<close> and
  \<open>Handlers_Address\<close> show when a public key and an address leave the device.

  \<^bold>\<open>Not modelled.\<close> The signing of transactions (\<open>handler/sign_psbt.c\<close> with \<open>handler/sign_psbt\<close>, and the stream parser
  \<open>common/parser.c\<close> with \<open>handler/lib/psbt_parse_rawtx.c\<close>), the event loop of \<open>main.c\<close> and the entry points of the exchange
  application (\<open>swap/handle_*.c\<close>). The drawing of the screens and the menus (\<open>ui/display_bagl.c\<close>, \<open>ui/display_nbgl.c\<close>,
  \<open>ui/menu*.c\<close>) only call the operating system. \<open>debug-helpers\<close> is not in a released application.
\<close>

end
